(* ===== verification/Prelude.thy ===== *)
theory Prelude
  imports Main "HOL-Library.Word" "HOL-Library.Multiset"
begin

section \<open>Prelude: the vocabulary shared by the component theories\<close>

text \<open>
  What every component theory rests on: the machine integers of the C++ sources
  (\<open>unsigned\<close>, \<open>std::size_t\<close>), the exceptions they throw as values, \<open>compare_exchange_strong\<close>
  of \<open>std::atomic\<close>, the \<open>for (unsigned n = 0U; n != limit; ++n)\<close> loop with an early return, the
  runs of an interleaving model given as an executable step function, counting threads by
  program counter, and the locale \<open>invariant_system\<close> through which every concurrent component
  proves its invariant.
\<close>

named_theorems step_simps \<open>equations that evaluate one step of an interleaving model\<close>
named_theorems inv_defs \<open>definitions of the invariants\<close>

subsection \<open>Machine integers and exceptions\<close>

type_synonym uint = "32 word"    \<comment> \<open>\<open>unsigned\<close>, \<open>std::atomic_uint\<close>\<close>
type_synonym size_t = "64 word"  \<comment> \<open>\<open>std::size_t\<close>, \<open>std::atomic_size_t\<close>\<close>

datatype exn =
    SystemError int          \<comment> \<open>\<open>std::system_error\<close> with an \<open>errno\<close> value\<close>
  | InvalidArgument string   \<comment> \<open>\<open>std::invalid_argument\<close>\<close>
  | DomainError string       \<comment> \<open>\<open>std::domain_error\<close>\<close>
  | BadVariantAccess         \<comment> \<open>\<open>std::bad_variant_access\<close>\<close>
  | BadOptionalAccess        \<comment> \<open>\<open>std::bad_optional_access\<close>\<close>
  | RuntimeError string      \<comment> \<open>any exception thrown by user code\<close>

type_synonym 'a result = "exn + 'a"

definition result_bind :: "'a result \<Rightarrow> ('a \<Rightarrow> 'b result) \<Rightarrow> 'b result" where
  "result_bind r f = (case r of Inl e \<Rightarrow> Inl e | Inr x \<Rightarrow> f x)"

text \<open>\<open>std::atomic::compare_exchange_strong(expected, desired)\<close>: whether it stored, and the
  value of the atomic afterwards.\<close>

definition compare_exchange_strong :: "'a \<Rightarrow> 'a \<Rightarrow> 'a \<Rightarrow> bool \<times> 'a" where
  "compare_exchange_strong current expected desired =
     (if current = expected then (True, desired) else (False, current))"

subsection \<open>Loops with a 32-bit counter and a 64-bit limit\<close>

text \<open>
  \<open>for (unsigned n = start; n != limit; ++n) { if (body(n)) return ...; }\<close>. The counter wraps
  at 32 bits while the limit is a \<open>std::size_t\<close>, so the loop need not end: \<open>None\<close> is a loop
  that runs forever, \<open>Some (None, s)\<close> one that ran to its limit and \<open>Some (Some r, s)\<close> one that
  returned early.
\<close>

partial_function (option) try_loop ::
  "(uint \<Rightarrow> 's \<Rightarrow> 'r option \<times> 's) \<Rightarrow> size_t \<Rightarrow> uint \<Rightarrow> 's \<Rightarrow> ('r option \<times> 's) option"
where
  "try_loop body limit n s =
     (if ucast n = limit then Some (None, s)
      else (case body n s of
              (Some r, s') \<Rightarrow> Some (Some r, s')
            | (None, s') \<Rightarrow> try_loop body limit (n + 1) s'))"

text \<open>The same loop on unbounded counters: attempts \<open>0, 1, ..., k - 1\<close> until one succeeds.\<close>

fun first_success :: "(nat \<Rightarrow> 's \<Rightarrow> 'r option \<times> 's) \<Rightarrow> nat list \<Rightarrow> 's \<Rightarrow> 'r option \<times> 's" where
  "first_success body [] s = (None, s)"
| "first_success body (n # ns) s =
     (case body n s of
        (Some r, s') \<Rightarrow> (Some r, s')
      | (None, s') \<Rightarrow> first_success body ns s')"

subsection \<open>Runs of an interleaving model\<close>

text \<open>
  An interleaving model is a function \<open>step\<close>: \<open>step a s\<close> is \<open>Some s'\<close> when action \<open>a\<close> (one atomic
  action of one thread) is enabled in state \<open>s\<close> and leads to \<open>s'\<close>, and \<open>None\<close> when it is not
  enabled. A run is a list of actions.
\<close>

fun run :: "('a \<Rightarrow> 's \<Rightarrow> 's option) \<Rightarrow> 'a list \<Rightarrow> 's \<Rightarrow> 's option" where
  "run step [] s = Some s"
| "run step (a # as) s = (case step a s of None \<Rightarrow> None | Some s' \<Rightarrow> run step as s')"

inductive reachable :: "('a \<Rightarrow> 's \<Rightarrow> 's option) \<Rightarrow> 's \<Rightarrow> 's \<Rightarrow> bool" for step s0 where
  reachable_start: "reachable step s0 s0"
| reachable_step: "reachable step s0 s \<Longrightarrow> step a s = Some s' \<Longrightarrow> reachable step s0 s'"

definition enabled :: "('a \<Rightarrow> 's \<Rightarrow> 's option) \<Rightarrow> 'a \<Rightarrow> 's \<Rightarrow> bool" where
  "enabled step a s \<longleftrightarrow> step a s \<noteq> None"

definition count_if :: "('p \<Rightarrow> bool) \<Rightarrow> 'p list \<Rightarrow> nat" where
  "count_if P ps = length (filter P ps)"

subsection \<open>Lemmas on results and atomics\<close>

lemma result_bind_simps [simp]:
  "result_bind (Inl e) f = Inl e"
  "result_bind (Inr x) f = f x"
  by (simp_all add: result_bind_def)

lemma result_bind_eq_Inr:
  "result_bind r f = Inr y \<longleftrightarrow> (\<exists>x. r = Inr x \<and> f x = Inr y)"
  by (cases r) auto

lemma cas_success [simp]:
  "compare_exchange_strong e e d = (True, d)"
  by (simp add: compare_exchange_strong_def)

lemma cas_failure [simp]:
  "c \<noteq> e \<Longrightarrow> compare_exchange_strong c e d = (False, c)"
  by (simp add: compare_exchange_strong_def)

subsection \<open>Lemmas on runs and reachability\<close>

lemma run_append:
  "run step (as @ bs) s = (case run step as s of None \<Rightarrow> None | Some s' \<Rightarrow> run step bs s')"
  by (induction as arbitrary: s) (auto split: option.splits)

lemma reachable_run:
  assumes "reachable step s0 s" and "run step as s = Some s'"
  shows "reachable step s0 s'"
  using assms
proof (induction as arbitrary: s)
  case Nil
  then show ?case by simp
next
  case (Cons a as)
  then show ?case
    by (auto split: option.splits intro: reachable_step)
qed

lemma run_reachable: "run step as s0 = Some s \<Longrightarrow> reachable step s0 s"
  by (rule reachable_run [OF reachable_start])

lemma reachable_the_run: "run step as s0 \<noteq> None \<Longrightarrow> reachable step s0 (the (run step as s0))"
  by (rule run_reachable [of _ as]) auto

lemma reachable_iff_run: "reachable step s0 s \<longleftrightarrow> (\<exists>as. run step as s0 = Some s)"
proof
  assume "reachable step s0 s"
  then show "\<exists>as. run step as s0 = Some s"
  proof induction
    case reachable_start
    show ?case by (rule exI [of _ "[]"]) simp
  next
    case (reachable_step s a s')
    then obtain as where "run step as s0 = Some s" by blast
    with reachable_step(2) have "run step (as @ [a]) s0 = Some s'"
      by (simp add: run_append)
    then show ?case by blast
  qed
qed (blast intro: run_reachable)

text \<open>
  The same for a model whose steps are a relation, labelled by actions.
\<close>

inductive reaches :: "('a \<Rightarrow> 's \<Rightarrow> 's \<Rightarrow> bool) \<Rightarrow> 's \<Rightarrow> 's \<Rightarrow> bool" for rel s0 where
  reaches_start: "reaches rel s0 s0"
| reaches_step: "reaches rel s0 s \<Longrightarrow> rel a s s' \<Longrightarrow> reaches rel s0 s'"

text \<open>The same with the actions that were taken.\<close>

inductive trace :: "('a \<Rightarrow> 's \<Rightarrow> 's \<Rightarrow> bool) \<Rightarrow> 's \<Rightarrow> 'a list \<Rightarrow> 's \<Rightarrow> bool" for rel s0 where
  trace_start: "trace rel s0 [] s0"
| trace_step: "trace rel s0 as s \<Longrightarrow> rel a s s' \<Longrightarrow> trace rel s0 (as @ [a]) s'"

lemma trace_reaches: "trace rel s0 as s \<Longrightarrow> reaches rel s0 s"
  by (induction rule: trace.induct) (auto intro: reaches.intros)

lemma run_preserves:
  assumes "run step as s = Some s'" and "P s" and "\<And>a t t'. a \<in> set as \<Longrightarrow> P t \<Longrightarrow> step a t = Some t' \<Longrightarrow> P t'"
  shows "P s'"
  using assms
proof (induction as arbitrary: s)
  case (Cons a as)
  then obtain t where t: "step a s = Some t" "run step as t = Some s'" by (auto split: option.splits)
  with Cons.prems have "P t" by auto
  with t Cons.IH Cons.prems(3) show ?case by auto
qed simp

lemma reachable_reaches: "reachable step s0 s \<longleftrightarrow> reaches (\<lambda>a s s'. step a s = Some s') s0 s"
proof
  show "reachable step s0 s \<Longrightarrow> reaches (\<lambda>a s s'. step a s = Some s') s0 s"
    by (induction rule: reachable.induct) (auto intro: reaches.intros)
  show "reaches (\<lambda>a s s'. step a s = Some s') s0 s \<Longrightarrow> reachable step s0 s"
    by (induction rule: reaches.induct) (auto intro: reachable.intros)
qed

text \<open>
  The contract every concurrent component discharges: its invariant holds at the start and
  each action keeps it. The client lemma: it holds in every reachable state. It is stated for
  step relations; a step function is the special case \<open>invariant_system\<close>.
\<close>

locale invariant_relation =
  fixes rel :: "'a \<Rightarrow> 's \<Rightarrow> 's \<Rightarrow> bool"
    and start :: "'s \<Rightarrow> bool"
    and inv :: "'s \<Rightarrow> bool"
  assumes inv_start: "start s \<Longrightarrow> inv s"
    and inv_rel: "inv s \<Longrightarrow> rel a s s' \<Longrightarrow> inv s'"
begin

lemma inv_reaches:
  assumes "reaches rel s0 s" and "start s0"
  shows "inv s"
  using assms(1)
proof induction
  case reaches_start
  from assms(2) show ?case by (rule inv_start)
next
  case (reaches_step s a s')
  then show ?case by (blast intro: inv_rel)
qed

end

locale invariant_system =
  fixes step :: "'a \<Rightarrow> 's \<Rightarrow> 's option"
    and start :: "'s \<Rightarrow> bool"
    and inv :: "'s \<Rightarrow> bool"
  assumes inv_at_start: "start s \<Longrightarrow> inv s"
    and inv_step: "inv s \<Longrightarrow> step a s = Some s' \<Longrightarrow> inv s'"

sublocale invariant_system \<subseteq> invariant_relation "\<lambda>a s s'. step a s = Some s'" start inv
  by unfold_locales (fact inv_at_start, fact inv_step)

context invariant_system
begin

lemma inv_reachable: "reachable step s0 s \<Longrightarrow> start s0 \<Longrightarrow> inv s"
  unfolding reachable_reaches by (rule inv_reaches)

lemma inv_run: "run step as s0 = Some s \<Longrightarrow> start s0 \<Longrightarrow> inv s"
  by (blast intro: inv_reachable run_reachable)

end

text \<open>
  Refinement. Each action of the detailed model is matched by a list of actions of an abstract
  one, empty for a step that the abstract model does not see; \<open>trace_of\<close> is the abstract run
  that a detailed run amounts to.
\<close>

fun trace_of :: "('a \<Rightarrow> 's \<Rightarrow> 's option) \<Rightarrow> ('a \<Rightarrow> 's \<Rightarrow> 'b list) \<Rightarrow> 'a list \<Rightarrow> 's \<Rightarrow> 'b list" where
  "trace_of step acts [] s = []"
| "trace_of step acts (a # as) s =
     acts a s @ (case step a s of None \<Rightarrow> [] | Some s' \<Rightarrow> trace_of step acts as s')"

locale relational_simulation = invariant_relation rel start inv
  for rel :: "'a \<Rightarrow> 's \<Rightarrow> 's \<Rightarrow> bool" and start :: "'s \<Rightarrow> bool" and inv :: "'s \<Rightarrow> bool" +
  fixes spec_step :: "'b \<Rightarrow> 't \<Rightarrow> 't option"
    and matches :: "'a \<Rightarrow> 'b list \<Rightarrow> bool"
    and lift :: "'s \<Rightarrow> 't"
  assumes sim_rel: "inv s \<Longrightarrow> rel a s s' \<Longrightarrow> \<exists>bs. matches a bs \<and> run spec_step bs (lift s) = Some (lift s')"
begin

lemma sim_trace:
  assumes "trace rel s as s'" and "start s"
  shows "\<exists>bss. list_all2 matches as bss \<and> run spec_step (concat bss) (lift s) = Some (lift s')"
  using assms(1)
proof induction
  case trace_start
  show ?case by (rule exI [of _ "[]"]) simp
next
  case (trace_step as t a t')
  then obtain bss where bss: "list_all2 matches as bss" "run spec_step (concat bss) (lift s) = Some (lift t)"
    by blast
  have "inv t" using trace_reaches [OF trace_step.hyps(1)] assms(2) by (rule inv_reaches)
  with trace_step.hyps(2) obtain bs where bs: "matches a bs" "run spec_step bs (lift t) = Some (lift t')"
    using sim_rel by blast
  from bss bs have "list_all2 matches (as @ [a]) (bss @ [bs])
      \<and> run spec_step (concat (bss @ [bs])) (lift s) = Some (lift t')"
    by (simp add: run_append list_all2_appendI)
  then show ?case by blast
qed

end

text \<open>A step function says in addition which abstract actions match an action.\<close>

locale simulation = invariant_system step start inv
  for step :: "'a \<Rightarrow> 's \<Rightarrow> 's option" and start :: "'s \<Rightarrow> bool" and inv :: "'s \<Rightarrow> bool" +
  fixes spec_step :: "'b \<Rightarrow> 't \<Rightarrow> 't option"
    and acts :: "'a \<Rightarrow> 's \<Rightarrow> 'b list"
    and lift :: "'s \<Rightarrow> 't"
  assumes sim_step:
    "inv s \<Longrightarrow> step a s = Some s' \<Longrightarrow> run spec_step (acts a s) (lift s) = Some (lift s')"
begin

lemma sim_run_inv:
  assumes "inv s" and "run step as s = Some s'"
  shows "run spec_step (trace_of step acts as s) (lift s) = Some (lift s')"
  using assms
proof (induction as arbitrary: s)
  case (Cons a as)
  then obtain t where t: "step a s = Some t" "run step as t = Some s'"
    by (auto split: option.splits)
  moreover from Cons.prems t have "inv t" by (blast intro: inv_step)
  ultimately show ?case
    using Cons.IH [of t] Cons.prems(1) by (simp add: run_append sim_step)
qed simp

lemma sim_run:
  "start s \<Longrightarrow> run step as s = Some s' \<Longrightarrow>
     run spec_step (trace_of step acts as s) (lift s) = Some (lift s')"
  by (blast intro: sim_run_inv inv_at_start)

end

sublocale simulation \<subseteq> relational_simulation "\<lambda>a s s'. step a s = Some s'" start inv spec_step "\<lambda>_ _. True" lift
  by unfold_locales (blast intro: sim_step)

lemma reachable_preserves:
  assumes "reachable step s t" and "P s"
    and "\<And>u a v. P u \<Longrightarrow> step a u = Some v \<Longrightarrow> P v"
  shows "P t"
  using assms(1,2) by induction (auto intro: assms(3))

lemma reaches_trans: "reaches rel r s \<Longrightarrow> reaches rel s t \<Longrightarrow> reaches rel r t"
  by (rotate_tac, induction rule: reaches.induct) (auto intro: reaches.reaches_step)

lemma reachable_trans: "reachable step s t \<Longrightarrow> reachable step r s \<Longrightarrow> reachable step r t"
  by (induction rule: reachable.induct) (auto intro: reachable_step)

subsection \<open>Counting threads\<close>

lemma count_if_simps [simp]:
  "count_if P [] = 0"
  "count_if P (p # ps) = (if P p then 1 else 0) + count_if P ps"
  by (simp_all add: count_if_def)

lemma count_if_replicate [simp]: "\<not> P p \<Longrightarrow> count_if P (replicate n p) = 0"
  by (induction n) auto

lemma count_if_update:
  "i < length ps \<Longrightarrow>
     count_if P (ps[i := p]) + (if P (ps ! i) then 1 else 0) = count_if P ps + (if P p then 1 else 0)"
proof (induction ps arbitrary: i)
  case Nil
  then show ?case by simp
next
  case (Cons x xs)
  then show ?case by (cases i) auto
qed

lemma count_if_pos: "0 < count_if P ps \<longleftrightarrow> (\<exists>i < length ps. P (ps ! i))"
  by (auto simp: count_if_def filter_empty_conv in_set_conv_nth Bex_def)

lemma count_if_nthI: "i < length ps \<Longrightarrow> P (ps ! i) \<Longrightarrow> 0 < count_if P ps"
  by (auto simp: count_if_pos)

lemma sum_list_map_update:
  "i < length xs \<Longrightarrow>
     sum_list (map f (xs[i := x])) + f (xs ! i) = sum_list (map f xs) + (f x :: nat)"
proof (induction xs arbitrary: i)
  case Nil
  then show ?case by simp
next
  case (Cons y ys)
  show ?case
  proof (cases i)
    case (Suc j)
    with Cons.IH [of j] Cons.prems show ?thesis by simp
  qed simp
qed

lemma sum_list_map_update_less:
  "i < length xs \<Longrightarrow> f x < f (xs ! i) \<Longrightarrow> sum_list (map f (xs[i := x])) < (sum_list (map f xs) :: nat)"
  using sum_list_map_update [of i xs f x] by simp

lemma mset_concat_update:
  "i < length qs \<Longrightarrow>
     mset (concat (map f (qs[i := q]))) + mset (f (qs ! i)) = mset (concat (map f qs)) + mset (f q)"
proof (induction qs arbitrary: i)
  case Nil
  then show ?case by simp
next
  case (Cons x xs)
  then show ?case by (cases i) (auto simp: ac_simps)
qed

lemma replicate_two: "replicate 2 x = [x, x]"
  by (simp add: numeral_2_eq_2)

lemma nth_update_cases:
  "i < length xs \<Longrightarrow> xs[i := v] ! j = (if j = i then v else xs ! j)"
  by (auto simp: nth_list_update)

subsection \<open>Owning a mutex\<close>

text \<open>The owner of a mutex is the thread, if any, whose program counter \<open>holds\<close> it. A thread that
  moves keeps the mutex, acquires it, releases it, or has nothing to do with it.\<close>

definition owner_ok :: "('p \<Rightarrow> bool) \<Rightarrow> nat option \<Rightarrow> 'p list \<Rightarrow> bool" where
  "owner_ok holds ow ps \<longleftrightarrow> (\<forall>i. ow = Some i \<longleftrightarrow> i < length ps \<and> holds (ps ! i))"

lemma owner_okD: "owner_ok holds ow ps \<Longrightarrow> i < length ps \<Longrightarrow> holds (ps ! i) \<longleftrightarrow> ow = Some i"
  by (simp add: owner_ok_def)

lemma owner_ok_Some: "owner_ok holds (Some i) ps \<Longrightarrow> i < length ps \<and> holds (ps ! i)"
  unfolding owner_ok_def by blast

lemma owner_ok_update:
  assumes ok: "owner_ok holds ow ps" and i: "i < length ps"
    and own: "if holds p then (if holds (ps ! i) then ow' = ow else ow = None \<and> ow' = Some i)
              else (if holds (ps ! i) then ow' = None else ow' = ow)"
  shows "owner_ok holds ow' (ps[i := p])"
  unfolding owner_ok_def
proof
  fix j
  have hi: "holds (ps ! i) \<longleftrightarrow> ow = Some i" by (rule owner_okD [OF ok i])
  have hj: "holds (ps ! j) \<and> j < length ps \<longleftrightarrow> ow = Some j" using ok by (auto simp: owner_ok_def)
  show "ow' = Some j \<longleftrightarrow> j < length (ps[i := p]) \<and> holds (ps[i := p] ! j)"
    using own hi hj i by (cases "j = i") (auto split: if_splits)
qed

lemma owner_ok_map: "(\<And>p. holds (f p) = holds p) \<Longrightarrow> owner_ok holds ow (map f ps) = owner_ok holds ow ps"
  by (simp add: owner_ok_def cong: conj_cong)

lemma owner_ok_replicate: "\<not> holds p \<Longrightarrow> owner_ok holds None (replicate n p)"
  by (auto simp: owner_ok_def)

subsection \<open>Lemmas on the loop\<close>

declare try_loop.simps [code]

lemma unat_ucast_uint [simp]: "unat (ucast (n :: uint) :: size_t) = unat n"
proof -
  have "unat n < 2 ^ 64" using unsigned_less [of n, where ?'a = nat] by simp
  then show ?thesis by (simp add: unsigned_ucast_eq take_bit_nat_eq_self)
qed

lemma uint_succ_unat:
  fixes n :: uint
  assumes "unat n < 2 ^ 32 - 1"
  shows "unat (n + 1) = Suc (unat n)"
  using assms by (simp add: unat_word_ariths)

lemma try_loop_eq_first_success_aux:
  assumes "unat n + k = unat limit" and "unat limit < 2 ^ 32"
  shows "try_loop body limit n s =
           Some (first_success (\<lambda>i. body (of_nat i)) [unat n..<unat limit] s)"
  using assms
proof (induction k arbitrary: n s)
  case 0
  then have "ucast n = limit"
    by (simp add: word_unat_eq_iff)
  with 0 show ?case by (simp add: try_loop.simps)
next
  case (Suc k)
  then have lt: "unat n < unat limit" by simp
  then have ne: "ucast n \<noteq> limit"
    by auto
  from lt Suc.prems(2) have su: "unat (n + 1) = Suc (unat n)"
    by (intro uint_succ_unat) simp
  from lt have upt: "[unat n..<unat limit] = unat n # [Suc (unat n)..<unat limit]"
    by (rule upt_conv_Cons)
  have IH: "try_loop body limit (n + 1) t =
      Some (first_success (\<lambda>i. body (of_nat i)) [Suc (unat n)..<unat limit] t)" for t
    using Suc.IH [of "n + 1" t] Suc.prems su by simp
  show ?case
    by (subst try_loop.simps) (simp add: ne upt IH split: prod.splits option.splits)
qed

text \<open>Under a limit of less than \<open>2^32\<close> the loop ends and is the loop on unbounded counters.\<close>

lemma try_loop_eq_first_success:
  assumes "unat limit < 2 ^ 32"
  shows "try_loop body limit 0 s =
           Some (first_success (\<lambda>i. body (of_nat i)) [0..<unat limit] s)"
  using try_loop_eq_first_success_aux [of 0 "unat limit" limit body s] assms by simp

lemma first_success_None:
  assumes "\<And>n s. n \<in> set ns \<Longrightarrow> P s \<Longrightarrow> body n s = (None, s)" and "P s"
  shows "first_success body ns s = (None, s)"
  using assms by (induction ns arbitrary: s) auto

text \<open>A property kept by failing attempts and established by a succeeding one.\<close>

lemma first_success_induct:
  assumes "first_success body ns s = (r, t)"
    and "P s"
    and fail: "\<And>n u u'. n \<in> set ns \<Longrightarrow> P u \<Longrightarrow> body n u = (None, u') \<Longrightarrow> P u'"
    and succ: "\<And>n u u' x. n \<in> set ns \<Longrightarrow> P u \<Longrightarrow> body n u = (Some x, u') \<Longrightarrow> Q x u'"
  shows "case r of None \<Rightarrow> P t | Some x \<Rightarrow> Q x t"
  using assms
proof (induction ns arbitrary: s)
  case Nil
  then show ?case by auto
next
  case (Cons n ns)
  obtain r' u where b: "body n s = (r', u)" by fastforce
  show ?case
  proof (cases r')
    case None
    with Cons.prems b have "first_success body ns u = (r, t)" by simp
    moreover from None Cons.prems b have "P u" by auto
    ultimately show ?thesis
      by (rule Cons.IH) (meson Cons.prems list.set_intros)+
  next
    case (Some x)
    with Cons.prems(1) b have "r = Some x" and "t = u" by auto
    moreover from Some b Cons.prems(2) have "Q x u"
      by (intro Cons.prems(4) [of n s]) auto
    ultimately show ?thesis by simp
  qed
qed

text \<open>An attempt that depends on the state only through whether it succeeds is a search.\<close>

lemma first_success_find:
  assumes "\<And>n. n \<in> set ns \<Longrightarrow> body n s = (if P n then (Some (r n), t n) else (None, s))"
  shows "first_success body ns s =
    (case find P ns of None \<Rightarrow> (None, s) | Some n \<Rightarrow> (Some (r n), t n))"
  using assms by (induction ns) auto

end
