(* ===== verification/Contract.thy ===== *)
theory Contract
  imports Prelude
begin

section \<open>Pre- and postcondition checks (\<open>contract.hpp\<close>)\<close>

text \<open>
  The checks of namespace \<open>jar::contract\<close>. Each is a function into \<open>unit result\<close>: \<open>Inl\<close> is the
  exception it throws. The value of \<open>errno\<close>, which the C++ reads as a global, is an argument.
  The template parameter \<open>E\<close> (the error value of the system call, by default -1) is an
  argument too.
\<close>

definition no_system_error :: "'r \<Rightarrow> int \<Rightarrow> 'r \<Rightarrow> unit result" where
  "no_system_error E errno return_value =
     (if return_value = E then Inl (SystemError errno) else Inr ())"

text \<open>The fold expression \<open>((errno != ignored) && ...)\<close> is \<open>foldr\<close> over the ignored values.\<close>

definition no_system_error_other_than :: "'r \<Rightarrow> int \<Rightarrow> 'r \<Rightarrow> int list \<Rightarrow> unit result" where
  "no_system_error_other_than E errno return_value ignored =
     (let errno_is_not_any_of = foldr (\<lambda>i acc. errno \<noteq> i \<and> acc) ignored True
      in if return_value = E \<and> errno_is_not_any_of then Inl (SystemError errno) else Inr ())"

definition is_system_error :: "'r \<Rightarrow> 'r \<Rightarrow> bool" where
  "is_system_error E return_value \<longleftrightarrow> return_value = E"

text \<open>A nullable value is an \<open>option\<close>, \<open>None\<close> for \<open>nullptr\<close>.\<close>

definition not_null :: "'p option \<Rightarrow> string \<Rightarrow> unit result" where
  "not_null nullable message = (if nullable = None then Inl (InvalidArgument message) else Inr ())"

definition not_zero :: "'a::zero \<Rightarrow> string \<Rightarrow> unit result" where
  "not_zero value message = (if value = 0 then Inl (InvalidArgument message) else Inr ())"

definition not_greater :: "'a::linorder \<Rightarrow> 'a \<Rightarrow> string \<Rightarrow> unit result" where
  "not_greater value max_value message = (if value > max_value then Inl (InvalidArgument message) else Inr ())"

definition not_less :: "'a::linorder \<Rightarrow> 'a \<Rightarrow> string \<Rightarrow> unit result" where
  "not_less value min_value message = (if value < min_value then Inl (InvalidArgument message) else Inr ())"

definition not_equal :: "'a \<Rightarrow> 'a \<Rightarrow> string \<Rightarrow> unit result" where
  "not_equal actual unexpected message =
     (if actual = unexpected then Inl (DomainError message) else Inr ())"

lemmas contract_defs =
  no_system_error_def is_system_error_def not_null_def not_zero_def
  not_greater_def not_less_def not_equal_def

lemma errno_fold: "foldr (\<lambda>i acc. errno \<noteq> i \<and> acc) ignored True \<longleftrightarrow> errno \<notin> set ignored"
  by (induction ignored) auto

lemma no_system_error_other_than_eq:
  "no_system_error_other_than E errno r ignored =
     (if r = E \<and> errno \<notin> set ignored then Inl (SystemError errno) else Inr ())"
  by (simp add: no_system_error_other_than_def errno_fold)

end
