(* ===== verification/Queue.thy ===== *)
theory Queue
  imports Prelude "HOL-Library.Sublist" "HOL-Library.Multiset"
begin

section \<open>The blocking queue (\<open>queue.hpp\<close>)\<close>

text \<open>
  \<open>jar::concurrency::queue<T>\<close>: a \<open>std::deque\<close> and a cancellation flag behind one mutex, with a
  condition variable for the consumers. The first part models each member function as what
  it does inside its critical section; \<open>pop\<close> may have to wait, so its result says so. The
  second part is an interleaving model: any number of threads call the member functions in any
  order, the mutex is acquired, held and released in separate steps, \<open>try_lock\<close> may fail, a
  waiting consumer may wake up spuriously, and \<open>notify_one\<close> picks any waiter. The third part
  is the interface the scheduler relies on, the locale \<open>work_queue\<close>.
\<close>

subsection \<open>State and critical sections\<close>

record 'a queue =
  m_is_cancelled :: bool
  m_container :: "'a list"

definition queue_new :: "'a queue" where
  "queue_new = \<lparr>m_is_cancelled = False, m_container = []\<rparr>"

text \<open>What one pass through a consuming operation's critical section does: it has to wait on
  the condition variable, it returns an optional item, or it calls \<open>front()\<close> on an empty
  deque, which is undefined behaviour.\<close>

datatype ('a, 'q) pop_result =
    Blocks
  | Returns "'a option" 'q
  | Undefined

fun pop_front :: "'a queue \<Rightarrow> ('a, 'a queue) pop_result" where
  "pop_front q = (case m_container q of
      [] \<Rightarrow> Undefined
    | x # xs \<Rightarrow> Returns (Some x) (q\<lparr>m_container := xs\<rparr>))"

definition pop_wait_pred :: "'a queue \<Rightarrow> bool" where
  "pop_wait_pred q \<longleftrightarrow> m_container q \<noteq> [] \<or> m_is_cancelled q"

definition pop :: "'a queue \<Rightarrow> ('a, 'a queue) pop_result" where
  "pop q =
     (if (m_container q = [] \<or> \<not> m_is_cancelled q) \<and> \<not> pop_wait_pred q then Blocks
      else if m_is_cancelled q then Returns None q
      else pop_front q)"

text \<open>The flag of \<open>try_pop\<close> and \<open>try_push\<close> says whether \<open>std::try_to_lock\<close> got the mutex.\<close>

definition try_pop :: "bool \<Rightarrow> 'a queue \<Rightarrow> ('a, 'a queue) pop_result" where
  "try_pop locked q =
     (if m_container q = [] \<or> \<not> locked then Returns None q else pop_front q)"

definition push :: "'a \<Rightarrow> 'a queue \<Rightarrow> 'a queue" where
  "push item q = q\<lparr>m_container := m_container q @ [item]\<rparr>"

definition try_push :: "bool \<Rightarrow> 'a \<Rightarrow> 'a queue \<Rightarrow> bool \<times> 'a queue" where
  "try_push locked item q =
     (if \<not> locked then (False, q)
      else (True, q\<lparr>m_container := m_container q @ [item]\<rparr>))"

definition clear :: "'a queue \<Rightarrow> 'a queue" where
  "clear q = q\<lparr>m_is_cancelled := True, m_container := []\<rparr>"

subsection \<open>Interleaving model: threads, mutex and condition variable\<close>

text \<open>Where a thread is inside a member function.\<close>

datatype 'a queue_pc =
    Idle                 \<comment> \<open>outside the queue\<close>
  | PopLock              \<comment> \<open>\<open>pop\<close>: acquiring \<open>m_mutex\<close>, on entry or when waking up\<close>
  | PopCheck             \<comment> \<open>\<open>pop\<close>: holding the mutex, about to test the predicate\<close>
  | PopBlocked           \<comment> \<open>\<open>pop\<close>: inside \<open>m_condition.wait\<close>, the mutex released\<close>
  | TryPopLock
  | TryPopCheck bool     \<comment> \<open>\<open>try_pop\<close>: after \<open>try_to_lock\<close>; whether it holds the mutex\<close>
  | PushLock 'a
  | PushBody 'a
  | TryPushLock 'a
  | TryPushBody 'a
  | NotifyOne            \<comment> \<open>\<open>push\<close>, \<open>try_push\<close>: mutex released, before \<open>notify_one\<close>\<close>
  | ClearLock
  | ClearBody
  | NotifyAll            \<comment> \<open>\<open>clear\<close>: mutex released, before \<open>notify_all\<close>\<close>

datatype 'a queue_call = CallPop | CallTryPop | CallPush 'a | CallTryPush 'a | CallClear

fun call_pc :: "'a queue_call \<Rightarrow> 'a queue_pc" where
  "call_pc CallPop = PopLock"
| "call_pc CallTryPop = TryPopLock"
| "call_pc (CallPush x) = PushLock x"
| "call_pc (CallTryPush x) = TryPushLock x"
| "call_pc CallClear = ClearLock"

text \<open>
  The shared state, the mutex owner and the threads; and the history: the items in the order
  they were put in (\<open>pushed\<close>), in the order they left the container (\<open>removed\<close>, by a consumer
  or by \<open>clear\<close>) and in the order consumers received them (\<open>popped\<close>). \<open>undefined_behaviour\<close>
  records a call of \<open>front()\<close> on an empty deque.
\<close>

record 'a queue_sys =
  shared :: "'a queue"
  owner :: "nat option"
  pcs :: "'a queue_pc list"
  pushed :: "'a list"
  removed :: "'a list"
  popped :: "'a list"
  undefined_behaviour :: bool

text \<open>
  Actions: thread \<open>i\<close> calls a member function, takes its next step, fails its \<open>try_lock\<close>,
  delivers its \<open>notify_one\<close> to thread \<open>w\<close>, or wakes up spuriously.
\<close>

datatype 'a queue_act =
    Call nat "'a queue_call"
  | Go nat
  | FailLock nat
  | Signal nat nat
  | Spurious nat

definition queue_sys_new :: "nat \<Rightarrow> 'a queue_sys" where
  "queue_sys_new n =
     \<lparr>shared = queue_new, owner = None, pcs = replicate n Idle,
      pushed = [], removed = [], popped = [], undefined_behaviour = False\<rparr>"

abbreviation set_pc :: "nat \<Rightarrow> 'a queue_pc \<Rightarrow> 'a queue_sys \<Rightarrow> 'a queue_sys" where
  "set_pc i p s \<equiv> s\<lparr>pcs := (pcs s)[i := p]\<rparr>"

definition acquire :: "nat \<Rightarrow> 'a queue_pc \<Rightarrow> 'a queue_sys \<Rightarrow> 'a queue_sys option" where
  "acquire i p s =
     (if owner s = None then Some (set_pc i p (s\<lparr>owner := Some i\<rparr>)) else None)"

text \<open>A consumer leaves its critical section with an optional item.\<close>

definition leave_pop :: "nat \<Rightarrow> 'a option \<Rightarrow> 'a queue \<Rightarrow> 'a queue_sys \<Rightarrow> 'a queue_sys" where
  "leave_pop i r q' s =
     (let got = (case r of None \<Rightarrow> [] | Some x \<Rightarrow> [x])
      in set_pc i Idle (s\<lparr>shared := q', removed := removed s @ got, popped := popped s @ got\<rparr>))"

definition wake :: "'a queue_pc \<Rightarrow> 'a queue_pc" where
  "wake p = (case p of PopBlocked \<Rightarrow> PopLock | _ \<Rightarrow> p)"

fun go :: "nat \<Rightarrow> 'a queue_pc \<Rightarrow> 'a queue_sys \<Rightarrow> 'a queue_sys option" where
  "go i Idle s = None"
| "go i PopLock s = acquire i PopCheck s"
| "go i PopCheck s =
     (case pop (shared s) of
        Blocks \<Rightarrow> Some (set_pc i PopBlocked (s\<lparr>owner := None\<rparr>))
      | Returns r q' \<Rightarrow> Some (leave_pop i r q' (s\<lparr>owner := None\<rparr>))
      | Undefined \<Rightarrow> Some (s\<lparr>undefined_behaviour := True\<rparr>))"
| "go i PopBlocked s = None"
| "go i TryPopLock s = acquire i (TryPopCheck True) s"
| "go i (TryPopCheck locked) s =
     (case try_pop locked (shared s) of
        Blocks \<Rightarrow> None
      | Returns r q' \<Rightarrow>
          Some (leave_pop i r q' (if locked then s\<lparr>owner := None\<rparr> else s))
      | Undefined \<Rightarrow> Some (s\<lparr>undefined_behaviour := True\<rparr>))"
| "go i (PushLock x) s = acquire i (PushBody x) s"
| "go i (PushBody x) s =
     Some (set_pc i NotifyOne (s\<lparr>shared := push x (shared s), owner := None, pushed := pushed s @ [x]\<rparr>))"
| "go i (TryPushLock x) s = acquire i (TryPushBody x) s"
| "go i (TryPushBody x) s =
     Some (set_pc i NotifyOne
       (s\<lparr>shared := snd (try_push True x (shared s)), owner := None, pushed := pushed s @ [x]\<rparr>))"
| "go i NotifyOne s =
     (if PopBlocked \<in> set (pcs s) then None else Some (set_pc i Idle s))"
| "go i ClearLock s = acquire i ClearBody s"
| "go i ClearBody s =
     Some (set_pc i NotifyAll
       (s\<lparr>shared := clear (shared s), owner := None, removed := removed s @ m_container (shared s)\<rparr>))"
| "go i NotifyAll s = Some (set_pc i Idle (s\<lparr>pcs := map wake (pcs s)\<rparr>))"

fun queue_step :: "'a queue_act \<Rightarrow> 'a queue_sys \<Rightarrow> 'a queue_sys option" where
  "queue_step (Call i c) s =
     (if i < length (pcs s) \<and> pcs s ! i = Idle then Some (set_pc i (call_pc c) s) else None)"
| "queue_step (Go i) s = (if i < length (pcs s) then go i (pcs s ! i) s else None)"
| "queue_step (FailLock i) s =
     (if i < length (pcs s) then
        (case pcs s ! i of
           TryPopLock \<Rightarrow> Some (set_pc i (TryPopCheck False) s)
         | TryPushLock x \<Rightarrow> Some (set_pc i Idle s)
         | _ \<Rightarrow> None)
      else None)"
| "queue_step (Signal i w) s =
     (if i < length (pcs s) \<and> w < length (pcs s) \<and> pcs s ! i = NotifyOne \<and> pcs s ! w = PopBlocked
      then Some (s\<lparr>pcs := (pcs s)[w := PopLock, i := Idle]\<rparr>) else None)"
| "queue_step (Spurious i) s =
     (if i < length (pcs s) \<and> pcs s ! i = PopBlocked then Some (set_pc i PopLock s) else None)"

text \<open>Program counters at which the thread holds \<open>m_mutex\<close>.\<close>

fun holds_mutex :: "'a queue_pc \<Rightarrow> bool" where
  "holds_mutex PopCheck = True"
| "holds_mutex (TryPopCheck locked) = locked"
| "holds_mutex (PushBody x) = True"
| "holds_mutex (TryPushBody x) = True"
| "holds_mutex ClearBody = True"
| "holds_mutex _ = False"

text \<open>Threads that bring a consumer to an item: a pending \<open>notify_one\<close>, or a consumer that is
  about to look.\<close>

definition on_the_way :: "'a queue_pc \<Rightarrow> bool" where
  "on_the_way p \<longleftrightarrow> p = NotifyOne \<or> p = PopLock \<or> p = PopCheck"

definition mutex_inv :: "'a queue_sys \<Rightarrow> bool" where
  "mutex_inv s \<longleftrightarrow> owner_ok holds_mutex (owner s) (pcs s)"

definition history_inv :: "'a queue_sys \<Rightarrow> bool" where
  "history_inv s \<longleftrightarrow>
     \<not> undefined_behaviour s
     \<and> pushed s = removed s @ m_container (shared s)
     \<and> subseq (popped s) (removed s)
     \<and> (m_is_cancelled (shared s) \<or> popped s = removed s)"

text \<open>While a consumer is blocked: after a cancellation a \<open>notify_all\<close> is still to come, and
  before it there are at least as many threads on the way as there are items.\<close>

definition wakeup_ok :: "bool \<Rightarrow> nat \<Rightarrow> 'a queue_pc list \<Rightarrow> bool" where
  "wakeup_ok cancelled n ps \<longleftrightarrow>
     (PopBlocked \<in> set ps \<longrightarrow>
       (if cancelled then NotifyAll \<in> set ps else n \<le> count_if on_the_way ps))"

definition wakeup_inv :: "'a queue_sys \<Rightarrow> bool" where
  "wakeup_inv s \<longleftrightarrow>
     wakeup_ok (m_is_cancelled (shared s)) (length (m_container (shared s))) (pcs s)"

definition queue_inv :: "'a queue_sys \<Rightarrow> bool" where
  "queue_inv s \<longleftrightarrow> mutex_inv s \<and> history_inv s \<and> wakeup_inv s"

text \<open>No thread inside the queue can move by itself.\<close>

definition quiescent :: "'a queue_sys \<Rightarrow> bool" where
  "quiescent s \<longleftrightarrow> (\<forall>i w. \<not> enabled queue_step (Go i) s \<and> \<not> enabled queue_step (Signal i w) s)"

text \<open>Two threads at the container at once, one of them about to write it: a data race.\<close>

definition writes_container :: "'a queue_pc \<Rightarrow> bool" where
  "writes_container p \<longleftrightarrow> (\<exists>x. p = PushBody x \<or> p = TryPushBody x) \<or> p = ClearBody"

definition container_race :: "'a queue_sys \<Rightarrow> bool" where
  "container_race s \<longleftrightarrow>
     (\<exists>i < length (pcs s). \<exists>j < length (pcs s). i \<noteq> j \<and>
        (\<exists>b. pcs s ! i = TryPopCheck b) \<and> writes_container (pcs s ! j))"

subsection \<open>The critical sections\<close>

lemma pop_eq [step_simps]:
  "pop q =
     (if m_is_cancelled q then Returns None q
      else (case m_container q of [] \<Rightarrow> Blocks | x # xs \<Rightarrow> Returns (Some x) (q\<lparr>m_container := xs\<rparr>)))"
  by (auto simp: pop_def pop_wait_pred_def split: list.splits)

lemma try_pop_eq [step_simps]:
  "try_pop locked q =
     (if locked then
        (case m_container q of
           [] \<Rightarrow> Returns None q
         | x # xs \<Rightarrow> Returns (Some x) (q\<lparr>m_container := xs\<rparr>))
      else Returns None q)"
  by (auto simp: try_pop_def split: list.splits)

lemma pop_never_undefined: "pop q \<noteq> Undefined"
  by (auto simp: pop_eq split: list.splits)

lemma try_pop_returns: "\<exists>r q'. try_pop locked q = Returns r q'"
  by (auto simp: try_pop_eq split: list.splits)

lemma pop_blocks_iff: "pop q = Blocks \<longleftrightarrow> \<not> pop_wait_pred q"
  by (auto simp: pop_eq pop_wait_pred_def split: list.splits)

lemmas queue_defs = queue_new_def push_def try_push_def clear_def

subsection \<open>Mutual exclusion\<close>

lemma holds_mutex_wake [simp]: "holds_mutex (wake p) = holds_mutex p"
  by (cases p) (simp_all add: wake_def)

lemma leave_pop_sel [simp]:
  "pcs (leave_pop i r q' s) = (pcs s)[i := Idle]"
  "owner (leave_pop i r q' s) = owner s"
  "shared (leave_pop i r q' s) = q'"
  "pushed (leave_pop i r q' s) = pushed s"
  "removed (leave_pop i r q' s) = removed s @ (case r of None \<Rightarrow> [] | Some x \<Rightarrow> [x])"
  "popped (leave_pop i r q' s) = popped s @ (case r of None \<Rightarrow> [] | Some x \<Rightarrow> [x])"
  "undefined_behaviour (leave_pop i r q' s) = undefined_behaviour s"
  by (simp_all add: leave_pop_def Let_def)

lemma acquire_eq_Some:
  "acquire i p s = Some s' \<longleftrightarrow> owner s = None \<and> s' = set_pc i p (s\<lparr>owner := Some i\<rparr>)"
  by (auto simp: acquire_def)

lemma mutex_inv_go:
  assumes inv: "mutex_inv s" and i: "i < length (pcs s)" and "go i (pcs s ! i) s = Some s'"
  shows "mutex_inv s'"
proof -
  note upd = owner_ok_update [OF inv [unfolded mutex_inv_def] i]
  note updw = owner_ok_update [where ps = "map wake (pcs s)" and i = i and p = Idle]
  show ?thesis
    using assms
    by (cases "pcs s ! i")
       (auto simp: mutex_inv_def acquire_eq_Some owner_ok_map
          intro!: upd updw split: pop_result.splits if_splits)
qed

lemma mutex_inv_step:
  assumes "mutex_inv s" and "queue_step a s = Some s'"
  shows "mutex_inv s'"
proof (cases a)
  case (Call i c)
  then show ?thesis using assms
    by (cases c) (auto simp: mutex_inv_def intro!: owner_ok_update split: if_splits)
next
  case (Go i)
  then show ?thesis using assms mutex_inv_go by (auto split: if_splits)
next
  case (Signal i w)
  then show ?thesis using assms
    by (auto simp: mutex_inv_def nth_list_update intro!: owner_ok_update split: if_splits)
qed (use assms in \<open>auto simp: mutex_inv_def intro!: owner_ok_update
       split: if_splits queue_pc.splits\<close>)

subsection \<open>History\<close>

lemma history_inv_pcs [simp]: "history_inv (s\<lparr>pcs := ps\<rparr>) = history_inv s"
  by (simp add: history_inv_def)

lemma history_inv_owner [simp]: "history_inv (s\<lparr>owner := w\<rparr>) = history_inv s"
  by (simp add: history_inv_def)

lemma subseq_snoc: "subseq xs ys \<Longrightarrow> subseq (xs @ [x]) (ys @ [x])"
  by (simp add: list_emb_append_mono)

lemma history_inv_take:
  assumes "history_inv s" and "m_container (shared s) = x # xs"
  shows "history_inv (leave_pop i (Some x) ((shared s)\<lparr>m_container := xs\<rparr>) s)"
  using assms by (auto simp: history_inv_def subseq_snoc)

lemma history_inv_leave: "history_inv s \<Longrightarrow> history_inv (leave_pop i None (shared s) s)"
  by (simp add: history_inv_def)

lemma history_inv_push:
  "history_inv s \<Longrightarrow> history_inv (s\<lparr>shared := push x (shared s), owner := w, pushed := pushed s @ [x]\<rparr>)"
  by (auto simp: history_inv_def push_def)

lemma history_inv_clear:
  "history_inv s \<Longrightarrow>
     history_inv (s\<lparr>shared := clear (shared s), owner := w, removed := removed s @ m_container (shared s)\<rparr>)"
  by (auto simp: history_inv_def clear_def)

lemma try_push_locked [simp]: "try_push True x q = (True, push x q)"
  by (simp add: try_push_def push_def)

lemma history_inv_go:
  assumes "history_inv s" and "go i (pcs s ! i) s = Some s'"
  shows "history_inv s'"
proof -
  have rel: "history_inv (s\<lparr>owner := w\<rparr>)" for w using assms(1) by simp
  show ?thesis
    using assms
    by (cases "pcs s ! i")
       (auto simp: acquire_eq_Some step_simps history_inv_push history_inv_clear
          intro: history_inv_leave [OF rel, simplified] history_inv_take [OF rel, simplified]
            history_inv_leave history_inv_take
          split: if_splits list.splits)
qed

lemma history_inv_step: "history_inv s \<Longrightarrow> queue_step a s = Some s' \<Longrightarrow> history_inv s'"
  by (cases a) (auto intro: history_inv_go split: if_splits queue_pc.splits)

subsection \<open>No lost wake-up\<close>

lemma in_set_update:
  "x \<in> set ps \<Longrightarrow> x \<noteq> ps ! i \<Longrightarrow> x \<in> set (ps[i := p])"
  by (metis in_set_conv_nth length_list_update nth_list_update_neq)

lemma in_set_updateD: "x \<in> set (ps[i := p]) \<Longrightarrow> x \<noteq> p \<Longrightarrow> x \<in> set ps"
  using set_update_subset_insert [of ps i p] by auto

lemma wakeup_ok_update:
  assumes ok: "wakeup_ok c n ps" and i: "i < length ps"
    and "p \<noteq> PopBlocked" and "ps ! i \<noteq> NotifyAll" and c': "c' = c"
    and cnt: "\<not> c \<Longrightarrow> n' + (if on_the_way (ps ! i) then 1 else 0) \<le> n + (if on_the_way p then 1 else 0)"
  shows "wakeup_ok c' n' (ps[i := p])"
  unfolding wakeup_ok_def c'
proof
  assume "PopBlocked \<in> set (ps[i := p])"
  then have b: "PopBlocked \<in> set ps"
    using \<open>p \<noteq> PopBlocked\<close> by (metis in_set_updateD)
  show "if c then NotifyAll \<in> set (ps[i := p]) else n' \<le> count_if on_the_way (ps[i := p])"
  proof (cases c)
    case True
    with ok b \<open>ps ! i \<noteq> NotifyAll\<close> show ?thesis
      by (auto simp: wakeup_ok_def intro: in_set_update)
  next
    case False
    with ok b have "n \<le> count_if on_the_way ps" by (simp add: wakeup_ok_def)
    with cnt [OF False] count_if_update [OF i, of on_the_way p] False show ?thesis by simp
  qed
qed

lemma wakeup_ok_block:
  "wakeup_ok False 0 (ps[i := PopBlocked])"
  by (simp add: wakeup_ok_def)

lemma wakeup_ok_cancel: "i < length ps \<Longrightarrow> wakeup_ok True n (ps[i := NotifyAll])"
  by (simp add: wakeup_ok_def set_update_memI)

lemma wakeup_ok_unblocked: "PopBlocked \<notin> set ps \<Longrightarrow> wakeup_ok c n (ps[i := Idle])"
  by (auto simp: wakeup_ok_def dest: in_set_updateD)

lemma wake_not_blocked [simp]: "PopBlocked \<notin> set (map wake ps)"
  by (auto simp: wake_def split: queue_pc.splits)

lemma on_the_way_simps [simp]:
  "\<not> on_the_way Idle" "on_the_way PopLock" "on_the_way PopCheck" "\<not> on_the_way PopBlocked"
  "\<not> on_the_way TryPopLock" "\<not> on_the_way (TryPopCheck b)" "\<not> on_the_way (PushLock x)"
  "\<not> on_the_way (PushBody x)" "\<not> on_the_way (TryPushLock x)" "\<not> on_the_way (TryPushBody x)"
  "on_the_way NotifyOne" "\<not> on_the_way ClearLock" "\<not> on_the_way ClearBody"
  "\<not> on_the_way NotifyAll"
  by (simp_all add: on_the_way_def)

lemma wakeup_inv_go:
  assumes inv: "wakeup_inv s" and i: "i < length (pcs s)" and "go i (pcs s ! i) s = Some s'"
  shows "wakeup_inv s'"
proof -
  note upd = wakeup_ok_update [OF inv [unfolded wakeup_inv_def] i]
  show ?thesis
  proof (cases "pcs s ! i")
    case NotifyOne
    with assms(3) show ?thesis
      by (auto simp: wakeup_inv_def intro!: wakeup_ok_unblocked split: if_splits)
  next
    case NotifyAll
    with assms(3) show ?thesis
      using wakeup_ok_unblocked [OF wake_not_blocked] by (auto simp: wakeup_inv_def)
  qed (use assms(2,3) in \<open>auto simp: wakeup_inv_def acquire_eq_Some step_simps push_def clear_def
         intro!: upd wakeup_ok_block wakeup_ok_cancel split: if_splits list.splits\<close>)
qed

lemma wakeup_inv_signal:
  assumes "wakeup_ok c n ps" and "i < length ps" and "w < length ps"
    and "ps ! i = NotifyOne" and "ps ! w = PopBlocked"
  shows "wakeup_ok c n (ps[w := PopLock, i := Idle])"
proof -
  from assms have ne: "i \<noteq> w" by auto
  have woken: "wakeup_ok c (n + 1) (ps[w := PopLock])"
    using assms by (intro wakeup_ok_update [of c n]) auto
  show ?thesis
    by (rule wakeup_ok_update [OF woken]) (use assms ne in auto)
qed

lemma wakeup_inv_step:
  assumes "wakeup_inv s" and "queue_step a s = Some s'"
  shows "wakeup_inv s'"
proof (cases a)
  case (Call i c)
  then show ?thesis using assms
    by (cases c) (auto simp: wakeup_inv_def intro!: wakeup_ok_update split: if_splits)
next
  case (Go i)
  then show ?thesis using assms wakeup_inv_go by (auto split: if_splits)
next
  case (Signal i w)
  then show ?thesis using assms
    by (auto simp: wakeup_inv_def intro!: wakeup_inv_signal split: if_splits)
qed (use assms in \<open>auto simp: wakeup_inv_def intro!: wakeup_ok_update
       split: if_splits queue_pc.splits\<close>)

subsection \<open>The invariant of the interleaving model\<close>

lemma queue_inv_new: "queue_inv (queue_sys_new n)"
  by (auto simp: queue_inv_def queue_sys_new_def mutex_inv_def owner_ok_def history_inv_def
      wakeup_inv_def wakeup_ok_def queue_new_def)

lemma queue_inv_step: "queue_inv s \<Longrightarrow> queue_step a s = Some s' \<Longrightarrow> queue_inv s'"
  unfolding queue_inv_def using mutex_inv_step history_inv_step wakeup_inv_step by blast

interpretation queue_threads: invariant_system queue_step "\<lambda>s. \<exists>n. s = queue_sys_new n" queue_inv
  by unfold_locales (use queue_inv_new queue_inv_step in blast)+

lemma queue_reachable_inv: "reachable queue_step (queue_sys_new n) s \<Longrightarrow> queue_inv s"
  by (rule queue_threads.inv_reachable) blast+

text \<open>What it means that nobody can move: the mutex is free and every thread is outside the
  queue or blocked in \<open>pop\<close>.\<close>

lemma go_None_iff:
  "go i p s = None \<longleftrightarrow>
     p = Idle \<or> p = PopBlocked \<or> p = NotifyOne \<and> PopBlocked \<in> set (pcs s) \<or>
     owner s \<noteq> None \<and> (p = PopLock \<or> p = TryPopLock \<or> p = ClearLock \<or> (\<exists>x. p = PushLock x \<or> p = TryPushLock x))"
  by (cases p) (auto simp: acquire_def step_simps split: list.splits)

lemma quiescentD:
  assumes "quiescent s"
  shows "i < length (pcs s) \<Longrightarrow> go i (pcs s ! i) s = None" and "queue_step (Signal i w) s = None"
proof -
  have "queue_step (Go i) s = None" and sig: "queue_step (Signal i w) s = None"
    using assms unfolding quiescent_def enabled_def by blast+
  then show "i < length (pcs s) \<Longrightarrow> go i (pcs s ! i) s = None" by simp
  from sig show "queue_step (Signal i w) s = None" .
qed

lemma quiescent_free:
  assumes "queue_inv s" and "quiescent s"
  shows "owner s = None"
proof (rule ccontr)
  assume "owner s \<noteq> None"
  then obtain i where "owner s = Some i" by blast
  with assms(1) have i: "i < length (pcs s)" and "holds_mutex (pcs s ! i)"
    by (auto simp: queue_inv_def mutex_inv_def owner_ok_def)
  moreover from assms(2) i have "go i (pcs s ! i) s = None" by (rule quiescentD)
  ultimately show False by (auto simp: go_None_iff)
qed

lemma quiescent_pcs:
  assumes "queue_inv s" and "quiescent s" and i: "i < length (pcs s)"
  shows "pcs s ! i = Idle \<or> pcs s ! i = PopBlocked"
proof -
  from assms(2) i have "go i (pcs s ! i) s = None" by (rule quiescentD)
  moreover have "\<not> (pcs s ! i = NotifyOne \<and> PopBlocked \<in> set (pcs s))"
  proof
    assume "pcs s ! i = NotifyOne \<and> PopBlocked \<in> set (pcs s)"
    then obtain w where "w < length (pcs s)" "pcs s ! w = PopBlocked" "pcs s ! i = NotifyOne"
      by (auto simp: in_set_conv_nth)
    with quiescentD(2) [OF assms(2), of i w] i show False by simp
  qed
  ultimately show ?thesis
    using quiescent_free [OF assms(1,2)] by (auto simp: go_None_iff)
qed

lemma quiescent_set:
  "queue_inv s \<Longrightarrow> quiescent s \<Longrightarrow> \<forall>p \<in> set (pcs s). p = Idle \<or> p = PopBlocked"
  using quiescent_pcs by (metis in_set_conv_nth)

lemma quiescentI:
  assumes "\<forall>p \<in> set (pcs s). p = Idle \<or> p = PopBlocked"
  shows "quiescent s"
proof -
  have "pcs s ! i = Idle \<or> pcs s ! i = PopBlocked" if "i < length (pcs s)" for i
    using assms that nth_mem by blast
  then show ?thesis
    by (fastforce simp: quiescent_def enabled_def go_None_iff)
qed

subsection \<open>The interface of the scheduler's task queues\<close>

text \<open>
  What the scheduler relies on, with each queue read as the list of its items. The client
  lemmas are about a vector of queues, of which each operation changes one: what is \<open>pending\<close>
  is the multiset of the items of all the queues.
\<close>

locale work_queue =
  fixes items :: "'q \<Rightarrow> 'a list"
    and cancelled :: "'q \<Rightarrow> bool"
    and put :: "'a \<Rightarrow> 'q \<Rightarrow> 'q"
    and try_put :: "bool \<Rightarrow> 'a \<Rightarrow> 'q \<Rightarrow> bool \<times> 'q"
    and get :: "'q \<Rightarrow> ('a, 'q) pop_result"
    and try_get :: "bool \<Rightarrow> 'q \<Rightarrow> ('a, 'q) pop_result"
    and cancel_all :: "'q \<Rightarrow> 'q"
  assumes items_put: "items (put x q) = items q @ [x]"
    and cancelled_put: "cancelled (put x q) = cancelled q"
    and try_put_eq: "try_put b x q = (if b then (True, put x q) else (False, q))"
    and get_blocks: "get q = Blocks \<longleftrightarrow> items q = [] \<and> \<not> cancelled q"
    and get_none: "get q = Returns None q' \<longleftrightarrow> cancelled q \<and> q' = q"
    and get_some: "get q = Returns (Some x) q' \<Longrightarrow> items q = x # items q' \<and> cancelled q' = cancelled q"
    and get_defined: "get q \<noteq> Undefined"
    and try_get_none: "try_get b q = Returns None q' \<longleftrightarrow> (items q = [] \<or> \<not> b) \<and> q' = q"
    and try_get_some:
      "try_get b q = Returns (Some x) q' \<Longrightarrow> items q = x # items q' \<and> cancelled q' = cancelled q"
    and try_get_returns: "\<exists>r q'. try_get b q = Returns r q'"
    and cancel_all_items: "items (cancel_all q) = []"
    and cancel_all_cancelled: "cancelled (cancel_all q)"
begin

definition pending :: "'q list \<Rightarrow> 'a multiset" where
  "pending qs = mset (concat (map items qs))"

lemma pending_update:
  "i < length qs \<Longrightarrow> pending (qs[i := q]) + mset (items (qs ! i)) = pending qs + mset (items q)"
  unfolding pending_def by (rule mset_concat_update)

lemma pending_put: "i < length qs \<Longrightarrow> pending (qs[i := put x (qs ! i)]) = add_mset x (pending qs)"
  using pending_update [of i qs "put x (qs ! i)"] by (simp add: items_put)

lemma pending_removed:
  "i < length qs \<Longrightarrow> items (qs ! i) = x # items q' \<Longrightarrow> add_mset x (pending (qs[i := q'])) = pending qs"
  using pending_update [of i qs q'] by simp

lemma pending_try_get:
  "i < length qs \<Longrightarrow> try_get b (qs ! i) = Returns (Some x) q' \<Longrightarrow>
     add_mset x (pending (qs[i := q'])) = pending qs"
  by (rule pending_removed) (auto dest: try_get_some)

lemma pending_get:
  "i < length qs \<Longrightarrow> get (qs ! i) = Returns (Some x) q' \<Longrightarrow>
     add_mset x (pending (qs[i := q'])) = pending qs"
  by (rule pending_removed) (auto dest: get_some)

lemma pending_cancel:
  "i < length qs \<Longrightarrow> pending (qs[i := cancel_all (qs ! i)]) + mset (items (qs ! i)) = pending qs"
  using pending_update [of i qs "cancel_all (qs ! i)"] by (simp add: cancel_all_items)

lemma pending_empty_iff: "pending qs = {#} \<longleftrightarrow> (\<forall>i < length qs. items (qs ! i) = [])"
  by (fastforce simp: pending_def in_set_conv_nth)

end

lemma try_push_eq: "try_push b x q = (if b then (True, push x q) else (False, q))"
  by (simp add: try_push_def push_def)

interpretation task_queue: work_queue m_container m_is_cancelled push try_push pop try_pop clear
proof unfold_locales
  fix q q' :: "'a queue" and x b
  show "pop q = Returns (Some x) q' \<Longrightarrow>
      m_container q = x # m_container q' \<and> m_is_cancelled q' = m_is_cancelled q"
    by (auto simp: pop_eq split: if_splits list.splits)
  show "try_pop b q = Returns (Some x) q' \<Longrightarrow>
      m_container q = x # m_container q' \<and> m_is_cancelled q' = m_is_cancelled q"
    by (auto simp: try_pop_eq split: if_splits list.splits)
qed (auto simp: push_def try_push_eq clear_def step_simps pop_never_undefined split: list.splits)

subsection \<open>Properties\<close>

lemmas queue_eval =
  queue_sys_new_def queue_new_def acquire_def push_def step_simps leave_pop_def clear_def
  wake_def numeral_2_eq_2 Let_def

lemma go_cancelled: "m_is_cancelled (shared s) \<Longrightarrow> go i p s = Some s' \<Longrightarrow> m_is_cancelled (shared s')"
  by (cases p)
     (auto simp: acquire_eq_Some step_simps push_def clear_def split: if_splits list.splits)

lemma queue_step_cancelled:
  "m_is_cancelled (shared s) \<Longrightarrow> queue_step a s = Some s' \<Longrightarrow> m_is_cancelled (shared s')"
  by (cases a) (auto intro: go_cancelled split: if_splits queue_pc.splits)

text \<open>C3: under any interleaving of \<open>push\<close>, \<open>try_push\<close>, \<open>pop\<close>, \<open>try_pop\<close> and \<open>clear\<close> calls of
  any number of threads, items leave the queue in the order in which they entered it, nothing
  is duplicated or invented, what consumers received is a subsequence of what left, all of it
  as long as nobody called \<open>clear\<close>, and \<open>front()\<close> is never called on an empty container.\<close>

theorem queue_fifo:
  assumes "reachable queue_step (queue_sys_new n) s"
  shows "pushed s = removed s @ m_container (shared s)
    \<and> subseq (popped s) (removed s)
    \<and> (m_is_cancelled (shared s) \<or> popped s = removed s)
    \<and> \<not> undefined_behaviour s"
  using queue_reachable_inv [OF assms] by (auto simp: queue_inv_def history_inv_def)

theorem queue_fifo_witness:
  "let s = the (run queue_step
       [Call 0 (CallPush (7::nat)), Go 0, Go 0, Go 0, Call 0 (CallPush 8), Go 0, Go 0, Go 0,
        Call 1 CallPop, Go 1, Go 1] (queue_sys_new 2))
   in pushed s = [7, 8] \<and> popped s = [7] \<and> pushed s = removed s @ m_container (shared s)"
  (is "let s = the (run _ ?as _) in _")
proof -
  let ?s = "the (run queue_step ?as (queue_sys_new 2))"
  have eval: "run queue_step ?as (queue_sys_new 2) \<noteq> None" "pushed ?s = [7, 8]" "popped ?s = [7]"
    by (simp_all add: queue_eval)
  from queue_fifo [OF reachable_the_run [OF eval(1)]] eval(2,3) show ?thesis
    by (simp add: Let_def)
qed

text \<open>C5: no lost wake-up and no deadlock. If no thread inside the queue can take a step, then
  every thread is outside the queue or blocked in \<open>pop\<close>, and one is blocked there only when the
  container is empty and the queue has not been cancelled.\<close>

theorem queue_no_lost_wakeup:
  assumes "reachable queue_step (queue_sys_new n) s" and "quiescent s" and "i < length (pcs s)"
  shows "pcs s ! i = Idle \<or> (pcs s ! i = PopBlocked \<and> \<not> pop_wait_pred (shared s))"
proof -
  have inv: "queue_inv s" by (rule queue_reachable_inv [OF assms(1)])
  have "\<not> pop_wait_pred (shared s)" if "pcs s ! i = PopBlocked"
  proof -
    from that assms(3) have "PopBlocked \<in> set (pcs s)" by (auto simp: in_set_conv_nth)
    with inv have "if m_is_cancelled (shared s) then NotifyAll \<in> set (pcs s)
        else length (m_container (shared s)) \<le> count_if on_the_way (pcs s)"
      by (simp add: queue_inv_def wakeup_inv_def wakeup_ok_def)
    moreover from inv assms(2) have "\<forall>p \<in> set (pcs s). p = Idle \<or> p = PopBlocked"
      by (rule quiescent_set)
    then have "NotifyAll \<notin> set (pcs s)" and "count_if on_the_way (pcs s) = 0"
      by (auto simp: count_if_def filter_empty_conv on_the_way_def)
    ultimately show ?thesis by (auto simp: pop_wait_pred_def split: if_splits)
  qed
  with quiescent_pcs [OF inv assms(2,3)] show ?thesis by blast
qed

theorem queue_no_lost_wakeup_witness:
  "let s = the (run queue_step [Call (0::nat) CallPop, Go 0, Go 0] (queue_sys_new 1 :: nat queue_sys))
   in quiescent s \<and> pcs s ! 0 = PopBlocked \<and> \<not> pop_wait_pred (shared s)"
  (is "let s = the (run _ ?as _) in _")
proof -
  let ?s = "the (run queue_step ?as (queue_sys_new 1 :: nat queue_sys))"
  have eval: "run queue_step ?as (queue_sys_new 1 :: nat queue_sys) \<noteq> None" "pcs ?s = [PopBlocked]"
    by (simp_all add: queue_eval)
  have quiet: "quiescent ?s"
    by (rule quiescentI) (simp only: eval(2), simp)
  from queue_no_lost_wakeup [OF reachable_the_run [OF eval(1)] quiet, of 0] eval(2) quiet
  show ?thesis by (simp add: Let_def)
qed

text \<open>C6: mutual exclusion. Two different threads are never inside a critical section of the
  queue at the same time, and the mutex is held exactly while one is.\<close>

theorem queue_mutual_exclusion:
  assumes "reachable queue_step (queue_sys_new n) s"
    and "i < length (pcs s)" and "holds_mutex (pcs s ! i)"
  shows "owner s = Some i \<and> (\<forall>j < length (pcs s). holds_mutex (pcs s ! j) \<longrightarrow> j = i)"
proof -
  have "owner_ok holds_mutex (owner s) (pcs s)"
    using queue_reachable_inv [OF assms(1)] by (simp add: queue_inv_def mutex_inv_def)
  with assms(2,3) show ?thesis using owner_okD by (metis option.inject)
qed

theorem queue_mutual_exclusion_witness:
  "let s = the (run queue_step [Call 0 (CallPush (5::nat)), Call 1 CallPop, Go 1] (queue_sys_new 2))
   in holds_mutex (pcs s ! 1) \<and> owner s = Some 1 \<and> \<not> holds_mutex (pcs s ! 0)"
  (is "let s = the (run _ ?as _) in _")
proof -
  let ?s = "the (run queue_step ?as (queue_sys_new 2))"
  have eval: "run queue_step ?as (queue_sys_new 2) \<noteq> None" "pcs ?s = [PushLock 5, PopCheck]"
    by (simp_all add: queue_eval)
  from queue_mutual_exclusion [OF reachable_the_run [OF eval(1)], of 1] eval(2) show ?thesis
    by (simp add: Let_def)
qed

text \<open>Cancellation is permanent and releases every consumer. After a \<open>clear\<close>, whatever the
  threads do, \<open>pop\<close> does not block and returns no item, and when the threads have come to
  rest nobody is left inside the queue.\<close>

theorem queue_clear_releases:
  assumes "reachable queue_step (queue_sys_new n) s" and "m_is_cancelled (shared s)"
    and "reachable queue_step s t"
  shows "pop (shared t) = Returns None (shared t) \<and> (quiescent t \<longrightarrow> set (pcs t) \<subseteq> {Idle})"
proof -
  have cancelled: "m_is_cancelled (shared t)"
    using assms(3,2) by (rule reachable_preserves) (erule (1) queue_step_cancelled)
  have inv: "queue_inv t"
    by (rule queue_reachable_inv) (rule reachable_trans [OF assms(3,1)])
  have "set (pcs t) \<subseteq> {Idle}" if q: "quiescent t"
  proof -
    from inv q have all: "\<forall>p \<in> set (pcs t). p = Idle \<or> p = PopBlocked"
      by (rule quiescent_set)
    then have "NotifyAll \<notin> set (pcs t)" by auto
    with inv cancelled have "PopBlocked \<notin> set (pcs t)"
      by (auto simp: queue_inv_def wakeup_inv_def wakeup_ok_def)
    with all show ?thesis by auto
  qed
  with cancelled show ?thesis by (simp add: pop_eq)
qed

theorem queue_clear_releases_witness:
  "let s = the (run queue_step [Call 0 CallPop, Go 0, Go 0, Call 1 CallClear, Go 1, Go 1] (queue_sys_new 2));
       t = the (run queue_step [Go 1, Go 0, Go 0] (s :: nat queue_sys))
   in quiescent t \<and> set (pcs t) \<subseteq> {Idle}"
  (is "let s = the (run _ ?as _); t = the (run _ ?bs _) in _")
proof -
  let ?s = "the (run queue_step ?as (queue_sys_new 2)) :: nat queue_sys"
  let ?t = "the (run queue_step ?bs ?s)"
  have eval: "run queue_step ?as (queue_sys_new 2 :: nat queue_sys) \<noteq> None" "m_is_cancelled (shared ?s)"
    "run queue_step ?bs ?s \<noteq> None" "pcs ?t = [Idle, Idle]"
    by (simp_all add: queue_eval)
  have quiet: "quiescent ?t"
    by (rule quiescentI) (simp only: eval(4), simp)
  from queue_clear_releases [OF reachable_the_run [OF eval(1)] eval(2) reachable_the_run [OF eval(3)]]
    quiet eval(4)
  show ?thesis by (simp add: Let_def)
qed

text \<open>\<open>try_pop\<close> looks at the container before it looks at whether it got the mutex, so a
  \<open>try_pop\<close> whose \<open>try_lock\<close> failed reads the container while another thread, which holds
  the mutex, is about to write it: a data race.\<close>

theorem queue_try_pop_race:
  "\<exists>s :: 'a queue_sys. reachable queue_step (queue_sys_new 2) s \<and> container_race s"
proof -
  let ?as = "[Call 0 CallClear, Go 0, Call 1 CallTryPop, FailLock 1] :: 'a queue_act list"
  let ?s = "the (run queue_step ?as (queue_sys_new 2))"
  have eval: "run queue_step ?as (queue_sys_new 2) \<noteq> None" "pcs ?s = [ClearBody, TryPopCheck False]"
    by (simp_all add: queue_eval)
  have "container_race ?s"
    unfolding container_race_def eval(2)
    by (rule exI [of _ 1]) (auto simp: writes_container_def)
  with reachable_the_run [OF eval(1)] show ?thesis by blast
qed

end
