(* ===== verification/RRScheduler.thy ===== *)
theory RRScheduler
  imports Contract Queue
begin

section \<open>The round-robin scheduler (\<open>rr_scheduler.hpp\<close>, \<open>rr_scheduler.cpp\<close>)\<close>

text \<open>
  A vector of task queues and two atomic 32-bit counters. A producer takes the next push index
  and tries each queue from there, four rounds long, before it blocks on its first choice. A
  consumer thread draws its index once (\<open>static thread_local\<close>), tries every queue from there
  and then blocks on its own queue. Every index is computed as in the C++: a 32-bit sum that
  wraps, then a 64-bit remainder. Whether the n-th \<open>try_lock\<close> of a call succeeds is an
  argument of the model, \<open>locked n\<close>.
\<close>

subsection \<open>State and operations\<close>

record 't rr_scheduler =
  m_task_queue :: "'t queue list"
  m_push_index :: uint
  m_pop_index :: uint

definition rr_scheduler_new :: "uint \<Rightarrow> 't rr_scheduler result" where
  "rr_scheduler_new queue_count =
     result_bind (not_zero queue_count ''queue_count cannot be zero'')
       (\<lambda>_. Inr \<lparr>m_task_queue = replicate (unat queue_count) queue_new, m_push_index = 0, m_pop_index = 0\<rparr>)"

definition queue_size :: "'t rr_scheduler \<Rightarrow> size_t" where
  "queue_size s = of_nat (length (m_task_queue s))"

text \<open>\<open>(index + n) % m_task_queue.size()\<close>.\<close>

definition slot :: "uint \<Rightarrow> uint \<Rightarrow> 't rr_scheduler \<Rightarrow> nat" where
  "slot index n s = unat ((ucast (index + n) :: size_t) mod queue_size s)"

definition set_queue :: "nat \<Rightarrow> 't queue \<Rightarrow> 't rr_scheduler \<Rightarrow> 't rr_scheduler" where
  "set_queue k q s = s\<lparr>m_task_queue := (m_task_queue s)[k := q]\<rparr>"

text \<open>What a call of \<open>scheduled\<close> comes to: it returns an optional task, or it is blocked in \<open>pop\<close> of
  the queue with the given index.\<close>

datatype 't sched_outcome = Got "'t option" | Waits nat | FrontOfEmpty

text \<open>\<open>static thread_local unsigned const thread_index\<close>: drawn by the first call a thread makes,
  kept for all its later calls. \<open>None\<close> is a thread that has not called yet.\<close>

definition thread_index_of :: "uint option \<Rightarrow> 't rr_scheduler \<Rightarrow> uint \<times> 't rr_scheduler" where
  "thread_index_of tls s =
     (case tls of
        Some i \<Rightarrow> (i, s)
      | None \<Rightarrow> (m_pop_index s, s\<lparr>m_pop_index := m_pop_index s + 1\<rparr>))"

definition scan_body ::
  "(uint \<Rightarrow> bool) \<Rightarrow> uint \<Rightarrow> uint \<Rightarrow> 't rr_scheduler \<Rightarrow> 't option \<times> 't rr_scheduler" where
  "scan_body locked thread_index n s =
     (let k = slot thread_index n s
      in case try_pop (locked n) (m_task_queue s ! k) of
           Returns task q' \<Rightarrow> (task, set_queue k q' s)
         | _ \<Rightarrow> (None, s))"

definition scheduled ::
  "(uint \<Rightarrow> bool) \<Rightarrow> uint option \<Rightarrow> 't rr_scheduler \<Rightarrow> ('t sched_outcome \<times> uint \<times> 't rr_scheduler) option"
where
  "scheduled locked tls s =
     (let (thread_index, s1) = thread_index_of tls s
      in case try_loop (scan_body locked thread_index) (queue_size s1) 0 s1 of
           None \<Rightarrow> None
         | Some (Some task, s2) \<Rightarrow> Some (Got (Some task), thread_index, s2)
         | Some (None, s2) \<Rightarrow>
             (let k = slot thread_index 0 s2
              in case pop (m_task_queue s2 ! k) of
                   Blocks \<Rightarrow> Some (Waits k, thread_index, s2)
                 | Returns task q' \<Rightarrow> Some (Got task, thread_index, set_queue k q' s2)
                 | Undefined \<Rightarrow> Some (FrontOfEmpty, thread_index, s2)))"

definition rr_clear :: "'t rr_scheduler \<Rightarrow> 't rr_scheduler" where
  "rr_clear s = s\<lparr>m_task_queue := map clear (m_task_queue s)\<rparr>"

definition push_body ::
  "(uint \<Rightarrow> bool) \<Rightarrow> 't \<Rightarrow> uint \<Rightarrow> uint \<Rightarrow> 't rr_scheduler \<Rightarrow> unit option \<times> 't rr_scheduler" where
  "push_body locked task index n s =
     (let k = slot index n s;
          (pushed, q') = try_push (locked n) task (m_task_queue s ! k)
      in (if pushed then Some () else None, set_queue k q' s))"

definition schedule :: "(uint \<Rightarrow> bool) \<Rightarrow> 't \<Rightarrow> 't rr_scheduler \<Rightarrow> 't rr_scheduler option" where
  "schedule locked task s =
     (let try_n_times = queue_size s * 4;
          index = m_push_index s;
          s1 = s\<lparr>m_push_index := index + 1\<rparr>
      in case try_loop (push_body locked task index) try_n_times 0 s1 of
           None \<Rightarrow> None
         | Some (Some _, s2) \<Rightarrow> Some s2
         | Some (None, s2) \<Rightarrow>
             (let k = slot index 0 s2 in Some (set_queue k (push task (m_task_queue s2 ! k)) s2)))"

text \<open>\<open>adapter::schedule(invocable, args...)\<close>: the task is the call of \<open>invocable\<close> on \<open>args\<close>. A task
  acts on the state \<open>'w\<close> of the program.\<close>

definition adapter_schedule ::
  "(uint \<Rightarrow> bool) \<Rightarrow> ('x \<Rightarrow> 'w \<Rightarrow> 'w) \<Rightarrow> 'x \<Rightarrow> ('w \<Rightarrow> 'w) rr_scheduler \<Rightarrow> ('w \<Rightarrow> 'w) rr_scheduler option"
where
  "adapter_schedule locked invocable args s = schedule locked (\<lambda>w. invocable args w) s"

text \<open>The class invariant: the constructor made at least one queue, and at most as many as an
  \<open>unsigned\<close> counts.\<close>

definition rr_ok :: "'t rr_scheduler \<Rightarrow> bool" where
  "rr_ok s \<longleftrightarrow> 0 < length (m_task_queue s) \<and> length (m_task_queue s) < 2 ^ 32"

abbreviation pending_tasks :: "'t rr_scheduler \<Rightarrow> 't multiset" where
  "pending_tasks s \<equiv> mset (concat (map m_container (m_task_queue s)))"

text \<open>A sequence of \<open>schedule\<close> calls.\<close>

fun schedule_all :: "(uint \<Rightarrow> bool) \<Rightarrow> 't list \<Rightarrow> 't rr_scheduler \<Rightarrow> 't rr_scheduler option" where
  "schedule_all locked [] s = Some s"
| "schedule_all locked (t # ts) s =
     (case schedule locked t s of None \<Rightarrow> None | Some s' \<Rightarrow> schedule_all locked ts s')"

subsection \<open>Indices\<close>

lemma set_queue_sel [simp]:
  "m_task_queue (set_queue k q s) = (m_task_queue s)[k := q]"
  "m_push_index (set_queue k q s) = m_push_index s"
  "m_pop_index (set_queue k q s) = m_pop_index s"
  by (simp_all add: set_queue_def)

lemma set_queue_id [simp]: "set_queue k (m_task_queue s ! k) s = s"
  by (simp add: set_queue_def)

lemma queue_size_cong [simp]:
  "queue_size (set_queue k q s) = queue_size s"
  "queue_size (s\<lparr>m_push_index := i\<rparr>) = queue_size s"
  "queue_size (s\<lparr>m_pop_index := i\<rparr>) = queue_size s"
  by (simp_all add: queue_size_def)

lemma slot_cong [simp]:
  "slot i n (set_queue k q s) = slot i n s"
  "slot i n (s\<lparr>m_push_index := j\<rparr>) = slot i n s"
  "slot i n (s\<lparr>m_pop_index := j\<rparr>) = slot i n s"
  by (simp_all add: slot_def)

lemma unat_queue_size: "length (m_task_queue s) < 2 ^ 64 \<Longrightarrow> unat (queue_size s) = length (m_task_queue s)"
  by (simp add: queue_size_def unat_of_nat)

lemma slot_eq:
  assumes "rr_ok s"
  shows "slot index n s = unat (index + n) mod length (m_task_queue s)"
proof -
  from assms have "unat (queue_size s) = length (m_task_queue s)"
    by (intro unat_queue_size) (simp add: rr_ok_def)
  then show ?thesis by (simp add: slot_def unat_mod_distrib)
qed

lemma slot_less: "rr_ok s \<Longrightarrow> slot index n s < length (m_task_queue s)"
  by (simp add: slot_eq rr_ok_def)

lemma rr_ok_cong [simp]:
  "rr_ok (set_queue k q s) = rr_ok s"
  "rr_ok (s\<lparr>m_push_index := i\<rparr>) = rr_ok s"
  "rr_ok (s\<lparr>m_pop_index := i\<rparr>) = rr_ok s"
  by (simp_all add: rr_ok_def)

lemma slot_no_wrap:
  assumes "rr_ok s" and "unat index + n < 2 ^ 32"
  shows "slot index (of_nat n) s = (unat index + n) mod length (m_task_queue s)"
proof -
  from assms(2) have "unat (of_nat n :: uint) = n"
    by (simp add: unat_of_nat)
  with assms(2) have "unat (index + of_nat n) = unat index + n"
    by (simp add: unat_word_ariths)
  with assms(1) show ?thesis by (simp add: slot_eq)
qed

text \<open>Where the number of queues divides \<open>2^32\<close> the wrap-around of the sum does not show.\<close>

lemma slot_dvd:
  assumes "rr_ok s" and "length (m_task_queue s) dvd 2 ^ 32"
  shows "slot index (of_nat n) s = (unat index + n) mod length (m_task_queue s)"
proof -
  have "unat (index + of_nat n) = (unat index + n) mod 2 ^ 32"
    by (simp add: unat_word_ariths unat_of_nat mod_add_right_eq)
  with assms show ?thesis by (simp add: slot_eq mod_mod_cancel)
qed

lemma residues_cover:
  assumes "0 < m" and "k < (m::nat)"
  shows "\<exists>n < m. (a + n) mod m = k"
proof -
  define n where "n = (k + m - a mod m) mod m"
  have am: "a mod m < m" using assms(1) by simp
  have "(a + n) mod m = (a mod m + (k + m - a mod m)) mod m"
    by (simp add: n_def mod_add_eq mod_add_left_eq mod_add_right_eq)
  also have "\<dots> = (k + m) mod m" using am by simp
  finally have "(a + n) mod m = k" using assms(2) by simp
  moreover have "n < m" using assms(1) by (simp add: n_def)
  ultimately show ?thesis by blast
qed

subsection \<open>Taking a task\<close>

lemma scan_body_cases:
  obtains (none) "scan_body locked i n s = (None, s)"
      "m_container (m_task_queue s ! slot i n s) = [] \<or> \<not> locked n"
    | (some) t q' where "try_pop (locked n) (m_task_queue s ! slot i n s) = Returns (Some t) q'"
        "scan_body locked i n s = (Some t, set_queue (slot i n s) q' s)"
proof -
  obtain r q' where r: "try_pop (locked n) (m_task_queue s ! slot i n s) = Returns r q'"
    using task_queue.try_get_returns by blast
  show ?thesis
  proof (cases r)
    case None
    with r show ?thesis
      using task_queue.try_get_none [of "locked n"] by (intro none) (auto simp: scan_body_def Let_def)
  next
    case (Some t)
    with r show ?thesis by (intro some) (auto simp: scan_body_def Let_def)
  qed
qed

text \<open>The scan either leaves the scheduler as it was or takes the front task of one queue.\<close>

definition took :: "'t \<Rightarrow> 't rr_scheduler \<Rightarrow> 't rr_scheduler \<Rightarrow> bool" where
  "took t s s' \<longleftrightarrow>
     (\<exists>k q'. k < length (m_task_queue s) \<and> m_container (m_task_queue s ! k) = t # m_container q'
        \<and> m_is_cancelled q' = m_is_cancelled (m_task_queue s ! k) \<and> s' = set_queue k q' s)"

lemma took_front:
  assumes "took t s s'"
  shows "\<exists>k < length (m_task_queue s). \<exists>ts.
    m_container (m_task_queue s ! k) = t # ts
    \<and> m_task_queue s' = (m_task_queue s)[k := (m_task_queue s ! k)\<lparr>m_container := ts\<rparr>]"
proof -
  from assms obtain k q' where k: "k < length (m_task_queue s)" "m_container (m_task_queue s ! k) = t # m_container q'"
      "m_is_cancelled q' = m_is_cancelled (m_task_queue s ! k)" "s' = set_queue k q' s"
    by (auto simp: took_def)
  from k(3) have q': "(m_task_queue s ! k)\<lparr>m_container := m_container q'\<rparr> = q'" by (cases q'; cases "m_task_queue s ! k") simp
  show ?thesis
    by (intro exI [of _ k] exI [of _ "m_container q'"] conjI) (use k in \<open>simp_all only: q', simp_all add: set_queue_def\<close>)
qed

lemma tookI:
  "k < length (m_task_queue s) \<Longrightarrow> m_container (m_task_queue s ! k) = t # m_container q' \<Longrightarrow>
   m_is_cancelled q' = m_is_cancelled (m_task_queue s ! k) \<Longrightarrow> took t s (set_queue k q' s)"
  unfolding took_def by blast

lemma scan_result:
  assumes "rr_ok s"
    and "first_success (\<lambda>n. scan_body locked i (of_nat n)) ns s = (r, s')"
  shows "case r of None \<Rightarrow> s' = s | Some t \<Rightarrow> took t s s'"
  using assms(2)
proof (rule first_success_induct)
  show "s = s" ..
next
  fix n u u'
  assume "u = s" and "scan_body locked i (of_nat n) u = (None, u')"
  then show "u' = s" by (cases rule: scan_body_cases [of locked i "of_nat n" s]) auto
next
  fix n u u' t
  assume u: "u = s" and t: "scan_body locked i (of_nat n) u = (Some t, u')"
  obtain q' where "try_pop (locked (of_nat n)) (m_task_queue s ! slot i (of_nat n) s) = Returns (Some t) q'"
    "u' = set_queue (slot i (of_nat n) s) q' s"
    using t u by (cases rule: scan_body_cases [of locked i "of_nat n" s]) auto
  then show "took t s u'"
    by (auto intro!: tookI slot_less [OF assms(1)] dest: task_queue.try_get_some)
qed

lemma scan_total:
  assumes "rr_ok s"
  shows "try_loop (scan_body locked i) (queue_size s) 0 s =
     Some (first_success (\<lambda>n. scan_body locked i (of_nat n)) [0..<length (m_task_queue s)] s)"
proof -
  have "unat (queue_size s) = length (m_task_queue s)"
    using assms by (intro unat_queue_size) (simp add: rr_ok_def)
  with assms show ?thesis
    using try_loop_eq_first_success [of "queue_size s"] by (simp add: rr_ok_def)
qed

lemma took_pending:
  assumes "took t s s'"
  shows "pending_tasks s = add_mset t (pending_tasks s')"
  using assms task_queue.pending_removed [of _ "m_task_queue s"]
  unfolding took_def task_queue.pending_def by force

lemma took_ok: "took t s s' \<Longrightarrow> rr_ok s \<Longrightarrow> rr_ok s'"
  by (auto simp: took_def)

text \<open>The result of \<open>scheduled\<close>, in terms of the scheduler after the index was drawn.\<close>

lemma scheduled_cases:
  assumes "rr_ok s"
  obtains (task) i s1 t s' where "thread_index_of tls s = (i, s1)" "took t s1 s'"
      "scheduled locked tls s = Some (Got (Some t), i, s')"
    | (cancelled) i s1 where "thread_index_of tls s = (i, s1)"
      "m_is_cancelled (m_task_queue s1 ! slot i 0 s1)"
      "first_success (\<lambda>n. scan_body locked i (of_nat n)) [0..<length (m_task_queue s1)] s1 = (None, s1)"
      "scheduled locked tls s = Some (Got None, i, s1)"
    | (waits) i s1 where "thread_index_of tls s = (i, s1)"
      "m_container (m_task_queue s1 ! slot i 0 s1) = []"
      "\<not> m_is_cancelled (m_task_queue s1 ! slot i 0 s1)"
      "first_success (\<lambda>n. scan_body locked i (of_nat n)) [0..<length (m_task_queue s1)] s1 = (None, s1)"
      "scheduled locked tls s = Some (Waits (slot i 0 s1), i, s1)"
proof -
  obtain i s1 where i: "thread_index_of tls s = (i, s1)" by fastforce
  then have ok: "rr_ok s1" using assms by (auto simp: thread_index_of_def split: option.splits)
  obtain r s2 where fs:
    "first_success (\<lambda>n. scan_body locked i (of_nat n)) [0..<length (m_task_queue s1)] s1 = (r, s2)"
    by fastforce
  note tot = scan_total [OF ok, of locked i, unfolded fs]
  note res = scan_result [OF ok fs]
  show ?thesis
  proof (cases r)
    case (Some t)
    with i tot res show ?thesis by (intro task) (auto simp: scheduled_def)
  next
    case None
    with res have s2: "s2 = s1" by simp
    let ?q = "m_task_queue s1 ! slot i 0 s1"
    have eq: "scheduled locked tls s =
        (case pop ?q of
           Blocks \<Rightarrow> Some (Waits (slot i 0 s1), i, s1)
         | Returns task q' \<Rightarrow> Some (Got task, i, set_queue (slot i 0 s1) q' s1)
         | Undefined \<Rightarrow> Some (FrontOfEmpty, i, s1))"
      using i tot None s2 by (simp add: scheduled_def Let_def)
    show ?thesis
    proof (cases "m_is_cancelled ?q")
      case True
      with eq i fs None s2 show ?thesis by (intro cancelled) (auto simp: pop_eq)
    next
      case False
      show ?thesis
      proof (cases "m_container ?q")
        case Nil
        with False eq i fs None s2 show ?thesis by (intro waits) (auto simp: pop_eq)
      next
        case (Cons t ts)
        have "took t s1 (set_queue (slot i 0 s1) (?q\<lparr>m_container := ts\<rparr>) s1)"
          by (rule tookI) (use Cons slot_less [OF ok] in auto)
        with False Cons eq i show ?thesis by (intro task) (auto simp: pop_eq)
      qed
    qed
  qed
qed

text \<open>A scan that gets every mutex and finds nothing has seen only empty queues.\<close>

lemma scan_all_empty:
  assumes "first_success (\<lambda>n. scan_body (\<lambda>_. True) i (of_nat n)) ns s = (None, s')" and "n \<in> set ns"
  shows "m_container (m_task_queue s ! slot i (of_nat n) s) = []"
  using assms
proof (induction ns)
  case Nil
  then show ?case by simp
next
  case (Cons m ns)
  then show ?case
    by (cases rule: scan_body_cases [of "\<lambda>_. True" i "of_nat m" s]) auto
qed

lemma scan_complete:
  assumes ok: "rr_ok s"
    and nowrap: "unat i + length (m_task_queue s) \<le> 2 ^ 32 \<or> length (m_task_queue s) dvd 2 ^ 32"
    and fs: "first_success (\<lambda>n. scan_body (\<lambda>_. True) i (of_nat n)) [0..<length (m_task_queue s)] s = (None, s)"
  shows "pending_tasks s = {#}"
proof -
  let ?m = "length (m_task_queue s)"
  have "m_container (m_task_queue s ! k) = []" if "k < ?m" for k
  proof -
    from ok that obtain n where n: "n < ?m" "(unat i + n) mod ?m = k"
      using residues_cover [of ?m k "unat i"] by (auto simp: rr_ok_def)
    have "slot i (of_nat n) s = (unat i + n) mod ?m"
      using nowrap
    proof
      assume "unat i + ?m \<le> 2 ^ 32"
      with n show ?thesis by (intro slot_no_wrap [OF ok]) simp
    qed (rule slot_dvd [OF ok])
    with n scan_all_empty [OF fs, of n] show ?thesis by simp
  qed
  then have "task_queue.pending (m_task_queue s) = {#}"
    by (simp add: task_queue.pending_empty_iff)
  then show ?thesis by (simp add: task_queue.pending_def)
qed

lemma thread_index_of_queues:
  "thread_index_of tls s = (i, s1) \<Longrightarrow>
     m_task_queue s1 = m_task_queue s \<and> m_push_index s1 = m_push_index s"
  by (auto simp: thread_index_of_def split: option.splits)

subsection \<open>Putting a task\<close>

lemma push_body_eq:
  "push_body locked t i n s =
     (if locked n then (Some (), set_queue (slot i n s) (push t (m_task_queue s ! slot i n s)) s)
      else (None, s))"
  by (simp add: push_body_def Let_def try_push_eq)

lemma push_scan:
  assumes "rr_ok s" and "first_success (\<lambda>n. push_body locked t i (of_nat n)) ns s = (r, s')"
  shows "case r of None \<Rightarrow> s' = s
    | Some u \<Rightarrow> \<exists>k < length (m_task_queue s). s' = set_queue k (push t (m_task_queue s ! k)) s"
  using assms(2)
  by (rule first_success_induct [where P = "\<lambda>u. u = s"])
     (auto simp: push_body_eq intro: slot_less [OF assms(1)] split: if_splits)

lemma schedule_loop:
  assumes "rr_ok s" and "4 * length (m_task_queue s) < 2 ^ 32"
  shows "try_loop body (queue_size s * 4) 0 s1 =
     Some (first_success (\<lambda>n. body (of_nat n)) [0..<4 * length (m_task_queue s)] s1)"
proof -
  have "unat (queue_size s) = length (m_task_queue s)"
    using assms by (intro unat_queue_size) (simp add: rr_ok_def)
  then have "unat (queue_size s * 4) = 4 * length (m_task_queue s)"
    using assms(2) by (simp add: unat_word_ariths)
  with assms(2) show ?thesis
    using try_loop_eq_first_success [of "queue_size s * 4"] by simp
qed

lemma schedule_effect:
  assumes ok: "rr_ok s" and small: "4 * length (m_task_queue s) < 2 ^ 32"
  shows "\<exists>k < length (m_task_queue s).
    schedule locked t s =
      Some (set_queue k (push t (m_task_queue s ! k)) (s\<lparr>m_push_index := m_push_index s + 1\<rparr>))"
proof -
  let ?s1 = "s\<lparr>m_push_index := m_push_index s + 1\<rparr>" and ?i = "m_push_index s"
  have ok1: "rr_ok ?s1" using ok by simp
  obtain r s2 where fs:
    "first_success (\<lambda>n. push_body locked t ?i (of_nat n)) [0..<4 * length (m_task_queue s)] ?s1 = (r, s2)"
    by fastforce
  note tot = schedule_loop [OF ok small, of "push_body locked t ?i" ?s1, unfolded fs]
  note res = push_scan [OF ok1 fs]
  show ?thesis
  proof (cases r)
    case None
    with res tot show ?thesis
      by (intro exI [of _ "slot ?i 0 s"]) (auto simp: schedule_def Let_def slot_less [OF ok])
  next
    case (Some u)
    with res tot show ?thesis by (auto simp: schedule_def Let_def)
  qed
qed

lemma schedule_uncontended:
  assumes ok: "rr_ok s" and small: "4 * length (m_task_queue s) < 2 ^ 32"
  shows "schedule (\<lambda>_. True) t s =
    (let k = unat (m_push_index s) mod length (m_task_queue s)
     in Some (set_queue k (push t (m_task_queue s ! k)) (s\<lparr>m_push_index := m_push_index s + 1\<rparr>)))"
proof -
  have ne: "[0..<4 * length (m_task_queue s)] = 0 # [1..<4 * length (m_task_queue s)]"
    using ok by (simp add: rr_ok_def upt_conv_Cons)
  show ?thesis
    by (simp add: schedule_def Let_def schedule_loop [OF ok small] ne push_body_eq slot_eq [OF ok])
qed

subsection \<open>Round robin\<close>

lemma nths_shift: "nths (x # xs) {i. (a + i) mod m = k} =
    (if a mod m = k then [x] else []) @ nths xs {i. (Suc a + i) mod m = k}"
  by (simp add: nths_Cons)

lemma schedule_all_round_robin:
  assumes "rr_ok s" and "4 * length (m_task_queue s) < 2 ^ 32"
    and "unat (m_push_index s) = a" and "a + length ts < 2 ^ 32"
  shows "\<exists>s'. schedule_all (\<lambda>_. True) ts s = Some s' \<and> length (m_task_queue s') = length (m_task_queue s)
    \<and> (\<forall>k < length (m_task_queue s). m_container (m_task_queue s' ! k) =
          m_container (m_task_queue s ! k) @ nths ts {i. (a + i) mod length (m_task_queue s) = k})"
  using assms
proof (induction ts arbitrary: s a)
  case Nil
  then show ?case by simp
next
  case (Cons t ts)
  let ?m = "length (m_task_queue s)" and ?k = "a mod length (m_task_queue s)"
  let ?s1 = "set_queue ?k (push t (m_task_queue s ! ?k)) (s\<lparr>m_push_index := m_push_index s + 1\<rparr>)"
  have step: "schedule (\<lambda>_. True) t s = Some ?s1"
    using schedule_uncontended [OF Cons.prems(1,2)] Cons.prems(3) by (simp add: Let_def)
  have "unat (m_push_index ?s1) = Suc a"
    using Cons.prems(3,4) by (simp add: uint_succ_unat)
  then obtain s' where s': "schedule_all (\<lambda>_. True) ts ?s1 = Some s'"
      "length (m_task_queue s') = ?m"
      "\<forall>k < ?m. m_container (m_task_queue s' ! k) =
         m_container (m_task_queue ?s1 ! k) @ nths ts {i. (Suc a + i) mod ?m = k}"
    using Cons.IH [of ?s1 "Suc a"] Cons.prems by auto
  have "m_container (m_task_queue ?s1 ! k) =
      m_container (m_task_queue s ! k) @ (if ?k = k then [t] else [])" if "k < ?m" for k
    using that by (auto simp: push_def nth_list_update)
  with s' step show ?case
    by (intro exI [of _ s']) (auto simp: nths_shift)
qed

lemma rr_scheduler_new_Inr:
  "rr_scheduler_new n = Inr s \<longleftrightarrow>
     n \<noteq> 0 \<and> s = \<lparr>m_task_queue = replicate (unat n) queue_new, m_push_index = 0, m_pop_index = 0\<rparr>"
  by (auto simp: rr_scheduler_new_def not_zero_def)

lemma rr_scheduler_new_ok: "rr_scheduler_new n = Inr s \<Longrightarrow> rr_ok s"
  using unsigned_less [of n, where ?'a = nat]
  by (auto simp: rr_scheduler_new_Inr rr_ok_def unat_gt_0)

subsection \<open>Properties\<close>

text \<open>C7: \<open>schedule\<close> always returns, whatever \<open>try_lock\<close> does, and puts the task at the back of
  exactly one queue; all the other queues and all the tasks they hold are as before, and the
  push index moves on by one (mod \<open>2^32\<close>). The bound on the number of queues keeps the 64-bit
  number of attempts within reach of the 32-bit loop counter.\<close>

theorem rr_schedule_places:
  assumes "rr_ok s" and "4 * length (m_task_queue s) < 2 ^ 32"
  shows "\<exists>s' k. schedule locked t s = Some s' \<and> k < length (m_task_queue s)
    \<and> m_task_queue s' = (m_task_queue s)[k := push t (m_task_queue s ! k)]
    \<and> pending_tasks s' = add_mset t (pending_tasks s)
    \<and> m_push_index s' = m_push_index s + 1 \<and> m_pop_index s' = m_pop_index s \<and> rr_ok s'"
proof -
  obtain k where k: "k < length (m_task_queue s)" "schedule locked t s =
      Some (set_queue k (push t (m_task_queue s ! k)) (s\<lparr>m_push_index := m_push_index s + 1\<rparr>))"
    using schedule_effect [OF assms] by blast
  with assms(1) task_queue.pending_put [OF k(1), of t] show ?thesis
    by (intro exI [of _ k] exI) (auto simp: task_queue.pending_def)
qed

theorem rr_schedule_places_witness:
  "\<exists>s'. schedule (\<lambda>_. False) (7::nat)
       \<lparr>m_task_queue = [queue_new, queue_new], m_push_index = 2 ^ 32 - 1, m_pop_index = 0\<rparr> = Some s'
     \<and> m_push_index s' = 0"
  using rr_schedule_places
    [of "\<lparr>m_task_queue = [queue_new, queue_new], m_push_index = 2 ^ 32 - 1, m_pop_index = 0\<rparr>"
      "\<lambda>_. False" "7::nat"]
  by (auto simp: rr_ok_def)

text \<open>C8: \<open>scheduled\<close> always comes to a result. A task it returns was the front task of one
  queue and is removed from the front of it, and no other queue changes; it returns no task only when the
  thread's own queue was cancelled; and it blocks only on its own queue, and only when that is
  empty and not cancelled. \<open>front()\<close> is never called on an empty queue.\<close>

theorem rr_scheduled_takes:
  assumes "rr_ok s"
  shows "\<exists>out i s'. scheduled locked tls s = Some (out, i, s') \<and> rr_ok s'
    \<and> (case out of
         Got (Some t) \<Rightarrow>
           (\<exists>k < length (m_task_queue s). \<exists>ts.
              m_container (m_task_queue s ! k) = t # ts
              \<and> m_task_queue s' = (m_task_queue s)[k := (m_task_queue s ! k)\<lparr>m_container := ts\<rparr>])
       | Got None \<Rightarrow> m_is_cancelled (m_task_queue s ! slot i 0 s) \<and> m_task_queue s' = m_task_queue s
       | Waits k \<Rightarrow> k = slot i 0 s \<and> m_container (m_task_queue s ! k) = []
           \<and> \<not> m_is_cancelled (m_task_queue s ! k) \<and> m_task_queue s' = m_task_queue s
       | FrontOfEmpty \<Rightarrow> False)"
proof -
  have same: "m_task_queue s1 = m_task_queue s \<and> slot i 0 s1 = slot i 0 s \<and> rr_ok s1"
    if "thread_index_of tls s = (i, s1)" for i s1
    using that assms by (auto simp: thread_index_of_def split: option.splits)
  from assms show ?thesis
  proof (cases rule: scheduled_cases [of s tls locked])
    case (task i s1 t s')
    with same [OF task(1)] took_ok [OF task(2)] took_front [OF task(2)] show ?thesis by auto
  next
    case (cancelled i s1)
    with same [OF cancelled(1)] show ?thesis by auto
  next
    case (waits i s1)
    with same [OF waits(1)] show ?thesis by auto
  qed
qed

theorem rr_scheduled_takes_witness:
  "\<exists>i s'. scheduled (\<lambda>_. False) None
       \<lparr>m_task_queue = [\<lparr>m_is_cancelled = False, m_container = [4::nat, 5]\<rparr>], m_push_index = 0, m_pop_index = 0\<rparr>
         = Some (Got (Some 4), i, s')
     \<and> m_task_queue s' = [\<lparr>m_is_cancelled = False, m_container = [5]\<rparr>]"
proof -
  let ?s = "\<lparr>m_task_queue = [\<lparr>m_is_cancelled = False, m_container = [4::nat, 5]\<rparr>], m_push_index = 0, m_pop_index = 0\<rparr>"
  have slot: "slot i 0 ?s = 0" for i by (simp add: slot_def queue_size_def)
  from rr_scheduled_takes [of ?s "\<lambda>_. False" None] obtain out i s' where
    out: "scheduled (\<lambda>_. False) None ?s = Some (out, i, s')" and
    cases: "case out of
         Got (Some t) \<Rightarrow>
           (\<exists>k < length (m_task_queue ?s). \<exists>ts.
              m_container (m_task_queue ?s ! k) = t # ts
              \<and> m_task_queue s' = (m_task_queue ?s)[k := (m_task_queue ?s ! k)\<lparr>m_container := ts\<rparr>])
       | Got None \<Rightarrow> m_is_cancelled (m_task_queue ?s ! slot i 0 ?s) \<and> m_task_queue s' = m_task_queue ?s
       | Waits k \<Rightarrow> k = slot i 0 ?s \<and> m_container (m_task_queue ?s ! k) = []
           \<and> \<not> m_is_cancelled (m_task_queue ?s ! k) \<and> m_task_queue s' = m_task_queue ?s
       | FrontOfEmpty \<Rightarrow> False"
    by (auto simp: rr_ok_def simp del: One_nat_def)
  then obtain t where "out = Got (Some t)"
    by (auto simp: slot push_def queue_new_def split: sched_outcome.splits option.splits)
  with out cases show ?thesis by (auto simp: push_def queue_new_def)
qed

text \<open>C9: work conservation. A thread whose \<open>try_lock\<close> attempts all succeed finds a task if there
  is one in any queue, provided that its scan does not cross the 32-bit wrap-around or that the
  number of queues divides \<open>2^32\<close>.\<close>

theorem rr_scheduled_finds:
  assumes "rr_ok s" and "pending_tasks s \<noteq> {#}" and "fst (thread_index_of tls s) = i"
    and "unat i + length (m_task_queue s) \<le> 2 ^ 32 \<or> length (m_task_queue s) dvd 2 ^ 32"
  shows "\<exists>t s'. scheduled (\<lambda>_. True) tls s = Some (Got (Some t), i, s')"
  using assms(1)
proof (cases rule: scheduled_cases [of s tls "\<lambda>_. True"])
  case (task j s1 t s')
  with assms(3) show ?thesis by auto
next
  case (cancelled j s1)
  with assms scan_complete [OF _ _ cancelled(3)] thread_index_of_queues [OF cancelled(1)]
  show ?thesis by (auto simp: rr_ok_def)
next
  case (waits j s1)
  with assms scan_complete [OF _ _ waits(4)] thread_index_of_queues [OF waits(1)]
  show ?thesis by (auto simp: rr_ok_def)
qed

theorem rr_scheduled_finds_witness:
  "\<exists>t s'. scheduled (\<lambda>_. True) (Some 1)
       \<lparr>m_task_queue = [push (4::nat) queue_new, queue_new, queue_new], m_push_index = 0, m_pop_index = 2\<rparr>
     = Some (Got (Some t), 1, s')"
  by (rule rr_scheduled_finds) (auto simp: rr_ok_def push_def queue_new_def thread_index_of_def)

text \<open>The scan of \<open>scheduled\<close> misses a queue when the 32-bit sum \<open>thread_index + n\<close> wraps and the
  number of queues is not a power of two. With three queues and the thread index \<open>2^32 - 1\<close> the
  scan visits the queues 0, 0 and 1, so the thread blocks although queue 2 holds a task.\<close>

theorem rr_scheduled_wrap_misses:
  "let s = \<lparr>m_task_queue = [queue_new, queue_new, push t queue_new], m_push_index = 0, m_pop_index = 2 ^ 32 - 1\<rparr>
   in map (\<lambda>n. slot (2 ^ 32 - 1) n s) [0, 1, 2] = [0, 0, 1]
    \<and> scheduled (\<lambda>_. True) None s = Some (Waits 0, 2 ^ 32 - 1, s\<lparr>m_pop_index := 0\<rparr>)"
  by (simp add: Let_def slot_def queue_size_def scheduled_def thread_index_of_def try_loop.simps
      scan_body_def try_pop_eq pop_eq queue_new_def push_def set_queue_def)

text \<open>C11: round robin. Up to \<open>2^32 - 1\<close> tasks, scheduled without contention onto a new scheduler of \<open>n\<close>
  queues, fewer than \<open>2^30\<close>: task number \<open>i\<close> goes to queue \<open>i mod n\<close>, and each queue holds its tasks in the order in which they
  were scheduled.\<close>

theorem rr_round_robin:
  assumes "rr_scheduler_new n = Inr s" and "4 * unat n < 2 ^ 32" and "length ts < 2 ^ 32"
  shows "\<exists>s'. schedule_all (\<lambda>_. True) ts s = Some s'
    \<and> (\<forall>k < unat n. m_container (m_task_queue s' ! k) = nths ts {i. i mod unat n = k})"
proof -
  have s: "m_task_queue s = replicate (unat n) queue_new" "m_push_index s = 0"
    using assms(1) by (auto simp: rr_scheduler_new_Inr)
  have "rr_ok s" by (rule rr_scheduler_new_ok [OF assms(1)])
  from schedule_all_round_robin [OF this _ refl, of ts] assms(2,3) show ?thesis
    by (auto simp: s queue_new_def)
qed

theorem rr_round_robin_witness:
  "\<exists>s'. schedule_all (\<lambda>_. True) [10, 11, 12::nat]
       \<lparr>m_task_queue = [queue_new, queue_new], m_push_index = 0, m_pop_index = 0\<rparr> = Some s'
     \<and> m_container (m_task_queue s' ! 0) = [10, 12]"
proof -
  have "rr_scheduler_new 2 =
      Inr \<lparr>m_task_queue = [queue_new, queue_new], m_push_index = 0, m_pop_index = 0\<rparr>"
    by (simp add: rr_scheduler_new_Inr replicate_two)
  from rr_round_robin [OF this, of "[10, 11, 12::nat]"] show ?thesis
    by (auto simp: nths_Cons)
qed

lemma rr_constructor:
  "rr_scheduler_new 0 = (Inl (InvalidArgument ''queue_count cannot be zero'') :: 't rr_scheduler result)
   \<and> (n \<noteq> 0 \<longrightarrow> (\<exists>s :: 't rr_scheduler. rr_scheduler_new n = Inr s \<and> rr_ok s
        \<and> length (m_task_queue s) = unat n \<and> pending_tasks s = {#}))"
proof -
  have "\<exists>s :: 't rr_scheduler. rr_scheduler_new n = Inr s \<and> rr_ok s
        \<and> length (m_task_queue s) = unat n \<and> pending_tasks s = {#}" if "n \<noteq> 0"
  proof -
    let ?s = "\<lparr>m_task_queue = replicate (unat n) queue_new, m_push_index = 0, m_pop_index = 0\<rparr>
      :: 't rr_scheduler"
    have s: "rr_scheduler_new n = Inr ?s" using that by (simp add: rr_scheduler_new_Inr)
    with rr_scheduler_new_ok [OF s] show ?thesis by (auto simp: queue_new_def)
  qed
  then show ?thesis by (simp add: rr_scheduler_new_def not_zero_def)
qed

end
