(* ===== verification/ThreadPool.thy ===== *)
theory ThreadPool
  imports RRScheduler
begin

section \<open>The thread pool (\<open>thread_pool.hpp\<close>)\<close>

text \<open>
  \<open>thread_pool<rr_scheduler>\<close>: the worker threads run the loop of \<open>run()\<close>, clients submit tasks
  through the scheduler, and the destructor (or the constructor's error path) runs \<open>join()\<close>:
  it clears the scheduler queue by queue and then joins the workers one by one. All of this
  interleaves. One step of a worker is one access to one queue: the scan of \<open>scheduled()\<close> tries
  the queues one after the other, and the final \<open>pop()\<close> has no step while it blocks (that a
  blocked \<open>pop\<close> gets to run when its queue becomes ready is the wake-up theorem of the queue).
  A task is a value of type \<open>'t\<close>; executing it is recorded. The members \<open>submitted\<close>, \<open>executed\<close>
  and \<open>dropped\<close> are the history of the pool.
\<close>

subsection \<open>State and constructor\<close>

datatype 't worker =
    NoThread            \<comment> \<open>default-constructed \<open>std::thread\<close>, not joinable\<close>
  | Started             \<comment> \<open>in \<open>run()\<close>, before its first call of \<open>scheduled()\<close>\<close>
  | Scanning uint uint  \<comment> \<open>in the loop of \<open>scheduled()\<close>: thread index and \<open>n\<close>\<close>
  | Popping uint        \<comment> \<open>in \<open>pop()\<close> of its own queue\<close>
  | Running uint 't     \<comment> \<open>in \<open>task.value()()\<close>\<close>
  | Exited              \<comment> \<open>\<open>run()\<close> returned\<close>

datatype joiner =
    NotJoining
  | Clearing nat        \<comment> \<open>\<open>m_scheduler.clear()\<close>, next queue\<close>
  | Joining nat         \<comment> \<open>\<open>thread.join()\<close> loop, next thread\<close>
  | Joined

record 't pool =
  m_scheduler :: "'t rr_scheduler"
  m_threads :: "'t worker list"
  joiner :: joiner
  submitted :: "'t multiset"
  executed :: "'t multiset"
  dropped :: "'t multiset"

definition thread_count :: "uint \<Rightarrow> uint" where
  "thread_count requested = max 1 requested"

text \<open>The constructor's loop: \<open>spawn i\<close> says whether creating thread \<open>i\<close> succeeds; the first
  failure throws out of the loop and leaves the remaining threads default-constructed.\<close>

fun spawn_threads :: "(nat \<Rightarrow> bool) \<Rightarrow> nat \<Rightarrow> nat \<Rightarrow> 't worker list" where
  "spawn_threads spawn i 0 = []"
| "spawn_threads spawn i (Suc n) =
     (if spawn i then Started # spawn_threads spawn (Suc i) n else replicate (Suc n) NoThread)"

text \<open>After a failure the handler runs \<open>join()\<close> before it rethrows.\<close>

definition thread_pool_new :: "(nat \<Rightarrow> bool) \<Rightarrow> uint \<Rightarrow> 't pool result" where
  "thread_pool_new spawn requested =
     result_bind (rr_scheduler_new (thread_count requested))
       (\<lambda>s. let threads = spawn_threads spawn 0 (unat (thread_count requested))
            in Inr \<lparr>m_scheduler = s, m_threads = threads,
                    joiner = (if NoThread \<in> set threads then Clearing 0 else NotJoining),
                    submitted = {#}, executed = {#}, dropped = {#}\<rparr>)"

subsection \<open>Steps\<close>

datatype 't pool_act = Submit 't | Work nat | Join

abbreviation set_worker :: "nat \<Rightarrow> 't worker \<Rightarrow> 't pool \<Rightarrow> 't pool" where
  "set_worker i w p \<equiv> p\<lparr>m_threads := (m_threads p)[i := w]\<rparr>"

abbreviation worker_is :: "'t pool \<Rightarrow> nat \<Rightarrow> 't worker \<Rightarrow> bool" where
  "worker_is p i w \<equiv> i < length (m_threads p) \<and> m_threads p ! i = w"

inductive pool_step :: "'t pool_act \<Rightarrow> 't pool \<Rightarrow> 't pool \<Rightarrow> bool" where
  submit:
    "RRScheduler.schedule locked t (m_scheduler p) = Some s' \<Longrightarrow>
     pool_step (Submit t) p (p\<lparr>m_scheduler := s', submitted := add_mset t (submitted p)\<rparr>)"
| first_call:
    "worker_is p i Started \<Longrightarrow> thread_index_of None (m_scheduler p) = (idx, s') \<Longrightarrow>
     pool_step (Work i) p (set_worker i (Scanning idx 0) (p\<lparr>m_scheduler := s'\<rparr>))"
| scan_hit:
    "worker_is p i (Scanning idx n) \<Longrightarrow> ucast n \<noteq> queue_size (m_scheduler p) \<Longrightarrow>
     scan_body locked idx n (m_scheduler p) = (Some t, s') \<Longrightarrow>
     pool_step (Work i) p (set_worker i (Running idx t) (p\<lparr>m_scheduler := s'\<rparr>))"
| scan_miss:
    "worker_is p i (Scanning idx n) \<Longrightarrow> ucast n \<noteq> queue_size (m_scheduler p) \<Longrightarrow>
     scan_body locked idx n (m_scheduler p) = (None, s') \<Longrightarrow>
     pool_step (Work i) p (set_worker i (Scanning idx (n + 1)) (p\<lparr>m_scheduler := s'\<rparr>))"
| scan_end:
    "worker_is p i (Scanning idx n) \<Longrightarrow> ucast n = queue_size (m_scheduler p) \<Longrightarrow>
     pool_step (Work i) p (set_worker i (Popping idx) p)"
| pop_task:
    "worker_is p i (Popping idx) \<Longrightarrow> k = slot idx 0 (m_scheduler p) \<Longrightarrow>
     pop (m_task_queue (m_scheduler p) ! k) = Returns (Some t) q' \<Longrightarrow>
     pool_step (Work i) p
       (set_worker i (Running idx t) (p\<lparr>m_scheduler := set_queue k q' (m_scheduler p)\<rparr>))"
| pop_none:
    "worker_is p i (Popping idx) \<Longrightarrow> k = slot idx 0 (m_scheduler p) \<Longrightarrow>
     pop (m_task_queue (m_scheduler p) ! k) = Returns None q' \<Longrightarrow>
     pool_step (Work i) p
       (set_worker i Exited (p\<lparr>m_scheduler := set_queue k q' (m_scheduler p)\<rparr>))"
| run_task:
    "worker_is p i (Running idx t) \<Longrightarrow>
     pool_step (Work i) p (set_worker i (Scanning idx 0) (p\<lparr>executed := add_mset t (executed p)\<rparr>))"
| destroy:
    "joiner p = NotJoining \<Longrightarrow> pool_step Join p (p\<lparr>joiner := Clearing 0\<rparr>)"
| clear_queue:
    "joiner p = Clearing k \<Longrightarrow> k < length (m_task_queue (m_scheduler p)) \<Longrightarrow>
     q = m_task_queue (m_scheduler p) ! k \<Longrightarrow>
     pool_step Join p
       (p\<lparr>m_scheduler := set_queue k (clear q) (m_scheduler p), joiner := Clearing (Suc k),
          dropped := dropped p + mset (m_container q)\<rparr>)"
| cleared:
    "joiner p = Clearing k \<Longrightarrow> k = length (m_task_queue (m_scheduler p)) \<Longrightarrow>
     pool_step Join p (p\<lparr>joiner := Joining 0\<rparr>)"
| join_thread:
    "joiner p = Joining j \<Longrightarrow> j < length (m_threads p) \<Longrightarrow> m_threads p ! j \<in> {NoThread, Exited} \<Longrightarrow>
     pool_step Join p (p\<lparr>joiner := Joining (Suc j)\<rparr>)"
| all_joined:
    "joiner p = Joining j \<Longrightarrow> j = length (m_threads p) \<Longrightarrow>
     pool_step Join p (p\<lparr>joiner := Joined\<rparr>)"

inductive_cases submit_stepE: "pool_step (Submit t) p p'"
inductive_cases work_stepE: "pool_step (Work i) p p'"
inductive_cases join_stepE: "pool_step Join p p'"

subsection \<open>Invariant and measure\<close>

fun running_task :: "'t worker \<Rightarrow> 't list" where
  "running_task (Running idx t) = [t]"
| "running_task _ = []"

abbreviation running_tasks :: "'t pool \<Rightarrow> 't multiset" where
  "running_tasks p \<equiv> mset (concat (map running_task (m_threads p)))"

abbreviation queues :: "'t pool \<Rightarrow> 't queue list" where
  "queues p \<equiv> m_task_queue (m_scheduler p)"

fun worker_ok :: "nat \<Rightarrow> 't worker \<Rightarrow> bool" where
  "worker_ok m (Scanning idx n) = (unat n \<le> m)"
| "worker_ok m _ = True"

fun cancelled_upto :: "joiner \<Rightarrow> nat \<Rightarrow> nat" where
  "cancelled_upto NotJoining m = 0"
| "cancelled_upto (Clearing k) m = k"
| "cancelled_upto _ m = m"

fun joined_upto :: "joiner \<Rightarrow> nat \<Rightarrow> nat" where
  "joined_upto (Joining j) m = j"
| "joined_upto Joined m = m"
| "joined_upto _ m = 0"

definition tasks_inv :: "'t pool \<Rightarrow> bool" where
  tasks_inv_def [inv_defs]: "tasks_inv p \<longleftrightarrow>
     submitted p = pending_tasks (m_scheduler p) + running_tasks p + executed p + dropped p"

definition shape_inv :: "'t pool \<Rightarrow> bool" where
  shape_inv_def [inv_defs]: "shape_inv p \<longleftrightarrow>
     0 < length (queues p) \<and> 4 * length (queues p) < 2 ^ 32 \<and> length (m_threads p) = length (queues p)
     \<and> (\<forall>w \<in> set (m_threads p). worker_ok (length (queues p)) w)
     \<and> cancelled_upto (joiner p) (length (queues p)) \<le> length (queues p)
     \<and> joined_upto (joiner p) (length (queues p)) \<le> length (queues p)"

definition join_inv :: "'t pool \<Rightarrow> bool" where
  join_inv_def [inv_defs]: "join_inv p \<longleftrightarrow>
     (\<forall>k < cancelled_upto (joiner p) (length (queues p)). m_is_cancelled (queues p ! k))
     \<and> (\<forall>j < joined_upto (joiner p) (length (m_threads p)). m_threads p ! j \<in> {NoThread, Exited})"

definition pool_inv :: "'t pool \<Rightarrow> bool" where
  pool_inv_def [inv_defs]: "pool_inv p \<longleftrightarrow> shape_inv p \<and> tasks_inv p \<and> join_inv p"

fun worker_weight :: "nat \<Rightarrow> 't worker \<Rightarrow> nat" where
  "worker_weight m (Scanning idx n) = (m - unat n) + 2"
| "worker_weight m (Popping idx) = 1"
| "worker_weight m (Running idx t) = m + 4"
| "worker_weight m Started = m + 3"
| "worker_weight m _ = 0"

fun joiner_weight :: "nat \<Rightarrow> joiner \<Rightarrow> nat" where
  "joiner_weight m (Clearing k) = (m - k) + (m + 2)"
| "joiner_weight m (Joining j) = (m - j) + 1"
| "joiner_weight m Joined = 0"
| "joiner_weight m NotJoining = 2 * m + 3"

text \<open>How many steps are left at most once nobody submits tasks any more.\<close>

definition pool_measure :: "'t pool \<Rightarrow> nat" where
  "pool_measure p =
     (let m = length (queues p)
      in sum_list (map (worker_weight m) (m_threads p))
         + (m + 4) * size (pending_tasks (m_scheduler p)) + joiner_weight m (joiner p))"

text \<open>A run without submissions, with its number of steps.\<close>

inductive shutdown_run :: "nat \<Rightarrow> 't pool \<Rightarrow> 't pool \<Rightarrow> bool" where
  run_start: "shutdown_run 0 p p"
| run_step: "shutdown_run k p p' \<Longrightarrow> pool_step a p' p'' \<Longrightarrow> (\<forall>t. a \<noteq> Submit t) \<Longrightarrow> shutdown_run (Suc k) p p''"

subsection \<open>What a worker's step does\<close>

lemma took_sel:
  assumes "took t s s'"
  shows "length (m_task_queue s') = length (m_task_queue s)"
    and "j < length (m_task_queue s) \<Longrightarrow>
           m_is_cancelled (m_task_queue s' ! j) = m_is_cancelled (m_task_queue s ! j)"
  using assms by (auto simp: took_def nth_list_update split: if_splits)

lemma shape_rr_ok: "shape_inv p \<Longrightarrow> rr_ok (m_scheduler p)"
  by (simp add: shape_inv_def rr_ok_def)

lemma shape_queue_size:
  assumes "shape_inv p"
  shows "ucast n = queue_size (m_scheduler p) \<longleftrightarrow> unat (n :: uint) = length (queues p)"
proof -
  from assms have "unat (queue_size (m_scheduler p)) = length (queues p)"
    by (intro unat_queue_size) (simp add: shape_inv_def)
  then show ?thesis by (metis unat_ucast_uint word_unat_eq_iff)
qed

text \<open>Seen from outside, a worker draws its index, takes the front task of some queue, moves on in
  its scan, goes to its own queue, leaves because that is cancelled, or finishes a task.\<close>

lemma work_step_cases:
  assumes "pool_step (Work i) p p'" and shape: "shape_inv p"
  obtains (first) idx where "worker_is p i Started"
      "p' = set_worker i (Scanning idx 0) (p\<lparr>m_scheduler := m_scheduler p\<lparr>m_pop_index := m_pop_index (m_scheduler p) + 1\<rparr>\<rparr>)"
  | (take_task) idx n t s' where
      "worker_is p i (Scanning idx n) \<or> worker_is p i (Popping idx)" "took t (m_scheduler p) s'"
      "p' = set_worker i (Running idx t) (p\<lparr>m_scheduler := s'\<rparr>)"
  | (next_queue) idx n where "worker_is p i (Scanning idx n)" "unat n \<noteq> length (queues p)"
      "p' = set_worker i (Scanning idx (n + 1)) p"
  | (own_queue) idx n where "worker_is p i (Scanning idx n)" "p' = set_worker i (Popping idx) p"
  | (leave) idx where "worker_is p i (Popping idx)" "m_is_cancelled (queues p ! slot idx 0 (m_scheduler p))"
      "p' = set_worker i Exited p"
  | (finish) idx t where "worker_is p i (Running idx t)"
      "p' = set_worker i (Scanning idx 0) (p\<lparr>executed := add_mset t (executed p)\<rparr>)"
  using assms(1)
proof (cases rule: pool_step.cases)
  case (first_call idx s')
  then show ?thesis by (intro first) (auto simp: thread_index_of_def)
next
  case (scan_hit idx n locked t s')
  then obtain q' where "try_pop (locked n) (queues p ! slot idx n (m_scheduler p)) = Returns (Some t) q'"
      "s' = set_queue (slot idx n (m_scheduler p)) q' (m_scheduler p)"
    by (cases rule: scan_body_cases [of locked idx n "m_scheduler p"]) auto
  then have "took t (m_scheduler p) s'"
    by (auto intro!: tookI slot_less shape_rr_ok shape dest: task_queue.try_get_some)
  with scan_hit show ?thesis by (intro take_task) auto
next
  case (scan_miss idx n locked s')
  then have "s' = m_scheduler p"
    by (cases rule: scan_body_cases [of locked idx n "m_scheduler p"]) auto
  with scan_miss show ?thesis by (intro next_queue) (auto simp: shape_queue_size [OF shape])
next
  case (scan_end idx n)
  then show ?thesis by (intro own_queue) auto
next
  case (pop_task idx k t q')
  then have "took t (m_scheduler p) (set_queue k q' (m_scheduler p))"
    by (auto intro!: tookI slot_less shape_rr_ok shape dest: task_queue.get_some)
  with pop_task show ?thesis by (intro take_task) auto
next
  case (pop_none idx k q')
  then show ?thesis by (intro leave) (auto simp: task_queue.get_none)
next
  case (run_task idx t)
  then show ?thesis by (intro finish) auto
qed

lemma submit_effect:
  assumes "pool_step (Submit t) p p'" and "shape_inv p"
  obtains k where "k < length (queues p)"
    "p' = p\<lparr>m_scheduler := set_queue k (push t (queues p ! k))
              (m_scheduler p\<lparr>m_push_index := m_push_index (m_scheduler p) + 1\<rparr>),
            submitted := add_mset t (submitted p)\<rparr>"
proof -
  obtain locked s' where s': "RRScheduler.schedule locked t (m_scheduler p) = Some s'"
      "p' = p\<lparr>m_scheduler := s', submitted := add_mset t (submitted p)\<rparr>"
    using assms(1) by (cases rule: submit_stepE) auto
  from schedule_effect [OF shape_rr_ok [OF assms(2)], of locked t] assms(2) s' that show ?thesis
    by (auto simp: shape_inv_def)
qed

subsection \<open>Invariant\<close>

lemma worker_ok_next:
  assumes "worker_ok m (Scanning idx n)" and "unat n \<noteq> m" and "m < 2 ^ 32"
  shows "worker_ok m (Scanning idx (n + 1)) \<and> unat (n + 1) = Suc (unat n)"
  using assms uint_succ_unat [of n] by simp

lemma shape_worker: "shape_inv p \<Longrightarrow> worker_is p i w \<Longrightarrow> worker_ok (length (queues p)) w"
  by (auto simp: shape_inv_def)

lemma shape_small: "shape_inv p \<Longrightarrow> length (queues p) < 2 ^ 32"
  by (simp add: shape_inv_def)

lemma shape_inv_set_worker:
  "shape_inv p \<Longrightarrow> worker_ok (length (queues p)) w \<Longrightarrow> shape_inv (set_worker i w p)"
  by (auto simp: shape_inv_def dest!: set_update_subset_insert [THEN subsetD])

lemma shape_inv_work:
  assumes "pool_step (Work i) p p'" and shape: "shape_inv p"
  shows "shape_inv p' \<and> length (queues p') = length (queues p) \<and> joiner p' = joiner p"
  using assms
proof (cases rule: work_step_cases)
  case (take_task idx n t s')
  from shape have "shape_inv (p\<lparr>m_scheduler := s'\<rparr>)"
    by (simp add: shape_inv_def took_sel(1) [OF take_task(2)])
  from shape_inv_set_worker [OF this, of "Running idx t" i] take_task show ?thesis
    by (simp add: took_sel(1))
next
  case (next_queue idx n)
  with shape_worker [OF shape next_queue(1)] shape show ?thesis
    by (auto intro!: shape_inv_set_worker simp del: worker_ok.simps
        dest!: worker_ok_next dest: shape_small)
qed (use shape shape_inv_set_worker [OF shape] in \<open>auto simp: shape_inv_def
       dest!: set_update_subset_insert [THEN subsetD]\<close>)

lemma running_set_worker:
  "worker_is p i w0 \<Longrightarrow>
     mset (concat (map running_task ((m_threads p)[i := w]))) + mset (running_task w0)
       = running_tasks p + mset (running_task w)"
  using mset_concat_update [of i "m_threads p" running_task w] by auto

lemma tasks_inv_work:
  assumes "pool_step (Work i) p p'" and "shape_inv p" and inv: "tasks_inv p"
  shows "tasks_inv p'"
  using assms(1,2)
proof (cases rule: work_step_cases)
  case (take_task idx n t s')
  with took_pending [OF take_task(2)] running_set_worker [where p = p and i = i and w = "Running idx t"] inv show ?thesis
    by (fastforce simp: tasks_inv_def)
next
  case (finish idx t)
  with running_set_worker [OF finish(1), of "Scanning idx 0"] inv show ?thesis
    by (simp add: tasks_inv_def)
qed (use inv running_set_worker [where p = p and i = i] in \<open>fastforce simp: tasks_inv_def\<close>)+

lemma joined_update:
  assumes "\<forall>j < u. ws ! j \<in> {NoThread, Exited}" and "i < length ws" and "ws ! i \<notin> {NoThread, Exited}"
  shows "\<forall>j < u. ws[i := w] ! j \<in> {NoThread, Exited}"
  using assms by (metis nth_list_update_neq)

lemma join_inv_set_worker:
  assumes "join_inv p" and "worker_is p i w0" and "w0 \<notin> {NoThread, Exited}"
  shows "join_inv (set_worker i w p)"
  using assms joined_update [of "joined_upto (joiner p) (length (m_threads p))" "m_threads p" i w]
  by (simp add: join_inv_def)

lemma join_inv_work:
  assumes "pool_step (Work i) p p'" and shape: "shape_inv p" and inv: "join_inv p"
  shows "join_inv p'"
  using assms(1,2)
proof (cases rule: work_step_cases)
  case (take_task idx n t s')
  have le: "cancelled_upto (joiner p) (length (queues p)) \<le> length (queues p)"
    using shape by (simp add: shape_inv_def)
  with inv have "join_inv (p\<lparr>m_scheduler := s'\<rparr>)"
    by (simp add: join_inv_def took_sel [OF take_task(2)])
  from join_inv_set_worker [OF this, of i _ "Running idx t"] take_task show ?thesis by auto
next
  case (first idx)
  from inv have "join_inv (p\<lparr>m_scheduler := m_scheduler p\<lparr>m_pop_index := m_pop_index (m_scheduler p) + 1\<rparr>\<rparr>)"
    by (simp add: join_inv_def)
  from join_inv_set_worker [OF this, of i] first show ?thesis by simp
next
  case (finish idx t)
  from inv have "join_inv (p\<lparr>executed := add_mset t (executed p)\<rparr>)" by (simp add: join_inv_def)
  from join_inv_set_worker [OF this, of i] finish show ?thesis by simp
qed (use join_inv_set_worker [OF inv, of i] in auto)

lemma pool_inv_work: "pool_step (Work i) p p' \<Longrightarrow> pool_inv p \<Longrightarrow> pool_inv p'"
  by (simp add: pool_inv_def shape_inv_work tasks_inv_work join_inv_work)

lemma pool_inv_submit:
  assumes "pool_step (Submit t) p p'" and inv: "pool_inv p"
  shows "pool_inv p'"
proof -
  have shape: "shape_inv p" using inv by (simp add: pool_inv_def)
  from assms(1) shape obtain k where k: "k < length (queues p)"
    "p' = p\<lparr>m_scheduler := set_queue k (push t (queues p ! k))
              (m_scheduler p\<lparr>m_push_index := m_push_index (m_scheduler p) + 1\<rparr>),
            submitted := add_mset t (submitted p)\<rparr>"
    by (rule submit_effect)
  have "pending_tasks (m_scheduler p') = add_mset t (pending_tasks (m_scheduler p))"
    using task_queue.pending_put [OF k(1), of t] by (simp add: k(2) task_queue.pending_def)
  moreover have "m_is_cancelled ((queues p)[k := push t (queues p ! k)] ! j) = m_is_cancelled (queues p ! j)"
    for j using k(1) by (auto simp: nth_list_update push_def)
  ultimately show ?thesis
    using inv by (simp add: k(2) inv_defs)
qed

lemma pool_inv_join:
  assumes "pool_step Join p p'" and inv: "pool_inv p"
  shows "pool_inv p'"
  using assms(1)
proof (cases rule: pool_step.cases)
  case (clear_queue k q)
  have "pending_tasks (m_scheduler p) =
      pending_tasks (set_queue k (clear q) (m_scheduler p)) + mset (m_container q)"
    using task_queue.pending_cancel [OF clear_queue(3)] clear_queue(4)
    by (simp add: task_queue.pending_def)
  with clear_queue inv show ?thesis
    by (auto simp: inv_defs nth_list_update clear_def less_Suc_eq)
next
  case (join_thread j)
  with inv show ?thesis
    by (auto simp: inv_defs less_Suc_eq)
qed (use inv in \<open>auto simp: inv_defs\<close>)

lemma spawn_threads_sel:
  "length (spawn_threads spawn i n) = n"
  "w \<in> set (spawn_threads spawn i n) \<Longrightarrow> w = Started \<or> w = NoThread"
  by (induction n arbitrary: i) (auto split: if_splits)

lemma spawn_threads_all: "\<forall>j < n. spawn (i + j) \<Longrightarrow> spawn_threads spawn i n = replicate n Started"
proof (induction n arbitrary: i)
  case (Suc n)
  from Suc.prems have "spawn i" and "\<forall>j < n. spawn (Suc i + j)"
    by (force, metis Suc_less_eq add_Suc add_Suc_right)
  with Suc.IH show ?case by simp
qed simp

lemma spawn_threads_fails: "j < n \<Longrightarrow> \<not> spawn (i + j) \<Longrightarrow> NoThread \<in> set (spawn_threads spawn i n)"
proof (induction n arbitrary: i j)
  case (Suc n)
  show ?case
  proof (cases j)
    case (Suc j')
    with Suc.prems Suc.IH [of j' "Suc i"] show ?thesis by simp
  qed (use Suc.prems in simp)
qed simp

lemma running_none:
  "(\<forall>w \<in> set ws. running_task w = []) \<Longrightarrow> concat (map running_task ws) = []"
  by simp

text \<open>A pool whose constructor has run. With fewer than \<open>2^30\<close> threads the 32-bit counter of
  \<open>schedule\<close> reaches its limit of four times as many attempts.\<close>

definition pool_start :: "'t pool \<Rightarrow> bool" where
  "pool_start p \<longleftrightarrow> (\<exists>spawn requested. thread_pool_new spawn requested = Inr p \<and> unat requested < 2 ^ 30)"

lemma unat_thread_count: "unat (thread_count r) = max 1 (unat r)"
  by (simp add: thread_count_def max_def word_le_nat_alt)

lemma thread_count_nonzero: "thread_count r \<noteq> 0"
  using unat_thread_count [of r] by fastforce

lemma thread_pool_new_Inr:
  "thread_pool_new spawn r = Inr p \<longleftrightarrow>
     (let threads = spawn_threads spawn 0 (unat (thread_count r))
      in p = \<lparr>m_scheduler = \<lparr>m_task_queue = replicate (unat (thread_count r)) queue_new,
                             m_push_index = 0, m_pop_index = 0\<rparr>,
              m_threads = threads, joiner = (if NoThread \<in> set threads then Clearing 0 else NotJoining),
              submitted = {#}, executed = {#}, dropped = {#}\<rparr>)"
  unfolding thread_pool_new_def result_bind_eq_Inr
  by (auto simp: rr_scheduler_new_Inr thread_count_nonzero Let_def)

lemma pool_inv_start: "pool_start p \<Longrightarrow> pool_inv p"
  unfolding pool_start_def
proof (elim exE conjE)
  fix spawn r
  assume p: "thread_pool_new spawn r = Inr p" and r: "unat r < 2 ^ 30"
  have m: "0 < unat (thread_count r)" "4 * unat (thread_count r) < 2 ^ 32"
    using r by (auto simp: unat_thread_count)
  have "concat (map running_task (spawn_threads spawn 0 (unat (thread_count r)))) = []"
    by (rule running_none) (auto dest!: spawn_threads_sel(2))
  with p m show "pool_inv p"
    by (auto simp: thread_pool_new_Inr Let_def inv_defs
        queue_new_def spawn_threads_sel(1) dest!: spawn_threads_sel(2))
qed

interpretation pool: invariant_relation pool_step pool_start pool_inv
proof unfold_locales
  fix p p' :: "'t pool" and a
  assume "pool_inv p" and "pool_step a p p'"
  then show "pool_inv p'"
    by (cases a) (auto intro: pool_inv_submit pool_inv_work pool_inv_join)
qed (rule pool_inv_start)

subsection \<open>Termination of the shutdown\<close>

lemma weight_set_worker:
  "worker_is p i w0 \<Longrightarrow>
     sum_list (map (worker_weight m) ((m_threads p)[i := w])) + worker_weight m w0
       = sum_list (map (worker_weight m) (m_threads p)) + worker_weight m w"
  using sum_list_map_update [of i "m_threads p" "worker_weight m" w] by auto

lemma took_size: "took t s s' \<Longrightarrow> size (pending_tasks s) = Suc (size (pending_tasks s'))"
  by (subst took_pending, assumption) simp

lemma measure_work:
  fixes p :: "'t pool"
  assumes "pool_step (Work i) p p'" and shape: "shape_inv p"
  shows "pool_measure p' < pool_measure p"
proof -
  let ?m = "length (queues p)"
  note weight = weight_set_worker [where p = p and i = i and m = ?m]
  from assms show ?thesis
  proof (cases rule: work_step_cases)
    case (take_task idx n t s')
    then obtain w0 where w0: "worker_is p i w0" "0 < worker_weight ?m w0" by auto
    from weight [OF w0(1), of "Running idx t"] w0(2) take_task show ?thesis
      by (simp add: pool_measure_def Let_def took_sel(1) took_size [OF take_task(2)] del: size_mset)
  next
    case (next_queue idx n)
    note ok = worker_ok_next [OF shape_worker [OF shape next_queue(1)] next_queue(2) shape_small [OF shape]]
    have less: "worker_weight ?m (Scanning idx n :: 't worker) =
        Suc (worker_weight ?m (Scanning idx (n + 1) :: 't worker))"
      using ok by (auto simp: Suc_diff_Suc)
    from weight [OF next_queue(1), of "Scanning idx (n + 1)"] next_queue show ?thesis
      by (simp add: less pool_measure_def Let_def del: size_mset worker_weight.simps)
  next
    case (first idx)
    from weight [OF first(1), of "Scanning idx 0"] first show ?thesis
      by (simp add: pool_measure_def Let_def del: size_mset)
  next
    case (own_queue idx n)
    from weight [OF own_queue(1), of "Popping idx"] own_queue show ?thesis
      by (simp add: pool_measure_def Let_def del: size_mset)
  next
    case (leave idx)
    from weight [OF leave(1), of Exited] leave show ?thesis
      by (simp add: pool_measure_def Let_def del: size_mset)
  next
    case (finish idx t)
    from weight [OF finish(1), of "Scanning idx 0"] finish show ?thesis
      by (simp add: pool_measure_def Let_def del: size_mset)
  qed
qed

lemma clear_weight_arith:
  fixes a b c k m w :: nat
  assumes "a \<le> b" and "k < m"
  shows "w + c * a + ((m - Suc k) + (m + 2)) < w + c * b + ((m - k) + (m + 2))"
  using assms mult_le_mono2 [OF assms(1), of c] by arith

lemma measure_join:
  assumes "pool_step Join p p'" and shape: "shape_inv p"
  shows "pool_measure p' < pool_measure p"
  using assms(1)
proof (cases rule: pool_step.cases)
  case (clear_queue k q)
  have "pending_tasks (m_scheduler p) =
      pending_tasks (set_queue k (clear q) (m_scheduler p)) + mset (m_container q)"
    using task_queue.pending_cancel [OF clear_queue(3)] clear_queue(4)
    by (simp add: task_queue.pending_def)
  then have "size (pending_tasks (set_queue k (clear q) (m_scheduler p))) \<le> size (pending_tasks (m_scheduler p))"
    by simp
  from clear_weight_arith [OF this clear_queue(3), of _ "length (queues p) + 4"] clear_queue
  show ?thesis unfolding pool_measure_def Let_def by (simp del: size_mset)
qed (use shape in \<open>auto simp: pool_measure_def Let_def shape_inv_def\<close>)

lemma measure_step:
  assumes "pool_step a p p'" and "\<forall>t. a \<noteq> Submit t" and "pool_inv p"
  shows "pool_measure p' < pool_measure p"
proof (cases a)
  case (Work i)
  with assms show ?thesis by (auto simp: pool_inv_def intro: measure_work)
next
  case Join
  with assms show ?thesis by (auto simp: pool_inv_def intro: measure_join)
qed (use assms(2) in simp)

lemma shutdown_run_measure:
  assumes "shutdown_run k p p'" and "pool_inv p"
  shows "pool_inv p' \<and> k + pool_measure p' \<le> pool_measure p"
  using assms
proof induction
  case (run_step k p p' a p'')
  then show ?case using measure_step [of a p' p''] pool.inv_rel [of p' a p''] by auto
qed simp

text \<open>A worker that is neither done nor in \<open>pop()\<close> can always step.\<close>

lemma worker_moves:
  assumes "worker_is p i w" and "w \<notin> {NoThread, Exited}" and "\<And>idx. w \<noteq> Popping idx"
  shows "\<exists>p'. pool_step (Work i) p p'"
proof (cases w)
  case Started
  then show ?thesis using assms(1) by (fastforce intro: first_call simp: thread_index_of_def)
next
  case (Scanning idx n)
  obtain r s' where r: "scan_body (\<lambda>_. True) idx n (m_scheduler p) = (r, s')" by fastforce
  show ?thesis
  proof (cases "ucast n = queue_size (m_scheduler p)")
    case True
    then show ?thesis using assms(1) Scanning by (blast intro: scan_end)
  next
    case False
    then show ?thesis using assms(1) Scanning r
      by (cases r) (blast intro: scan_miss scan_hit)+
  qed
next
  case (Running idx t)
  then show ?thesis using assms(1) by (blast intro: run_task)
qed (use assms in auto)

text \<open>One in \<open>pop()\<close> can unless its queue is empty and not cancelled.\<close>

lemma popping_moves:
  assumes "worker_is p i (Popping idx)" and "pop (queues p ! slot idx 0 (m_scheduler p)) \<noteq> Blocks"
  shows "\<exists>p'. pool_step (Work i) p p'"
proof (cases "pop (queues p ! slot idx 0 (m_scheduler p))")
  case (Returns r q')
  with assms(1) show ?thesis by (cases r) (blast intro: pop_none pop_task)+
qed (use assms(2) task_queue.get_defined in auto)

lemma worker_progress:
  assumes "worker_is p i w" and "w \<notin> {NoThread, Exited}" and shape: "shape_inv p"
    and cancelled: "\<forall>k < length (queues p). m_is_cancelled (queues p ! k)"
  shows "\<exists>p'. pool_step (Work i) p p'"
proof (cases "\<exists>idx. w = Popping idx")
  case True
  then obtain idx where idx: "w = Popping idx" by blast
  have "m_is_cancelled (queues p ! slot idx 0 (m_scheduler p))"
    using cancelled slot_less [OF shape_rr_ok [OF shape]] by blast
  then have "pop (queues p ! slot idx 0 (m_scheduler p)) \<noteq> Blocks" by (simp add: pop_eq)
  with assms(1) idx show ?thesis by (blast intro: popping_moves)
qed (use assms worker_moves in blast)

lemma join_progress:
  assumes inv: "pool_inv p" and "joiner p \<noteq> Joined"
  shows "\<exists>a p'. pool_step a p p' \<and> (\<forall>t. a \<noteq> Submit t)"
proof (cases "joiner p")
  case NotJoining
  then show ?thesis by (blast intro: destroy)
next
  case (Clearing k)
  then have "k < length (queues p) \<or> k = length (queues p)"
    using inv by (auto simp: pool_inv_def shape_inv_def)
  with Clearing show ?thesis by (blast intro: clear_queue cleared)
next
  case (Joining j)
  show ?thesis
  proof (cases "j < length (m_threads p) \<and> m_threads p ! j \<notin> {NoThread, Exited}")
    case True
    moreover from inv Joining have "\<forall>k < length (queues p). m_is_cancelled (queues p ! k)"
      by (simp add: pool_inv_def join_inv_def)
    ultimately have "\<exists>p'. pool_step (Work j) p p'"
      using inv by (intro worker_progress [OF _ _ _]) (auto simp: pool_inv_def)
    then show ?thesis by blast
  next
    case False
    moreover have "j \<le> length (m_threads p)"
      using inv Joining by (simp add: pool_inv_def shape_inv_def)
    ultimately show ?thesis using Joining
      by (cases "j = length (m_threads p)") (blast intro: all_joined, force intro: join_thread)
  qed
qed (use assms(2) in auto)

subsection \<open>Properties\<close>

text \<open>A pool of one worker, as the constructor leaves it and then as its destructor runs: the
  worker starts, scans its empty cancelled queue, leaves, and is joined.\<close>

abbreviation one_pool :: "'t queue \<Rightarrow> uint \<Rightarrow> 't worker \<Rightarrow> joiner \<Rightarrow> 't pool" where
  "one_pool q i w j \<equiv>
     \<lparr>m_scheduler = \<lparr>m_task_queue = [q], m_push_index = 0, m_pop_index = i\<rparr>,
      m_threads = [w], joiner = j, submitted = {#}, executed = {#}, dropped = {#}\<rparr>"

lemma one_pool_new: "thread_pool_new (\<lambda>_. True) 1 = Inr (one_pool queue_new 0 Started NotJoining)"
  by (simp add: thread_pool_new_Inr Let_def thread_count_def)

lemmas pool_eval = queue_new_def clear_def scan_body_def slot_def queue_size_def set_queue_def
  thread_index_of_def step_simps Let_def

lemma one_pool_shutdown:
  "shutdown_run 9 (one_pool queue_new 0 Started NotJoining :: 't pool)
     (one_pool (clear queue_new) 1 Exited Joined)"
proof -
  let ?c = "clear queue_new :: 't queue"
  let ?p = "one_pool queue_new 0 Started NotJoining :: 't pool"
  have 1: "shutdown_run 1 ?p (one_pool queue_new 0 Started (Clearing 0))"
    using run_step [OF run_start destroy, of ?p] by simp
  have 2: "shutdown_run 2 ?p (one_pool ?c 0 Started (Clearing 1))"
    using run_step [OF 1 clear_queue, of 0 queue_new] by (simp add: pool_eval numeral_2_eq_2)
  have 3: "shutdown_run 3 ?p (one_pool ?c 0 Started (Joining 0))"
    using run_step [OF 2 cleared, of 1] by simp
  have 4: "shutdown_run 4 ?p (one_pool ?c 1 (Scanning 0 0) (Joining 0))"
    using run_step [OF 3 first_call, of 0] by (simp add: pool_eval)
  have 5: "shutdown_run 5 ?p (one_pool ?c 1 (Scanning 0 1) (Joining 0))"
    using run_step [OF 4 scan_miss, of 0 0 0 "\<lambda>_. True"] by (simp add: pool_eval)
  have 6: "shutdown_run 6 ?p (one_pool ?c 1 (Popping 0) (Joining 0))"
    using run_step [OF 5 scan_end, of 0 0 1] by (simp add: pool_eval)
  have 7: "shutdown_run 7 ?p (one_pool ?c 1 Exited (Joining 0))"
    using run_step [OF 6 pop_none, of 0 0 0] by (simp add: pool_eval)
  have 8: "shutdown_run 8 ?p (one_pool ?c 1 Exited (Joining 1))"
    using run_step [OF 7 join_thread, of 0] by simp
  show ?thesis
    using run_step [OF 8 all_joined, of 1] by simp
qed

lemma shutdown_run_reaches: "shutdown_run k p p' \<Longrightarrow> reaches pool_step p p'"
  by (induction rule: shutdown_run.induct) (auto intro: reaches.intros)

text \<open>C14: no task is lost or run twice. At every moment of every run of the pool, with any
  number of clients submitting and whether or not the pool is shutting down, the tasks
  submitted so far are exactly those waiting in a queue, those being executed, those executed
  and those dropped by the shutdown's \<open>clear()\<close>, each as often as it was submitted.\<close>

theorem pool_tasks_conserved:
  assumes "thread_pool_new spawn requested = Inr p0" and "unat requested < 2 ^ 30"
    and "reaches pool_step p0 p"
  shows "submitted p = pending_tasks (m_scheduler p) + running_tasks p + executed p + dropped p"
proof -
  have "pool_start p0" using assms(1,2) by (auto simp: pool_start_def)
  from pool.inv_reaches [OF assms(3) this] show ?thesis
    by (simp add: pool_inv_def tasks_inv_def)
qed

theorem pool_tasks_conserved_witness:
  "\<exists>p0 p. thread_pool_new (\<lambda>_. True) 1 = Inr p0 \<and> reaches pool_step p0 p
     \<and> submitted p = {#7::nat#} \<and> pending_tasks (m_scheduler p) + running_tasks p + executed p + dropped p = {#7#}"
proof -
  let ?start = "one_pool queue_new 0 Started NotJoining :: nat pool"
  obtain s' where s': "RRScheduler.schedule (\<lambda>_. True) 7 (m_scheduler ?start) = Some s'"
    using schedule_effect [of "m_scheduler ?start" "\<lambda>_. True" 7] by (auto simp: rr_ok_def)
  let ?p = "?start\<lparr>m_scheduler := s', submitted := add_mset 7 (submitted ?start)\<rparr>"
  have st: "pool_step (Submit 7) ?start ?p" by (rule submit [OF s'])
  have r: "reaches pool_step ?start ?p" by (rule reaches_step [where rel = pool_step, OF reaches_start st])
  from pool_tasks_conserved [OF one_pool_new _ r] one_pool_new r show ?thesis
    by (intro exI [of _ ?start] exI [of _ ?p]) (simp only:, simp)
qed

lemma joined_pool:
  assumes inv: "pool_inv p" and "joiner p = Joined"
  shows "set (m_threads p) \<subseteq> {NoThread, Exited} \<and> (\<forall>q \<in> set (queues p). m_is_cancelled q)
    \<and> running_tasks p = {#}"
proof -
  have exited: "set (m_threads p) \<subseteq> {NoThread, Exited}"
    using assms by (fastforce simp: pool_inv_def join_inv_def in_set_conv_nth)
  moreover have "\<forall>q \<in> set (queues p). m_is_cancelled q"
    using assms by (auto simp: pool_inv_def join_inv_def in_set_conv_nth)
  moreover from exited have "concat (map running_task (m_threads p)) = []"
    by (intro running_none) auto
  ultimately show ?thesis by simp
qed

text \<open>C16: when \<open>join()\<close> has finished, in the destructor or on the constructor's error path, no
  worker is left inside \<open>run()\<close>, so no worker touches the scheduler that is destroyed next;
  every queue is cancelled, and no task is in execution.\<close>

theorem pool_join_complete:
  assumes "thread_pool_new spawn requested = Inr p0" and "unat requested < 2 ^ 30"
    and "reaches pool_step p0 p" and "joiner p = Joined"
  shows "set (m_threads p) \<subseteq> {NoThread, Exited} \<and> (\<forall>q \<in> set (queues p). m_is_cancelled q)
    \<and> running_tasks p = {#}"
proof -
  have "pool_start p0" using assms(1,2) by (auto simp: pool_start_def)
  from pool.inv_reaches [OF assms(3) this] assms(4) show ?thesis by (rule joined_pool)
qed

theorem pool_join_complete_witness:
  "\<exists>p0 p :: nat pool. thread_pool_new (\<lambda>_. True) 1 = Inr p0 \<and> reaches pool_step p0 p \<and> joiner p = Joined
     \<and> set (m_threads p) \<subseteq> {NoThread, Exited} \<and> (\<forall>q \<in> set (queues p). m_is_cancelled q)"
  using pool_join_complete [OF one_pool_new _ shutdown_run_reaches [OF one_pool_shutdown]]
    one_pool_new shutdown_run_reaches [OF one_pool_shutdown]
  by (intro exI) auto

text \<open>C17: the shutdown ends. Once nobody submits any more, every run of the pool is finite, of
  at most \<open>pool_measure\<close> steps whatever the scheduler of the operating system does; and as long
  as \<open>join()\<close> has not finished some step is possible, so a run that cannot be continued has
  joined every worker.\<close>

theorem pool_shutdown_terminates:
  assumes "thread_pool_new spawn requested = Inr p0" and "unat requested < 2 ^ 30"
    and "reaches pool_step p0 p" and "shutdown_run k p p'"
  shows "k \<le> pool_measure p
    \<and> (joiner p' = Joined \<or> (\<exists>a p''. pool_step a p' p'' \<and> (\<forall>t. a \<noteq> Submit t)))"
proof -
  have "pool_start p0" using assms(1,2) by (auto simp: pool_start_def)
  from pool.inv_reaches [OF assms(3) this] have "pool_inv p" .
  from shutdown_run_measure [OF assms(4) this] join_progress [of p'] show ?thesis by auto
qed

theorem pool_shutdown_terminates_witness:
  "\<exists>p0 p :: nat pool. thread_pool_new (\<lambda>_. True) 1 = Inr p0 \<and> shutdown_run 9 p0 p \<and> joiner p = Joined
     \<and> 9 \<le> pool_measure p0"
proof -
  have "9 \<le> pool_measure (one_pool queue_new 0 Started NotJoining :: nat pool)"
    using pool_shutdown_terminates [OF one_pool_new _ reaches_start one_pool_shutdown, where ?'a = nat]
    by simp
  with one_pool_new one_pool_shutdown show ?thesis by (intro exI conjI) auto
qed

text \<open>The constructor. For every requested thread count, zero included, the scheduler's
  constructor gets a positive count and does not throw; the pool has at least one worker and
  one queue per worker, all workers running if every thread could be started; and if starting
  a thread fails the error path begins by clearing the scheduler.\<close>

theorem pool_constructor:
  "\<exists>p :: 't pool. thread_pool_new spawn requested = Inr p
     \<and> length (m_threads p) = max 1 (unat requested) \<and> length (queues p) = length (m_threads p)
     \<and> pending_tasks (m_scheduler p) = {#}
     \<and> (if \<forall>i < length (m_threads p). spawn i then set (m_threads p) = {Started} \<and> joiner p = NotJoining
        else NoThread \<in> set (m_threads p) \<and> joiner p = Clearing 0)"
proof -
  let ?n = "unat (thread_count requested)"
  let ?ws = "spawn_threads spawn 0 ?n :: 't worker list"
  let ?p = "\<lparr>m_scheduler = \<lparr>m_task_queue = replicate ?n queue_new, m_push_index = 0, m_pop_index = 0\<rparr>,
      m_threads = ?ws, joiner = (if NoThread \<in> set ?ws then Clearing 0 else NotJoining),
      submitted = {#}, executed = {#}, dropped = {#}\<rparr> :: 't pool"
  have n: "?n = max 1 (unat requested)" by (rule unat_thread_count)
  have new: "thread_pool_new spawn requested = Inr ?p" by (simp add: thread_pool_new_Inr Let_def)
  have ws: "if \<forall>i < ?n. spawn i then set ?ws = {Started} else NoThread \<in> set ?ws"
    using spawn_threads_fails [of _ ?n spawn 0] n by (auto simp: spawn_threads_all)
  then have "if \<forall>i < length (m_threads ?p). spawn i then set (m_threads ?p) = {Started} \<and> joiner ?p = NotJoining
      else NoThread \<in> set (m_threads ?p) \<and> joiner ?p = Clearing 0"
    by (cases "\<forall>i < ?n. spawn i") (simp_all only: spawn_threads_sel(1) pool.simps, auto)
  then show ?thesis
    by (intro exI [of _ ?p] conjI new) (simp_all only: spawn_threads_sel(1) n pool.simps, auto simp: queue_new_def)
qed

theorem pool_constructor_witness:
  "\<exists>p :: nat pool. thread_pool_new (\<lambda>i. i < 1) 3 = Inr p \<and> NoThread \<in> set (m_threads p)
     \<and> joiner p = Clearing 0"
proof -
  have no: "(\<forall>i < 3. i < (1::nat)) = False" by (auto intro: exI [of _ 2])
  from pool_constructor [of "\<lambda>i. i < 1" 3, where ?'t = nat] obtain p :: "nat pool" where
    p: "thread_pool_new (\<lambda>i. i < 1) 3 = Inr p" "length (m_threads p) = 3"
      "if \<forall>i < length (m_threads p). i < 1 then set (m_threads p) = {Started} \<and> joiner p = NotJoining
       else NoThread \<in> set (m_threads p) \<and> joiner p = Clearing 0"
    by (elim exE conjE) (simp del: less_one)
  from p(3) [unfolded p(2) no if_False] p(1) show ?thesis by blast
qed

end
