(* ===== verification/Future.thy ===== *)
theory Future
  imports Prelude
begin

section \<open>Futures and promises (\<open>future.hpp\<close>)\<close>

text \<open>
  \<open>details::future_result\<close>, \<open>details::shared_state\<close>, \<open>future\<close> and \<open>promise\<close>. The first part
  models the operations run one at a time. The second part models the two handle types over
  a store of shared states, with the null pointers that moving leaves behind. The third part
  is the interleaving model of any number of threads that settle one shared state and any
  number that wait for it: the compare-and-exchange, the write of \<open>m_data\<close> and the notification
  are separate steps, and none of them takes the mutex. The locale \<open>one_shot\<close> is the contract
  that the shared state shares with the callback receiver: the first settlement wins.
\<close>

subsection \<open>Results\<close>

record 'v future_result =
  m_value :: "'v option"

definition result_of_value :: "'v \<Rightarrow> 'v future_result" where
  "result_of_value v = \<lparr>m_value = Some v\<rparr>"

definition result_nullopt :: "'v future_result" where
  "result_nullopt = \<lparr>m_value = None\<rparr>"

definition result_value :: "'v future_result \<Rightarrow> 'v result" where
  "result_value r = (case m_value r of None \<Rightarrow> Inl BadOptionalAccess | Some v \<Rightarrow> Inr v)"

definition result_bool :: "'v future_result \<Rightarrow> bool" where
  "result_bool r \<longleftrightarrow> m_value r \<noteq> None"

definition result_is_canceled :: "'v future_result \<Rightarrow> bool" where
  "result_is_canceled r \<longleftrightarrow> m_value r = None"

text \<open>The specialisation for \<open>void\<close> keeps a flag instead of an optional.\<close>

record future_result_void =
  m_is_canceled :: bool

definition void_result :: future_result_void where
  "void_result = \<lparr>m_is_canceled = False\<rparr>"

definition void_nullopt :: future_result_void where
  "void_nullopt = \<lparr>m_is_canceled = True\<rparr>"

definition void_bool :: "future_result_void \<Rightarrow> bool" where
  "void_bool r \<longleftrightarrow> \<not> m_is_canceled r"

definition void_of :: "unit future_result \<Rightarrow> future_result_void" where
  "void_of r = (if result_is_canceled r then void_nullopt else void_result)"

subsection \<open>The shared state\<close>

datatype state = Init | Value | Error | Canceled | Broken

datatype 'v data = Monostate | ExceptionPtr exn | ResultData "'v future_result"

record 'v shared_state =
  m_data :: "'v data"
  m_state :: state

definition shared_state_new :: "'v shared_state" where
  "shared_state_new = \<lparr>m_data = Monostate, m_state = Init\<rparr>"

definition is_ready :: "'v shared_state \<Rightarrow> bool" where
  "is_ready s \<longleftrightarrow> Init \<noteq> m_state s"

definition is_canceled :: "'v shared_state \<Rightarrow> bool" where
  "is_canceled s \<longleftrightarrow> Canceled = m_state s"

definition set_value :: "'v future_result \<Rightarrow> 'v shared_state \<Rightarrow> 'v shared_state" where
  "set_value v s =
     (let (stored, st) = compare_exchange_strong (m_state s) Init Value
      in if stored then s\<lparr>m_state := st, m_data := ResultData v\<rparr> else s)"

definition set_exception :: "exn \<Rightarrow> 'v shared_state \<Rightarrow> 'v shared_state" where
  "set_exception e s =
     (let (stored, st) = compare_exchange_strong (m_state s) Init Error
      in if stored then s\<lparr>m_state := st, m_data := ExceptionPtr e\<rparr> else s)"

definition cancel :: "'v shared_state \<Rightarrow> 'v shared_state" where
  "cancel s =
     (let (stored, st) = compare_exchange_strong (m_state s) Init Canceled
      in if stored then s\<lparr>m_state := st, m_data := ResultData result_nullopt\<rparr> else s)"

definition broken :: "'v shared_state \<Rightarrow> 'v shared_state" where
  "broken s =
     (let (stored, st) = compare_exchange_strong (m_state s) Init Broken
      in if stored then s\<lparr>m_state := st\<rparr> else s)"

text \<open>The switch of \<open>get\<close>, after \<open>wait\<close>. Returning \<open>std::move\<close> of the result leaves a moved-from
  value in \<open>m_data\<close>: \<open>moved\<close> says what the move constructor of the value type leaves behind. A
  moved-from \<open>std::optional\<close> still has a value.\<close>

definition moved_result :: "('v \<Rightarrow> 'v) \<Rightarrow> 'v future_result \<Rightarrow> 'v future_result" where
  "moved_result moved r = \<lparr>m_value = map_option moved (m_value r)\<rparr>"

fun get_switch ::
  "('v \<Rightarrow> 'v) \<Rightarrow> state \<Rightarrow> 'v shared_state \<Rightarrow> 'v future_result result \<times> 'v shared_state" where
  "get_switch moved Canceled s =
     (case m_data s of
        ResultData r \<Rightarrow> (Inr r, s\<lparr>m_data := ResultData (moved_result moved r)\<rparr>)
      | _ \<Rightarrow> (Inl BadVariantAccess, s))"
| "get_switch moved Value s =
     (case m_data s of
        ResultData r \<Rightarrow> (Inr r, s\<lparr>m_data := ResultData (moved_result moved r)\<rparr>)
      | _ \<Rightarrow> (Inl BadVariantAccess, s))"
| "get_switch moved Error s =
     (case m_data s of ExceptionPtr e \<Rightarrow> (Inl e, s) | _ \<Rightarrow> (Inl BadVariantAccess, s))"
| "get_switch moved Broken s = (Inl (DomainError ''broken promise''), s)"
| "get_switch moved Init s = (Inl (DomainError ''shared state broken''), s)"

text \<open>\<open>get\<close> with nobody interfering: \<open>None\<close> when \<open>wait\<close> blocks.\<close>

definition get :: "('v \<Rightarrow> 'v) \<Rightarrow> 'v shared_state \<Rightarrow> ('v future_result result \<times> 'v shared_state) option" where
  "get moved s = (if is_ready s then Some (get_switch moved (m_state s) s) else None)"

subsection \<open>Promise and future\<close>

text \<open>\<open>std::shared_ptr\<close> as an index into the store of shared states; \<open>None\<close> is the null pointer
  and dereferencing it is undefined behaviour, also \<open>None\<close> below.\<close>

type_synonym shared_ptr = "nat option"

type_synonym 'v store = "'v shared_state list"

record promise =
  p_shared_state :: shared_ptr

record future =
  f_shared_state :: shared_ptr

fun deref :: "shared_ptr \<Rightarrow> 'v store \<Rightarrow> 'v shared_state option" where
  "deref None h = None"
| "deref (Some a) h = (if a < length h then Some (h ! a) else None)"

definition modify :: "shared_ptr \<Rightarrow> ('v shared_state \<Rightarrow> 'v shared_state) \<Rightarrow> 'v store \<Rightarrow> 'v store option" where
  "modify p f h = (case deref p h of None \<Rightarrow> None | Some s \<Rightarrow> Some (h[the p := f s]))"

definition promise_new :: "'v store \<Rightarrow> promise \<times> 'v store" where
  "promise_new h = (\<lparr>p_shared_state = Some (length h)\<rparr>, h @ [shared_state_new])"

definition promise_destroy :: "promise \<Rightarrow> 'v store \<Rightarrow> 'v store option" where
  "promise_destroy p h = (if p_shared_state p \<noteq> None then modify (p_shared_state p) broken h else Some h)"

text \<open>The defaulted moves: \<open>(target, source)\<close> afterwards.\<close>

definition promise_move :: "promise \<Rightarrow> promise \<times> promise" where
  "promise_move other = (other, \<lparr>p_shared_state = None\<rparr>)"

definition promise_move_assign :: "promise \<Rightarrow> promise \<Rightarrow> promise \<times> promise" where
  "promise_move_assign this other = (other, \<lparr>p_shared_state = None\<rparr>)"

text \<open>The private constructor of \<open>future\<close>, by which \<open>get_future\<close> makes one.\<close>

definition future_of_state :: "shared_ptr \<Rightarrow> future" where
  "future_of_state state = \<lparr>f_shared_state = state\<rparr>"

definition get_future :: "promise \<Rightarrow> future" where
  "get_future p = future_of_state (p_shared_state p)"

definition promise_set_value :: "'v \<Rightarrow> promise \<Rightarrow> 'v store \<Rightarrow> 'v store option" where
  "promise_set_value v p h = modify (p_shared_state p) (set_value (result_of_value v)) h"

definition promise_set_exception :: "exn \<Rightarrow> promise \<Rightarrow> 'v store \<Rightarrow> 'v store option" where
  "promise_set_exception e p h = modify (p_shared_state p) (set_exception e) h"

definition promise_cancel :: "promise \<Rightarrow> 'v store \<Rightarrow> 'v store option" where
  "promise_cancel p h = modify (p_shared_state p) cancel h"

definition promise_is_canceled :: "promise \<Rightarrow> 'v store \<Rightarrow> bool option" where
  "promise_is_canceled p h = map_option is_canceled (deref (p_shared_state p) h)"

definition future_new :: future where
  "future_new = \<lparr>f_shared_state = None\<rparr>"

text \<open>Moving a future empties the other one; the defaulted destructor drops the pointer and leaves
  the shared state as it is.\<close>

definition future_move :: "future \<Rightarrow> future \<times> future" where
  "future_move other = (other, \<lparr>f_shared_state = None\<rparr>)"

definition future_move_assign :: "future \<Rightarrow> future \<Rightarrow> future \<times> future" where
  "future_move_assign this other = (other, \<lparr>f_shared_state = None\<rparr>)"

definition future_destroy :: "future \<Rightarrow> 'v store \<Rightarrow> 'v store" where
  "future_destroy f h = h"

definition is_valid :: "future \<Rightarrow> bool" where
  "is_valid f \<longleftrightarrow> f_shared_state f \<noteq> None"

definition future_cancel :: "future \<Rightarrow> 'v store \<Rightarrow> 'v store option" where
  "future_cancel f h = modify (f_shared_state f) cancel h"

text \<open>\<open>wait\<close> and \<open>get\<close> of the future: undefined behaviour, blocked, or a result.\<close>

datatype ('v, 'h) get_outcome = UndefinedBehaviour | Blocked | Result "'v future_result result" 'h

definition future_wait :: "future \<Rightarrow> 'v store \<Rightarrow> bool option" where
  "future_wait f h = map_option is_ready (deref (f_shared_state f) h)"

definition future_get :: "('v \<Rightarrow> 'v) \<Rightarrow> future \<Rightarrow> 'v store \<Rightarrow> ('v, 'v store) get_outcome" where
  "future_get moved f h =
     (case deref (f_shared_state f) h of
        None \<Rightarrow> UndefinedBehaviour
      | Some s \<Rightarrow>
          (case get moved s of
             None \<Rightarrow> Blocked
           | Some (r, s') \<Rightarrow> Result r (h[the (f_shared_state f) := s'])))"

subsection \<open>Settlements\<close>

text \<open>The four ways to settle a shared state, what \<open>get\<close> returns after each, and the two parts
  of each: the value the compare-and-exchange stores and the write of \<open>m_data\<close> after it.\<close>

datatype 'v settlement =
    SetValue "'v future_result"
  | SetException exn
  | Cancel
  | Break

fun settle :: "'v settlement \<Rightarrow> 'v shared_state \<Rightarrow> 'v shared_state" where
  "settle (SetValue r) s = set_value r s"
| "settle (SetException e) s = set_exception e s"
| "settle Cancel s = cancel s"
| "settle Break s = broken s"

fun settled_as :: "'v settlement \<Rightarrow> state" where
  "settled_as (SetValue r) = Value"
| "settled_as (SetException e) = Error"
| "settled_as Cancel = Canceled"
| "settled_as Break = Broken"

fun settled_data :: "'v settlement \<Rightarrow> 'v data" where
  "settled_data (SetValue r) = ResultData r"
| "settled_data (SetException e) = ExceptionPtr e"
| "settled_data Cancel = ResultData result_nullopt"
| "settled_data Break = Monostate"

fun settled_get :: "'v settlement \<Rightarrow> 'v future_result result" where
  "settled_get (SetValue r) = Inr r"
| "settled_get (SetException e) = Inl e"
| "settled_get Cancel = Inr result_nullopt"
| "settled_get Break = Inl (DomainError ''broken promise'')"

text \<open>What a reader that moved the value out leaves for the next one.\<close>

fun moved_settlement :: "('v \<Rightarrow> 'v) \<Rightarrow> 'v settlement \<Rightarrow> 'v settlement" where
  "moved_settlement moved (SetValue r) = SetValue (moved_result moved r)"
| "moved_settlement moved c = c"

subsection \<open>Interleaving model\<close>

datatype 'v setter =
    SetCas "'v settlement"     \<comment> \<open>before \<open>compare_exchange_strong\<close>\<close>
  | SetWrite "'v settlement"   \<comment> \<open>it succeeded; before the write of \<open>m_data\<close>\<close>
  | SetNotify                  \<comment> \<open>before \<open>notify_one\<close>\<close>
  | SetDone

datatype getter =
    GetTest          \<comment> \<open>\<open>wait\<close>: before the test outside the lock\<close>
  | GetLock          \<comment> \<open>acquiring the mutex\<close>
  | GetTestLocked    \<comment> \<open>mutex held, before the second test\<close>
  | GetRelock        \<comment> \<open>woken up, acquiring the mutex again\<close>
  | GetPred          \<comment> \<open>mutex held, before the predicate of \<open>m_condition.wait\<close>\<close>
  | GetSleep         \<comment> \<open>mutex held, predicate false, before blocking\<close>
  | GetBlocked
  | GetSwitch        \<comment> \<open>\<open>wait\<close> returned, before \<open>m_state.load\<close>\<close>
  | GetRead state    \<comment> \<open>in the branch for this state, before \<open>std::get\<close>\<close>
  | GetDone

text \<open>The history: the settlement whose compare-and-exchange succeeded, and for each \<open>get\<close> that
  ended, whether \<open>m_data\<close> had been written when it was read, and the result.\<close>

record 'v future_sys =
  cell :: "'v shared_state"
  cell_owner :: "nat option"
  setters :: "'v setter list"
  getters :: "getter list"
  winner :: "'v settlement option"
  results :: "(bool \<times> 'v future_result result) list"

definition future_sys_new :: "'v settlement list \<Rightarrow> nat \<Rightarrow> 'v future_sys" where
  "future_sys_new cs n =
     \<lparr>cell = shared_state_new, cell_owner = None, setters = map SetCas cs, getters = replicate n GetTest,
      winner = None, results = []\<rparr>"

datatype future_act = SetterStep nat | NotifyGetter nat nat | GetterStep nat | GetterSpurious nat

abbreviation setter_to :: "nat \<Rightarrow> 'v setter \<Rightarrow> 'v future_sys \<Rightarrow> 'v future_sys" where
  "setter_to i pc s \<equiv> s\<lparr>setters := (setters s)[i := pc]\<rparr>"

abbreviation getter_to :: "nat \<Rightarrow> getter \<Rightarrow> 'v future_sys \<Rightarrow> 'v future_sys" where
  "getter_to j pc s \<equiv> s\<lparr>getters := (getters s)[j := pc]\<rparr>"

fun setter_go :: "nat \<Rightarrow> 'v setter \<Rightarrow> 'v future_sys \<Rightarrow> 'v future_sys option" where
  "setter_go i (SetCas c) s =
     (let (stored, st) = compare_exchange_strong (m_state (cell s)) Init (settled_as c)
      in Some (if stored
           then setter_to i (if c = Break then SetNotify else SetWrite c)
                  (s\<lparr>cell := (cell s)\<lparr>m_state := st\<rparr>, winner := Some c\<rparr>)
           else setter_to i SetDone s))"
| "setter_go i (SetWrite c) s =
     Some (setter_to i SetNotify (s\<lparr>cell := (cell s)\<lparr>m_data := settled_data c\<rparr>\<rparr>))"
| "setter_go i SetNotify s =
     (if GetBlocked \<in> set (getters s) then None else Some (setter_to i SetDone s))"
| "setter_go i SetDone s = None"

definition lock_cell :: "nat \<Rightarrow> getter \<Rightarrow> 'v future_sys \<Rightarrow> 'v future_sys option" where
  "lock_cell j pc s =
     (if cell_owner s = None then Some (getter_to j pc (s\<lparr>cell_owner := Some j\<rparr>)) else None)"

definition data_written :: "'v shared_state \<Rightarrow> bool" where
  "data_written s \<longleftrightarrow> m_data s \<noteq> Monostate \<or> m_state s = Broken"

fun getter_go :: "('v \<Rightarrow> 'v) \<Rightarrow> nat \<Rightarrow> getter \<Rightarrow> 'v future_sys \<Rightarrow> 'v future_sys option" where
  "getter_go moved j GetTest s = Some (getter_to j (if is_ready (cell s) then GetSwitch else GetLock) s)"
| "getter_go moved j GetLock s = lock_cell j GetTestLocked s"
| "getter_go moved j GetTestLocked s =
     Some (if is_ready (cell s) then getter_to j GetSwitch (s\<lparr>cell_owner := None\<rparr>) else getter_to j GetPred s)"
| "getter_go moved j GetRelock s = lock_cell j GetPred s"
| "getter_go moved j GetPred s =
     Some (if is_ready (cell s) then getter_to j GetSwitch (s\<lparr>cell_owner := None\<rparr>) else getter_to j GetSleep s)"
| "getter_go moved j GetSleep s = Some (getter_to j GetBlocked (s\<lparr>cell_owner := None\<rparr>))"
| "getter_go moved j GetBlocked s = None"
| "getter_go moved j GetSwitch s = Some (getter_to j (GetRead (m_state (cell s))) s)"
| "getter_go moved j (GetRead st) s =
     (let (r, c') = get_switch moved st (cell s)
      in Some (getter_to j GetDone (s\<lparr>cell := c', results := results s @ [(data_written (cell s), r)]\<rparr>)))"
| "getter_go moved j GetDone s = None"

fun future_step :: "('v \<Rightarrow> 'v) \<Rightarrow> future_act \<Rightarrow> 'v future_sys \<Rightarrow> 'v future_sys option" where
  "future_step moved (SetterStep i) s =
     (if i < length (setters s) then setter_go i (setters s ! i) s else None)"
| "future_step moved (NotifyGetter i j) s =
     (if i < length (setters s) \<and> j < length (getters s) \<and> setters s ! i = SetNotify \<and> getters s ! j = GetBlocked
      then Some (setter_to i SetDone (getter_to j GetRelock s)) else None)"
| "future_step moved (GetterStep j) s =
     (if j < length (getters s) then getter_go moved j (getters s ! j) s else None)"
| "future_step moved (GetterSpurious j) s =
     (if j < length (getters s) \<and> getters s ! j = GetBlocked then Some (getter_to j GetRelock s) else None)"

definition future_stuck :: "('v \<Rightarrow> 'v) \<Rightarrow> 'v future_sys \<Rightarrow> bool" where
  "future_stuck moved s \<longleftrightarrow>
     (\<forall>i j. future_step moved (SetterStep i) s = None \<and> future_step moved (NotifyGetter i j) s = None
        \<and> future_step moved (GetterStep j) s = None)"

subsection \<open>The contract: first settlement wins\<close>

locale one_shot =
  fixes settled :: "'s \<Rightarrow> bool"
    and submit :: "'c \<Rightarrow> 's \<Rightarrow> 's"
    and outcome :: "'s \<Rightarrow> 'o"
    and result_of :: "'c \<Rightarrow> 'o"
  assumes submit_first: "\<not> settled s \<Longrightarrow> settled (submit c s) \<and> outcome (submit c s) = result_of c"
    and submit_later: "settled s \<Longrightarrow> submit c s = s"
begin

lemma submits_later: "settled s \<Longrightarrow> fold submit cs s = s"
  by (induction cs) (auto simp: submit_later)

lemma submits_first:
  "\<not> settled s \<Longrightarrow> settled (fold submit (c # cs) s) \<and> outcome (fold submit (c # cs) s) = result_of c"
  using submit_first [of s c] by (simp add: submits_later)

end

lemmas settle_defs = set_value_def set_exception_def cancel_def broken_def

lemma settle_eq:
  "settle c s = (if is_ready s then s
     else s\<lparr>m_state := settled_as c, m_data := (if c = Break then m_data s else settled_data c)\<rparr>)"
  by (cases c) (auto simp: settle_defs is_ready_def)

lemma settled_as_ready [simp]: "settled_as c \<noteq> Init" "Init \<noteq> settled_as c"
  by (cases c; simp)+

lemma get_switch_settled:
  assumes "m_data s = settled_data c"
  shows "get_switch moved (settled_as c) s =
    (settled_get c, s\<lparr>m_data := settled_data (moved_settlement moved c)\<rparr>)"
proof (cases c)
  case Cancel
  then show ?thesis using assms by (simp add: moved_result_def result_nullopt_def)
qed (use assms in auto)

lemma get_switch_unwritten:
  "m_data s = Monostate \<Longrightarrow> c \<noteq> Break \<Longrightarrow> get_switch moved (settled_as c) s = (Inl BadVariantAccess, s)"
  by (cases c) auto

lemma get_settle:
  assumes "\<not> is_ready s"
  shows "map_option fst (get moved (settle c s)) = Some (settled_get c)"
proof (cases "c = Break")
  case False
  with assms have "m_data (settle c s) = settled_data c" "m_state (settle c s) = settled_as c"
    by (simp_all add: settle_eq)
  with get_switch_settled [of "settle c s" c moved] show ?thesis
    by (simp add: get_def is_ready_def)
qed (use assms in \<open>simp add: get_def settle_eq is_ready_def\<close>)

interpretation shared: one_shot is_ready settle "\<lambda>s. map_option fst (get moved s)" "\<lambda>c. Some (settled_get c)"
  for moved
proof unfold_locales
  fix s :: "'a shared_state" and c
  show "is_ready (settle c s) \<and> map_option fst (get moved (settle c s)) = Some (settled_get c)"
    if "\<not> is_ready s" using get_settle [OF that] that by (simp add: settle_eq is_ready_def)
  show "settle c s = s" if "is_ready s" using that by (simp add: settle_eq)
qed

subsection \<open>Invariant of the interleaving model\<close>

lemma settled_as_moved [simp]: "settled_as ((moved_settlement moved ^^ k) c) = settled_as c"
proof (induction k)
  case (Suc k)
  have "settled_as (moved_settlement moved d) = settled_as d" for d by (cases d) auto
  with Suc show ?case by simp
qed simp

lemma settled_as_Broken [simp]: "settled_as c = Broken \<longleftrightarrow> c = Break"
  by (cases c) auto

lemma settled_data_Monostate [simp]: "settled_data c = Monostate \<longleftrightarrow> c = Break"
  by (cases c) auto

text \<open>The reads of \<open>m_data\<close> that found it written, each of which moves the value out.\<close>

definition written_reads :: "(bool \<times> 'r) list \<Rightarrow> nat" where
  "written_reads rs = length (filter fst rs)"

lemma written_reads_snoc [simp]: "written_reads (rs @ [p]) = written_reads rs + (if fst p then 1 else 0)"
  by (simp add: written_reads_def)

lemma written_reads_Nil [simp]: "written_reads [] = 0"
  by (simp add: written_reads_def)

text \<open>Before it is written \<open>m_data\<close> is empty, and nobody has read it; then it is what the winner wrote,
  moved out by every read so far.\<close>

definition cell_ok :: "('v \<Rightarrow> 'v) \<Rightarrow> nat \<Rightarrow> 'v settlement option \<Rightarrow> 'v shared_state \<Rightarrow> bool" where
  "cell_ok moved n w s \<longleftrightarrow>
     (case w of
        None \<Rightarrow> s = shared_state_new \<and> n = 0
      | Some c \<Rightarrow> m_state s = settled_as c
          \<and> (m_data s = settled_data ((moved_settlement moved ^^ n) c) \<or> m_data s = Monostate \<and> n = 0))"

definition setter_ok :: "'v settlement option \<Rightarrow> 'v setter \<Rightarrow> bool" where
  "setter_ok w pc \<longleftrightarrow> (\<forall>c. pc = SetWrite c \<longrightarrow> w = Some c \<and> c \<noteq> Break)"

text \<open>At most one thread is about to write \<open>m_data\<close>, and until it has, nothing is there.\<close>

fun is_writing :: "'v setter \<Rightarrow> bool" where
  "is_writing (SetWrite c) = True"
| "is_writing _ = False"

definition write_ok :: "'v setter list \<Rightarrow> 'v shared_state \<Rightarrow> bool" where
  "write_ok ss s \<longleftrightarrow>
     (\<forall>i < length ss. is_writing (ss ! i) \<longrightarrow>
        m_data s = Monostate \<and> (\<forall>j < length ss. is_writing (ss ! j) \<longrightarrow> j = i))"

definition getter_ok :: "'v settlement option \<Rightarrow> getter \<Rightarrow> bool" where
  "getter_ok w pc \<longleftrightarrow>
     (pc = GetSwitch \<longrightarrow> w \<noteq> None) \<and> (\<forall>st. pc = GetRead st \<longrightarrow> map_option settled_as w = Some st)"

definition result_ok ::
  "('v \<Rightarrow> 'v) \<Rightarrow> 'v settlement option \<Rightarrow> nat \<Rightarrow> bool \<times> 'v future_result result \<Rightarrow> bool" where
  "result_ok moved w n p \<longleftrightarrow>
     (case w of
        None \<Rightarrow> False
      | Some c \<Rightarrow> snd p = (if fst p then settled_get ((moved_settlement moved ^^ n) c) else Inl BadVariantAccess))"

definition future_inv :: "('v \<Rightarrow> 'v) \<Rightarrow> 'v future_sys \<Rightarrow> bool" where
  "future_inv moved s \<longleftrightarrow>
     cell_ok moved (written_reads (results s)) (winner s) (cell s)
     \<and> (\<forall>pc \<in> set (setters s). setter_ok (winner s) pc)
     \<and> (\<forall>pc \<in> set (getters s). getter_ok (winner s) pc)
     \<and> write_ok (setters s) (cell s)
     \<and> (\<forall>i < length (results s). result_ok moved (winner s) (written_reads (take i (results s))) (results s ! i))"

lemma ball_update: "\<forall>x \<in> set xs. P x \<Longrightarrow> P y \<Longrightarrow> \<forall>x \<in> set (xs[i := y]). P x"
  using set_update_subset_insert [of xs i y] by auto

lemma cell_ok_ready: "cell_ok moved n w s \<Longrightarrow> is_ready s \<longleftrightarrow> w \<noteq> None"
  by (auto simp: cell_ok_def is_ready_def shared_state_new_def split: option.splits)

lemma cell_ok_init: "cell_ok moved n w s \<Longrightarrow> m_state s = Init \<longleftrightarrow> w = None"
  using cell_ok_ready [of moved n w s] by (auto simp: is_ready_def)

lemma writing_update:
  "\<not> is_writing pc \<Longrightarrow> j < length ss \<Longrightarrow> is_writing (ss[i := pc] ! j) \<Longrightarrow> is_writing (ss ! j) \<and> j \<noteq> i"
  by (cases "j = i") auto

lemma write_ok_update: "write_ok ss s \<Longrightarrow> \<not> is_writing pc \<Longrightarrow> write_ok (ss[i := pc]) s"
  unfolding write_ok_def by (metis length_list_update writing_update)

lemma write_ok_none: "\<forall>pc \<in> set ss. \<not> is_writing pc \<Longrightarrow> write_ok ss s"
  unfolding write_ok_def using nth_mem by blast

lemma write_ok_first:
  assumes "\<forall>pc \<in> set ss. \<not> is_writing pc" and "m_data s = Monostate"
  shows "write_ok (ss[i := pc]) s"
proof -
  have "j = i" if "j < length ss" "is_writing (ss[i := pc] ! j)" for j
    using that assms(1) nth_mem [of j ss] by (cases "j = i") auto
  with assms(2) show ?thesis unfolding write_ok_def length_list_update by metis
qed

lemma write_ok_mem: "write_ok ss s \<Longrightarrow> pc \<in> set ss \<Longrightarrow> is_writing pc \<Longrightarrow> m_data s = Monostate"
  by (auto simp: write_ok_def in_set_conv_nth)

lemma write_ok_done:
  assumes "write_ok ss s" and "i < length ss" and "is_writing (ss ! i)" and "\<not> is_writing pc"
  shows "\<forall>pc \<in> set (ss[i := pc]). \<not> is_writing pc"
proof
  fix x assume "x \<in> set (ss[i := pc])"
  then obtain j where "j < length ss" "x = ss[i := pc] ! j" by (auto simp: in_set_conv_nth)
  with assms show "\<not> is_writing x" unfolding write_ok_def by (metis writing_update)
qed

lemma not_writing: "setter_ok None pc \<Longrightarrow> \<not> is_writing pc"
  by (cases pc) (auto simp: setter_ok_def)

lemma no_results:
  assumes "future_inv moved s" and "winner s = None"
  shows "results s = []"
proof (rule ccontr)
  assume "results s \<noteq> []"
  then have "0 < length (results s)" by simp
  with assms show False unfolding future_inv_def result_ok_def by auto
qed

lemma cas_inv:
  assumes inv: "future_inv moved s" and new: "winner s = None"
  shows "future_inv moved (setter_to i (if c = Break then SetNotify else SetWrite c)
           (s\<lparr>cell := (cell s)\<lparr>m_state := settled_as c\<rparr>, winner := Some c\<rparr>))"
proof -
  let ?pc = "if c = Break then SetNotify else SetWrite c"
  have "\<forall>pc \<in> set ((setters s)[i := ?pc]). setter_ok (Some c) pc"
    by (rule ball_update) (use inv new in \<open>auto simp: future_inv_def setter_ok_def\<close>)
  moreover have "\<forall>pc \<in> set (getters s). getter_ok (Some c) pc"
    using inv new by (fastforce simp: future_inv_def getter_ok_def)
  moreover have cell: "cell s = shared_state_new" using inv new by (simp add: future_inv_def cell_ok_def)
  moreover have "write_ok ((setters s)[i := ?pc]) ((cell s)\<lparr>m_state := settled_as c\<rparr>)"
    using inv new not_writing cell by (intro write_ok_first) (auto simp: future_inv_def shared_state_new_def)
  ultimately show ?thesis
    using no_results [OF assms] by (auto simp: future_inv_def cell_ok_def shared_state_new_def)
qed

lemma write_inv:
  assumes inv: "future_inv moved s" and at: "i < length (setters s)" "setters s ! i = SetWrite c"
  shows "future_inv moved (setter_to i SetNotify (s\<lparr>cell := (cell s)\<lparr>m_data := settled_data c\<rparr>\<rparr>))"
proof -
  have mem: "SetWrite c \<in> set (setters s)" using at nth_mem by fastforce
  then have w: "winner s = Some c" "c \<noteq> Break" using inv by (auto simp: future_inv_def setter_ok_def)
  have ok: "write_ok (setters s) (cell s)" using inv by (simp add: future_inv_def)
  then have "m_data (cell s) = Monostate" using mem by (rule write_ok_mem) simp
  moreover have "settled_data ((moved_settlement moved ^^ k) c) \<noteq> Monostate" for k
    using settled_as_moved [of k moved c] w(2) by (metis settled_as_Broken settled_data_Monostate)
  moreover have "cell_ok moved (written_reads (results s)) (Some c) (cell s)" using inv w by (simp add: future_inv_def)
  ultimately have n: "written_reads (results s) = 0" unfolding cell_ok_def option.case by metis
  have "\<forall>pc \<in> set ((setters s)[i := SetNotify]). setter_ok (Some c) pc"
    by (rule ball_update) (use inv w in \<open>auto simp: future_inv_def setter_ok_def\<close>)
  moreover have "write_ok ((setters s)[i := SetNotify]) s'" for s' :: "'a shared_state"
    using write_ok_done [OF ok at(1), of SetNotify] at(2) by (intro write_ok_none) simp
  ultimately show ?thesis using inv w n by (auto simp: future_inv_def cell_ok_def)
qed

lemma read_inv:
  assumes inv: "future_inv moved s" and at: "GetRead st \<in> set (getters s)"
    and read: "get_switch moved st (cell s) = (r, c')"
  shows "future_inv moved (getter_to j GetDone
           (s\<lparr>cell := c', results := results s @ [(data_written (cell s), r)]\<rparr>))"
proof -
  let ?n = "written_reads (results s)"
  from inv at have "getter_ok (winner s) (GetRead st)" by (simp add: future_inv_def)
  then obtain c where w: "winner s = Some c" and st: "st = settled_as c" by (auto simp: getter_ok_def)
  have ok: "cell_ok moved ?n (Some c) (cell s)" and writing: "write_ok (setters s) (cell s)"
    using inv w by (simp_all add: future_inv_def)
  have getters: "\<forall>pc \<in> set ((getters s)[j := GetDone]). getter_ok (Some c) pc"
    by (rule ball_update) (use inv w in \<open>auto simp: future_inv_def getter_ok_def\<close>)
  have "cell_ok moved (?n + (if data_written (cell s) then 1 else 0)) (Some c) c'
      \<and> result_ok moved (Some c) ?n (data_written (cell s), r) \<and> write_ok (setters s) c'"
  proof (cases "data_written (cell s)")
    case True
    have data: "m_data (cell s) = settled_data ((moved_settlement moved ^^ ?n) c)"
    proof (cases "m_data (cell s) = Monostate")
      case mono: True
      then have "c = Break" using True ok by (cases c) (simp_all add: data_written_def cell_ok_def)
      then have "settled_as ((moved_settlement moved ^^ ?n) c) = Broken" by simp
      with mono show ?thesis by (metis settled_as_Broken settled_data_Monostate)
    qed (use ok in \<open>auto simp: cell_ok_def\<close>)
    have "\<forall>pc \<in> set (setters s). \<not> is_writing pc"
    proof
      fix pc assume pc: "pc \<in> set (setters s)"
      show "\<not> is_writing pc"
      proof
        assume "is_writing pc"
        moreover have "setter_ok (Some c) pc" using pc inv w by (simp add: future_inv_def)
        ultimately have "c \<noteq> Break" by (cases pc) (auto simp: setter_ok_def)
        moreover have "m_data (cell s) = Monostate" using writing pc \<open>is_writing pc\<close> by (rule write_ok_mem)
        ultimately show False using True ok by (cases c) (auto simp: data_written_def cell_ok_def)
      qed
    qed
    then have "write_ok (setters s) c'" by (rule write_ok_none)
    moreover have "r = settled_get ((moved_settlement moved ^^ ?n) c)"
      "c' = (cell s)\<lparr>m_data := settled_data ((moved_settlement moved ^^ Suc ?n) c)\<rparr>"
      using get_switch_settled [OF data, of moved] read st by simp_all
    ultimately show ?thesis using True ok by (simp add: cell_ok_def result_ok_def del: funpow.simps)
  next
    case False
    then have "m_data (cell s) = Monostate" and "c \<noteq> Break"
      using ok by (auto simp: data_written_def cell_ok_def)
    from get_switch_unwritten [OF this, of moved] read st False ok writing show ?thesis
      by (auto simp: result_ok_def)
  qed
  with getters inv w show ?thesis by (auto simp: future_inv_def nth_append less_Suc_eq)
qed

lemma setter_to_inv:
  "future_inv moved s \<Longrightarrow> setter_ok (winner s) pc \<Longrightarrow> \<not> is_writing pc \<Longrightarrow> future_inv moved (setter_to i pc s)"
  using ball_update [of "setters s" "setter_ok (winner s)" pc i] write_ok_update [of "setters s" "cell s" pc i]
  by (simp add: future_inv_def)

lemma getter_to_inv:
  "future_inv moved s \<Longrightarrow> getter_ok (winner s) pc \<Longrightarrow> future_inv moved (getter_to i pc s)"
  using ball_update [of "getters s" "getter_ok (winner s)" pc i] by (auto simp: future_inv_def)

lemma cell_owner_inv [simp]: "future_inv moved (s\<lparr>cell_owner := w\<rparr>) = future_inv moved s"
  by (simp add: future_inv_def)

lemma setter_go_inv:
  assumes inv: "future_inv moved s" and at: "i < length (setters s)" "setters s ! i = pc"
    and go: "setter_go i pc s = Some s'"
  shows "future_inv moved s'"
proof (cases pc)
  case (SetCas c)
  show ?thesis
  proof (cases "winner s")
    case None
    with inv have "m_state (cell s) = Init" by (auto simp: future_inv_def cell_ok_init)
    with go SetCas cas_inv [OF inv None, where i = i and c = c] show ?thesis by simp
  next
    case (Some w)
    with inv have "m_state (cell s) \<noteq> Init" by (auto simp: future_inv_def cell_ok_init)
    with go SetCas inv show ?thesis by (auto intro!: setter_to_inv simp: setter_ok_def)
  qed
next
  case (SetWrite c)
  with go at write_inv [OF inv, of i c] show ?thesis by auto
qed (use assms in \<open>auto intro!: setter_to_inv simp: setter_ok_def split: if_splits\<close>)

lemma getter_go_inv:
  assumes inv: "future_inv moved s" and at: "pc \<in> set (getters s)" and go: "getter_go moved j pc s = Some s'"
  shows "future_inv moved s'"
proof -
  have ready: "is_ready (cell s) \<longleftrightarrow> winner s \<noteq> None"
    using inv by (auto simp: future_inv_def cell_ok_ready)
  have state: "winner s \<noteq> None \<Longrightarrow> map_option settled_as (winner s) = Some (m_state (cell s))"
    using inv by (auto simp: future_inv_def cell_ok_def)
  have free: "future_inv moved (s\<lparr>cell_owner := w\<rparr>)" for w using inv by simp
  note move = getter_to_inv [OF inv] getter_to_inv [OF free, simplified]
  show ?thesis
  proof (cases pc)
    case (GetRead st)
    obtain r c' where "get_switch moved st (cell s) = (r, c')" by fastforce
    with read_inv [OF inv _ this, of j] at go GetRead show ?thesis by simp
  next
    case GetSwitch
    with inv at have "winner s \<noteq> None" by (auto simp: future_inv_def getter_ok_def)
    with state GetSwitch go show ?thesis by (auto intro!: move simp: getter_ok_def)
  qed (use go ready in \<open>auto intro!: move simp: getter_ok_def lock_cell_def split: if_splits\<close>)
qed

lemma future_inv_step:
  assumes "future_inv moved s" and "future_step moved a s = Some s'"
  shows "future_inv moved s'"
proof (cases a)
  case (NotifyGetter i j)
  with assms have "future_inv moved (getter_to j GetRelock s)"
    by (intro getter_to_inv) (auto simp: getter_ok_def)
  from setter_to_inv [OF this, of SetDone i] NotifyGetter assms(2) show ?thesis
    by (auto simp: setter_ok_def split: if_splits)
qed (use assms in \<open>auto intro: setter_go_inv getter_go_inv [OF _ nth_mem] intro!: getter_to_inv
       simp: getter_ok_def split: if_splits\<close>)

interpretation future: invariant_system "future_step moved" "\<lambda>s. \<exists>cs n. s = future_sys_new cs n" "future_inv moved"
  for moved
proof unfold_locales
  fix s :: "'a future_sys"
  assume "\<exists>cs n. s = future_sys_new cs n"
  then show "future_inv moved s"
    by (auto simp: future_inv_def future_sys_new_def cell_ok_def setter_ok_def getter_ok_def intro!: write_ok_none)
qed (rule future_inv_step)

lemma future_stuckI:
  assumes "\<forall>pc \<in> set (setters s). pc = SetDone" and "\<forall>pc \<in> set (getters s). pc = GetBlocked \<or> pc = GetDone"
  shows "future_stuck moved s"
  unfolding future_stuck_def
proof (intro allI conjI)
  fix i j
  have i: "setters s ! i = SetDone" if "i < length (setters s)" using assms(1) that by simp
  then show "future_step moved (SetterStep i) s = None" and "future_step moved (NotifyGetter i j) s = None"
    by auto
  have "getter_go moved j (getters s ! j) s = None" if "j < length (getters s)"
    using bspec [OF assms(2) nth_mem [OF that]] by auto
  then show "future_step moved (GetterStep j) s = None" by simp
qed

lemmas future_eval = future_sys_new_def shared_state_new_def lock_cell_def is_ready_def data_written_def
  result_of_value_def

lemma get_future_eq: "get_future p = \<lparr>f_shared_state = p_shared_state p\<rparr>"
  by (simp add: get_future_def future_of_state_def)

lemmas promise_eval = promise_new_def promise_set_value_def promise_destroy_def promise_move_def
  promise_move_assign_def get_future_eq future_get_def get_def is_ready_def shared_state_new_def
  settle_defs nth_append list_update_append

subsection \<open>Properties\<close>

text \<open>C21: the first settlement wins. Whatever sequence of \<open>set_value\<close>, \<open>set_exception\<close>, \<open>cancel\<close>
  and \<open>broken\<close> calls settles a new shared state, \<open>get\<close> does not block and gives what the first
  of them says: the value, the exception rethrown, a cancelled result, or \<open>domain_error\<close>
  "broken promise". Before the first one \<open>get\<close> blocks.\<close>

theorem future_first_settlement:
  "get moved shared_state_new = None
   \<and> map_option fst (get moved (fold settle (c # cs) shared_state_new)) =
       Some (case c of
               SetValue r \<Rightarrow> Inr r
             | SetException e \<Rightarrow> Inl e
             | Cancel \<Rightarrow> Inr result_nullopt
             | Break \<Rightarrow> Inl (DomainError ''broken promise''))"
proof -
  have "\<not> is_ready (shared_state_new :: 'a shared_state)"
    by (simp add: is_ready_def shared_state_new_def)
  from shared.submits_first [OF this, of c cs moved] this show ?thesis
    by (cases c) (simp_all add: get_def [of moved shared_state_new])
qed

text \<open>C22: \<open>get\<close> under any interleaving of any number of threads that settle the shared state and
  any number that get. Nobody gets anything before a settlement has won. A \<open>get\<close> that reads
  \<open>m_data\<close> before the winner has written it throws \<open>bad_variant_access\<close>. Of the others the first
  returns exactly the winner's result, and each later one what the reads before it left, every one
  of which has moved the value out once.\<close>

theorem future_get_interleaved:
  assumes "reachable (future_step moved) (future_sys_new cs n) s" and "i < length (results s)"
  shows "\<exists>c. winner s = Some c
    \<and> (let earlier = length (filter fst (take i (results s)))
       in snd (results s ! i) =
            (if \<not> fst (results s ! i) then Inl BadVariantAccess
             else if earlier = 0 then settled_get c
             else settled_get ((moved_settlement moved ^^ earlier) c)))"
proof -
  have "future_inv moved s" using assms(1) by (rule future.inv_reachable) auto
  with assms(2) have "result_ok moved (winner s) (written_reads (take i (results s))) (results s ! i)"
    by (simp add: future_inv_def)
  then show ?thesis by (auto simp: result_ok_def written_reads_def Let_def split: option.splits if_splits)
qed

theorem future_get_interleaved_witness:
  "let s = the (run (future_step (\<lambda>v. 0))
               [SetterStep 0, SetterStep 0, GetterStep 0, GetterStep 0, GetterStep 0, GetterStep 1, GetterStep 1, GetterStep 1]
               (future_sys_new [SetValue (result_of_value (7::nat))] 2))
   in winner s = Some (SetValue (result_of_value 7))
      \<and> map snd (results s) = [Inr (result_of_value 7), Inr (result_of_value 0)]"
  (is "let s = the (run _ ?as ?start) in _")
proof -
  let ?s = "the (run (future_step (\<lambda>v. 0)) ?as ?start)"
  have eval: "run (future_step (\<lambda>v. 0)) ?as ?start \<noteq> None" "map fst (results ?s) = [True, True]"
    "winner ?s = Some (SetValue (result_of_value 7))"
    by (simp_all add: future_eval)
  then have len: "length (results ?s) = 2" by (metis length_Cons length_map list.size(3) numeral_2_eq_2)
  note get = future_get_interleaved [OF reachable_the_run [OF eval(1)]]
  obtain p q where pq: "results ?s = [p, q]" using len by (auto simp: numeral_2_eq_2 length_Suc_conv)
  from get [of 0] get [of 1] eval(2,3) show ?thesis
    unfolding pq Let_def by (simp add: moved_result_def result_of_value_def)
qed

text \<open>Two races of the shared state. The state is published before \<open>m_data\<close> is written, so a
  \<open>get\<close> can throw \<open>bad_variant_access\<close> although a value was set; and the notification is sent
  without the mutex, so a thread can be blocked in \<open>get\<close> for good although the state is ready.\<close>

theorem future_get_races:
  "(\<exists>s. reachable (future_step moved) (future_sys_new [SetValue r] 1) s
      \<and> winner s = Some (SetValue r) \<and> results s = [(False, Inl BadVariantAccess)])
   \<and> (\<exists>s. reachable (future_step moved) (future_sys_new [SetValue r] 1) s
      \<and> future_stuck moved s \<and> is_ready (cell s) \<and> getters s = [GetBlocked])"
proof
  let ?start = "future_sys_new [SetValue r] 1"
  let ?as = "[SetterStep 0, GetterStep 0, GetterStep 0, GetterStep 0]"
  have "run (future_step moved) ?as ?start \<noteq> None"
    "winner (the (run (future_step moved) ?as ?start)) = Some (SetValue r)"
    "results (the (run (future_step moved) ?as ?start)) = [(False, Inl BadVariantAccess)]"
    by (simp_all add: future_eval)
  then show "\<exists>s. reachable (future_step moved) ?start s \<and> winner s = Some (SetValue r)
      \<and> results s = [(False, Inl BadVariantAccess)]"
    by (intro exI [of _ "the (run (future_step moved) ?as ?start)"] conjI reachable_the_run)
  let ?bs = "[GetterStep 0, GetterStep 0, GetterStep 0, GetterStep 0, SetterStep 0, SetterStep 0, SetterStep 0,
    GetterStep 0]"
  let ?s = "the (run (future_step moved) ?bs ?start)"
  have eval: "run (future_step moved) ?bs ?start \<noteq> None" "setters ?s = [SetDone]" "getters ?s = [GetBlocked]"
    "is_ready (cell ?s)"
    by (simp_all add: future_eval)
  have "future_stuck moved ?s" by (rule future_stuckI) (simp_all only: eval(2,3), simp_all)
  with eval reachable_the_run [OF eval(1)]
  show "\<exists>s. reachable (future_step moved) ?start s \<and> future_stuck moved s \<and> is_ready (cell s)
      \<and> getters s = [GetBlocked]"
    by blast
qed

text \<open>C24: a promise and its future. What is set on a new promise is what its future gets, also
  after the promise is destroyed; a promise destroyed without having been satisfied gives its
  future "broken promise"; destroying a moved-from promise does nothing. Moving a future hands
  over what it gets and leaves the other one without a shared state, and assigning to a future
  or destroying one does not touch the shared state it had.\<close>

theorem promise_lifetime:
  "let (p, h0) = promise_new h; f = get_future p
   in future_get moved f h0 = Blocked
    \<and> (\<exists>h1 h2 h3. promise_set_value v p h0 = Some h1 \<and> promise_destroy p h1 = Some h2
         \<and> future_get moved f h2 = Result (Inr (result_of_value v)) h3)
    \<and> (\<exists>h1. promise_destroy p h0 = Some h1
         \<and> future_get moved f h1 = Result (Inl (DomainError ''broken promise'')) h1)
    \<and> promise_destroy (snd (promise_move p)) h0 = Some h0
    \<and> (case future_move f of (f', old) \<Rightarrow>
         future_get moved f' h' = future_get moved f h' \<and> is_valid f' \<and> \<not> is_valid old
         \<and> future_get moved old h' = UndefinedBehaviour)
    \<and> fst (future_move_assign g f) = f \<and> \<not> is_valid (snd (future_move_assign g f))
    \<and> future_destroy f h0 = h0"
  by (simp add: promise_eval Let_def modify_def future_move_def future_move_assign_def future_destroy_def
      is_valid_def)

text \<open>Assigning over a promise that was not satisfied drops its shared state without
  breaking it: when \<open>p = std::move(q)\<close> and both are destroyed, the future of \<open>q\<close> gets
  "broken promise", but the future that came from \<open>p\<close> blocks.\<close>

theorem promise_assign_abandons:
  "let (p, h0) = promise_new h; (q, h1) = promise_new h0;
       (p', q') = promise_move_assign p q;
       h2 = the (promise_destroy p' h1); h3 = the (promise_destroy q' h2)
   in future_get moved (get_future q) h3 = Result (Inl (DomainError ''broken promise'')) h3
    \<and> future_get moved (get_future p) h3 = Blocked"
  by (simp add: promise_eval Let_def modify_def)

end
