(* ===== verification/Receivers.thy ===== *)
theory Receivers
  imports Future
begin

section \<open>Receivers (\<open>details/callback_receiver.hpp\<close>, \<open>details/value_receiver.hpp\<close>)\<close>

text \<open>
  A receiver is what a sender reports to: exactly one of \<open>complete\<close>, \<open>fail\<close> and \<open>cancel\<close>
  takes effect. Code that the library calls back (handlers, the functions given to \<open>then\<close>) acts
  on a state \<open>'w\<close> and returns or throws. A \<open>noexcept\<close> function out of which an exception would
  escape ends the program. The record \<open>receiver\<close> is the interface by which the senders use a
  receiver; its operations act on a state that holds the receiver itself.
\<close>

subsection \<open>Calls\<close>

datatype completion = Normal | Throws exn | Terminated

type_synonym 'w action = "'w \<Rightarrow> completion \<times> 'w"

definition noexcept :: "'w action \<Rightarrow> 'w action" where
  "noexcept a w =
     (case a w of (Throws e, w') \<Rightarrow> (Terminated, w') | (c, w') \<Rightarrow> (c, w'))"

record ('v, 'w) receiver =
  complete :: "'v \<Rightarrow> 'w action"
  fail :: "exn \<Rightarrow> 'w action"
  cancel :: "'w action"
  is_canceled :: "'w \<Rightarrow> bool"

subsection \<open>The callback receiver\<close>

datatype receiver_state = Initial | Completed | Failed | CanceledState

record ('v, 'w) callback_receiver =
  m_state :: receiver_state
  m_complete_handler :: "'v \<Rightarrow> 'w action"
  m_error_handler :: "exn \<Rightarrow> 'w action"
  m_cancel_handler :: "'w action"

definition callback_receiver_new ::
  "('v \<Rightarrow> 'w action) \<Rightarrow> (exn \<Rightarrow> 'w action) \<Rightarrow> 'w action \<Rightarrow> ('v, 'w) callback_receiver" where
  "callback_receiver_new on_complete on_error on_cancel =
     \<lparr>m_state = Initial, m_complete_handler = on_complete, m_error_handler = on_error,
      m_cancel_handler = on_cancel\<rparr>"

text \<open>The three overloads of \<open>make_callback_receiver\<close> are chosen by the number of arguments the
  complete handler takes; with more than one the program does not compile (\<open>None\<close>). A handler
  without arguments takes a \<open>unit\<close> here.\<close>

definition make_callback_receiver ::
  "nat \<Rightarrow> ('v \<Rightarrow> 'w action) \<Rightarrow> (exn \<Rightarrow> 'w action) \<Rightarrow> 'w action \<Rightarrow> ('v, 'w) callback_receiver option" where
  "make_callback_receiver arity complete_handler error_handler cancel_handler =
     (if arity > 1 then None
      else Some (callback_receiver_new complete_handler error_handler cancel_handler))"

text \<open>The move constructor copies the state and moves the handlers.\<close>

definition callback_move :: "('v, 'w) callback_receiver \<Rightarrow> ('v, 'w) callback_receiver" where
  "callback_move other =
     \<lparr>m_state = callback_receiver.m_state other, m_complete_handler = m_complete_handler other,
      m_error_handler = m_error_handler other, m_cancel_handler = m_cancel_handler other\<rparr>"

type_synonym ('v, 'w) callback_world = "('v, 'w) callback_receiver \<times> 'w"

definition callback_complete :: "'v \<Rightarrow> ('v, 'w) callback_world action" where
  "callback_complete v s =
     (let (cb, w) = s;
          (stored, st) = compare_exchange_strong (callback_receiver.m_state cb) Initial Completed
      in if stored
         then (let (c, w') = m_complete_handler cb v w in (c, (cb\<lparr>callback_receiver.m_state := st\<rparr>, w')))
         else (Normal, s))"

definition callback_fail :: "exn \<Rightarrow> ('v, 'w) callback_world action" where
  "callback_fail e s =
     (let (cb, w) = s;
          (stored, st) = compare_exchange_strong (callback_receiver.m_state cb) Initial Failed
      in if stored
         then (let (c, w') = noexcept (m_error_handler cb e) w
               in (c, (cb\<lparr>callback_receiver.m_state := st\<rparr>, w')))
         else (Normal, s))"

definition callback_cancel :: "('v, 'w) callback_world action" where
  "callback_cancel s =
     (let (cb, w) = s;
          (stored, st) = compare_exchange_strong (callback_receiver.m_state cb) Initial CanceledState
      in if stored
         then (let (c, w') = noexcept (m_cancel_handler cb) w
               in (c, (cb\<lparr>callback_receiver.m_state := st\<rparr>, w')))
         else (Normal, s))"

definition callback_is_canceled :: "('v, 'w) callback_world \<Rightarrow> bool" where
  "callback_is_canceled s \<longleftrightarrow> Failed \<noteq> callback_receiver.m_state (fst s)"

definition callback_receiver_ops :: "('v, ('v, 'w) callback_world) receiver" where
  "callback_receiver_ops =
     \<lparr>complete = callback_complete, fail = callback_fail, cancel = callback_cancel,
      is_canceled = callback_is_canceled\<rparr>"

subsection \<open>The value receiver\<close>

text \<open>It forwards to a promise held by a \<open>shared_ptr\<close>; the state is the store of shared states
  beside the rest of the program's state \<open>'u\<close>. Using a promise with a null pointer is undefined
  behaviour; it is reported as \<open>Terminated\<close>.\<close>

type_synonym ('v, 'u) value_world = "'v store \<times> 'u"

definition on_promise :: "('v store \<Rightarrow> 'v store option) \<Rightarrow> ('v, 'u) value_world action" where
  "on_promise f s =
     (case f (fst s) of None \<Rightarrow> (Terminated, s) | Some h \<Rightarrow> (Normal, (h, snd s)))"

definition value_complete :: "promise \<Rightarrow> 'v \<Rightarrow> ('v, 'u) value_world action" where
  "value_complete p v = on_promise (promise_set_value v p)"

definition value_fail :: "promise \<Rightarrow> exn \<Rightarrow> ('v, 'u) value_world action" where
  "value_fail p e = noexcept (on_promise (promise_set_exception e p))"

definition value_cancel :: "promise \<Rightarrow> ('v, 'u) value_world action" where
  "value_cancel p = noexcept (on_promise (promise_cancel p))"

definition value_is_canceled :: "promise \<Rightarrow> ('v, 'u) value_world \<Rightarrow> bool" where
  "value_is_canceled p s \<longleftrightarrow> promise_is_canceled p (fst s) = Some True"

definition value_receiver :: "promise \<Rightarrow> ('v, ('v, 'u) value_world) receiver" where
  "value_receiver p =
     \<lparr>complete = value_complete p, fail = value_fail p, cancel = value_cancel p,
      is_canceled = value_is_canceled p\<rparr>"

definition value_receiver_new :: "'v store \<Rightarrow> promise \<times> 'v store" where
  "value_receiver_new h = promise_new h"

definition value_get_future :: "promise \<Rightarrow> future" where
  "value_get_future p = get_future p"

subsection \<open>Exactly one handler\<close>

datatype 'v signal = Complete 'v | Fail exn | CancelSignal

fun deliver :: "'v signal \<Rightarrow> ('v, 'w) receiver \<Rightarrow> 'w action" where
  "deliver (Complete v) r = complete r v"
| "deliver (Fail e) r = fail r e"
| "deliver CancelSignal r = cancel r"

text \<open>A sequence of signals, and how each call ended.\<close>

fun deliver_all :: "'v signal list \<Rightarrow> ('v, 'w) receiver \<Rightarrow> 'w \<Rightarrow> completion list \<times> 'w" where
  "deliver_all [] r w = ([], w)"
| "deliver_all (c # cs) r w =
     (let (x, w') = deliver c r w; (xs, w'') = deliver_all cs r w' in (x # xs, w''))"

fun signal_state :: "'v signal \<Rightarrow> receiver_state" where
  "signal_state (Complete v) = Completed"
| "signal_state (Fail e) = Failed"
| "signal_state CancelSignal = CanceledState"

fun signal_handler :: "('v, 'w) callback_receiver \<Rightarrow> 'v signal \<Rightarrow> 'w action" where
  "signal_handler cb (Complete v) = m_complete_handler cb v"
| "signal_handler cb (Fail e) = noexcept (m_error_handler cb e)"
| "signal_handler cb CancelSignal = noexcept (m_cancel_handler cb)"

lemmas callback_defs = callback_complete_def callback_fail_def callback_cancel_def

lemma deliver_callback:
  "deliver c callback_receiver_ops (cb, w) =
     (if callback_receiver.m_state cb = Initial
      then (fst (signal_handler cb c w),
            (cb\<lparr>callback_receiver.m_state := signal_state c\<rparr>, snd (signal_handler cb c w)))
      else (Normal, (cb, w)))"
  by (cases c) (auto simp: callback_receiver_ops_def callback_defs split: prod.splits)

lemma deliver_callback_first:
  assumes "\<not> callback_receiver.m_state (fst s) \<noteq> Initial"
  shows "callback_receiver.m_state (fst (snd (deliver c callback_receiver_ops s))) \<noteq> Initial
    \<and> callback_receiver.m_state (fst (snd (deliver c callback_receiver_ops s))) = signal_state c"
proof -
  have "signal_state c \<noteq> Initial" by (cases c) auto
  with assms show ?thesis by (cases s) (simp add: deliver_callback)
qed

lemma deliver_callback_later:
  "callback_receiver.m_state (fst s) \<noteq> Initial \<Longrightarrow> deliver c callback_receiver_ops s = (Normal, s)"
  by (cases s) (simp add: deliver_callback)

interpretation callback: one_shot "\<lambda>s. callback_receiver.m_state (fst s) \<noteq> Initial"
    "\<lambda>c s. snd (deliver c callback_receiver_ops s)" "\<lambda>s. callback_receiver.m_state (fst s)" signal_state
  by unfold_locales (rule deliver_callback_first, simp_all add: deliver_callback_later)

lemma deliver_all_callback_later:
  "callback_receiver.m_state (fst s) \<noteq> Initial \<Longrightarrow>
     deliver_all cs callback_receiver_ops s = (replicate (length cs) Normal, s)"
  by (induction cs) (simp_all add: deliver_callback_later)

lemma deliver_all_callback_first:
  assumes "callback_receiver.m_state cb = Initial"
  shows "deliver_all (c # cs) callback_receiver_ops (cb, w) =
    (fst (signal_handler cb c w) # replicate (length cs) Normal,
     (cb\<lparr>callback_receiver.m_state := signal_state c\<rparr>, snd (signal_handler cb c w)))"
proof -
  have "signal_state c \<noteq> Initial" by (cases c) auto
  with assms show ?thesis by (simp add: deliver_callback deliver_all_callback_later)
qed

subsection \<open>The value receiver and its future\<close>

fun signal_settlement :: "'v signal \<Rightarrow> 'v settlement" where
  "signal_settlement (Complete v) = SetValue (result_of_value v)"
| "signal_settlement (Fail e) = SetException e"
| "signal_settlement CancelSignal = Cancel"

lemma deliver_value:
  assumes "p_shared_state p = Some a" and "a < length h"
  shows "deliver c (value_receiver p) (h, u) = (Normal, (h[a := settle (signal_settlement c) (h ! a)], u))"
  using assms
  by (cases c)
     (auto simp: value_receiver_def value_complete_def value_fail_def value_cancel_def noexcept_def
        on_promise_def promise_set_value_def promise_set_exception_def promise_cancel_def modify_def)

lemma deliver_all_value:
  assumes "p_shared_state p = Some a" and "a < length h"
  shows "deliver_all cs (value_receiver p) (h, u) =
    (replicate (length cs) Normal, (h[a := fold settle (map signal_settlement cs) (h ! a)], u))"
  using assms(2)
  by (induction cs arbitrary: h) (simp_all add: deliver_value [OF assms(1)])

subsection \<open>Properties\<close>

text \<open>Exactly one handler. Of any sequence of \<open>complete\<close>, \<open>fail\<close> and \<open>cancel\<close> calls on a new
  callback receiver the first one invokes its handler, once, with its argument, and no later
  call does anything; an exception out of the complete handler reaches the caller, one out of
  the error or cancel handler ends the program.\<close>

theorem callback_exactly_once:
  "let cb = callback_receiver_new on_complete on_error on_cancel;
       first = (case c of Complete v \<Rightarrow> on_complete v
                        | Fail e \<Rightarrow> noexcept (on_error e)
                        | CancelSignal \<Rightarrow> noexcept on_cancel)
   in deliver_all (c # cs) callback_receiver_ops (cb, w) =
        (fst (first w) # replicate (length cs) Normal,
         (cb\<lparr>callback_receiver.m_state := signal_state c\<rparr>, snd (first w)))"
proof -
  let ?cb = "callback_receiver_new on_complete on_error on_cancel"
  have "callback_receiver.m_state ?cb = Initial" by (simp add: callback_receiver_new_def)
  from deliver_all_callback_first [OF this, of c cs w] show ?thesis
    unfolding Let_def by (cases c) (simp_all del: deliver_all.simps add: callback_receiver_new_def)
qed

text \<open>A value receiver settles its future. Of any sequence of calls on a new value receiver
  the first one decides what the future gets: the value, the exception, or a cancelled result.
  No call throws, and nothing else in the program changes.\<close>

theorem value_receiver_settles:
  "let (p, h0) = value_receiver_new h;
       (ends, (h1, u1)) = deliver_all (c # cs) (value_receiver p) (h0, u)
   in set ends = {Normal} \<and> u1 = u
    \<and> (\<exists>h2. future_get moved (value_get_future p) h1 =
          Result (case c of Complete v \<Rightarrow> Inr (result_of_value v)
                          | Fail e \<Rightarrow> Inl e
                          | CancelSignal \<Rightarrow> Inr result_nullopt) h2)"
proof -
  let ?h = "h @ [shared_state_new]" and ?a = "length h"
  let ?c = "signal_settlement c" and ?p = "\<lparr>p_shared_state = Some (length h)\<rparr>"
  let ?s = "fold settle (?c # map signal_settlement cs) shared_state_new"
  have new: "\<not> is_ready (shared_state_new :: 'a shared_state)"
    by (simp add: is_ready_def shared_state_new_def)
  have all: "deliver_all (c # cs) (value_receiver ?p) (?h, u) =
      (replicate (length (c # cs)) Normal, (h @ [?s], u))"
    using deliver_all_value [of ?p ?a ?h "c # cs" u] by (simp add: nth_append del: deliver_all.simps)
  obtain s' where s': "get moved ?s = Some (settled_get ?c, s')"
    using shared.submits_first [OF new, of ?c "map signal_settlement cs" moved]
    by (auto simp del: fold_simps)
  have "settled_get ?c = (case c of Complete v \<Rightarrow> Inr (result_of_value v) | Fail e \<Rightarrow> Inl e
      | CancelSignal \<Rightarrow> Inr result_nullopt)"
    by (cases c) auto
  with s' show ?thesis
    unfolding value_receiver_new_def promise_new_def value_get_future_def Let_def case_prod_conv all
    by (simp add: get_future_eq future_get_def nth_append del: fold_simps replicate.simps)
qed

end
