(* ===== verification/Owners.thy ===== *)
theory Owners
  imports Receivers
begin

section \<open>Who owns the promise (\<open>details/value_receiver.hpp\<close>, \<open>wait.hpp\<close>, \<open>start.hpp\<close>, \<open>schedule.hpp\<close>, \<open>details/sender_adapter.hpp\<close>)\<close>

text \<open>
  A value receiver holds its promise by a \<open>shared_ptr\<close>, and it has a copy constructor and so no
  move constructor: each object that contains a receiver, also one that was moved from, is an owner of the
  promise until it is destroyed, and the last of them destroys the promise. Here are the objects that
  \<open>wait\<close> and \<open>start\<close> make on the way of the receiver into the queue of the scheduler, in the
  order in which the code makes and destroys them. They act on the set of owners and the store.
\<close>

subsection \<open>Copying and destroying a receiver\<close>

text \<open>The owners: the local variable or temporary of \<open>wait\<close> and \<open>start\<close>, and their operation state; the
  temporary \<open>receiver_adapter\<close> and the operation state of the sender inside, for the adapter with
  the number given; the lambda of \<open>schedule_state::start\<close>, the lambda of \<open>adapter::schedule\<close>
  around it, and the copy of that in the \<open>std::function\<close>, which moves on into the queue.\<close>

datatype owner =
    LocalReceiver
  | OperationState
  | AdapterTemporary nat
  | InnerState nat
  | StartLambda
  | ScheduleLambda
  | QueuedTask

text \<open>\<open>Copied source target\<close> is the copy constructor, \<open>Destroyed x\<close> the destructor. Copying an object that does
  not exist, and destroying one twice, is undefined (\<open>None\<close>).\<close>

datatype owner_event = Copied owner owner | Destroyed owner

fun owner_step :: "promise \<Rightarrow> owner_event \<Rightarrow> owner set \<times> 'v store \<Rightarrow> (owner set \<times> 'v store) option" where
  "owner_step p (Copied source target) (os, h) =
     (if source \<in> os \<and> target \<notin> os then Some (insert target os, h) else None)"
| "owner_step p (Destroyed x) (os, h) =
     (if x \<notin> os then None
      else if os = {x} then map_option (Pair {}) (promise_destroy p h)
      else Some (os - {x}, h))"

subsection \<open>The way of a receiver\<close>

text \<open>\<open>connect\<close> on a sender with \<open>n\<close> adapters, for the receiver in \<open>source\<close>; the operation state it returns is
  constructed in \<open>target\<close>. \<open>schedule_sender\<close> moves the receiver into a \<open>schedule_state\<close>. \<open>sender_adapter\<close>
  moves it into a temporary \<open>receiver_adapter\<close>, connects the inner sender to that, and moves the state this
  returns into the \<open>composite_state\<close>; the two temporaries die at the end of the statement. For a
  state that is a \<open>composite_state\<close> already, the deduction of the class template's argument gives that type
  again and no second one around it, and whether the compiler then still makes the move is its choice:
  \<open>elides n\<close> says whether it leaves it out.\<close>

fun connect_owners :: "(nat \<Rightarrow> bool) \<Rightarrow> nat \<Rightarrow> owner \<Rightarrow> owner \<Rightarrow> owner_event list" where
  "connect_owners elides 0 source target = [Copied source target]"
| "connect_owners elides (Suc n) source target =
     [Copied source (AdapterTemporary n)]
     @ (if elides n then connect_owners elides n (AdapterTemporary n) target
        else connect_owners elides n (AdapterTemporary n) (InnerState n)
          @ [Copied (InnerState n) target, Destroyed (InnerState n)])
     @ [Destroyed (AdapterTemporary n)]"

text \<open>\<open>state.start()\<close> until the task is in a queue. The \<open>std::function\<close> keeps its target behind a pointer,
  so that moving it on moves nothing.\<close>

definition schedule_owners :: "owner_event list" where
  "schedule_owners =
     [Copied OperationState StartLambda, Copied StartLambda ScheduleLambda, Copied ScheduleLambda QueuedTask]"

text \<open>\<open>wait\<close> up to the push, and its return; \<open>start\<close> has no local receiver but a temporary.\<close>

definition wait_pushes :: "(nat \<Rightarrow> bool) \<Rightarrow> nat \<Rightarrow> owner_event list" where
  "wait_pushes elides n = connect_owners elides n LocalReceiver OperationState @ schedule_owners"

definition wait_leaves :: "owner_event list" where
  "wait_leaves =
     [Destroyed ScheduleLambda, Destroyed StartLambda, Destroyed OperationState, Destroyed LocalReceiver]"

definition start_pushes :: "(nat \<Rightarrow> bool) \<Rightarrow> nat \<Rightarrow> owner_event list" where
  "start_pushes elides n =
     connect_owners elides n LocalReceiver OperationState @ [Destroyed LocalReceiver] @ schedule_owners"

definition start_leaves :: "owner_event list" where
  "start_leaves = [Destroyed ScheduleLambda, Destroyed StartLambda, Destroyed OperationState]"

text \<open>A task that is destroyed, after it ran or instead, when it is the last owner.\<close>

definition drop_task :: "promise \<Rightarrow> 'v store \<Rightarrow> 'v store option" where
  "drop_task p h = map_option snd (owner_step p (Destroyed QueuedTask) ({QueuedTask}, h))"

subsection \<open>Owners and the store\<close>

lemma drop_task_destroys: "drop_task p h = promise_destroy p h"
  by (cases "promise_destroy p h") (simp_all add: drop_task_def)

lemma owner_step_nonempty: "owner_step p e (os, h) = Some (os', h') \<Longrightarrow> os \<noteq> {}"
  by (cases e) (auto split: if_splits)

lemma owner_step_store: "owner_step p e (os, h) = Some (os', h') \<Longrightarrow> os' \<noteq> {} \<Longrightarrow> h' = h"
  by (cases e) (auto split: if_splits)

text \<open>The promise is left alone as long as it has an owner.\<close>

lemma owners_keep_store:
  "run (owner_step p) es (os, h) = Some (os', h') \<Longrightarrow> os' \<noteq> {} \<Longrightarrow> h' = h"
proof (induction es arbitrary: os h)
  case (Cons e es)
  then obtain os1 h1 where step: "owner_step p e (os, h) = Some (os1, h1)"
    and rest: "run (owner_step p) es (os1, h1) = Some (os', h')"
    by (auto split: option.splits)
  from rest Cons.prems(2) have "os1 \<noteq> {}"
    by (cases es) (auto split: option.splits dest: owner_step_nonempty)
  with owner_step_store [OF step] Cons.IH [OF rest Cons.prems(2)] show ?case by simp
qed simp

lemma owners_before_last:
  assumes "run (owner_step p) es (os, h) = Some s" and "i < length es"
  shows "\<exists>os'. os' \<noteq> {} \<and> run (owner_step p) (take i es) (os, h) = Some (os', h)"
proof -
  from assms(2) have es: "es = take i es @ es ! i # drop (Suc i) es"
    by (rule id_take_nth_drop)
  from assms(1) es obtain os' h' where pre: "run (owner_step p) (take i es) (os, h) = Some (os', h')"
    and post: "run (owner_step p) (es ! i # drop (Suc i) es) (os', h') = Some s"
    by (metis (no_types, lifting) option.case_eq_if option.collapse option.discI run_append surj_pair)
  from post have "os' \<noteq> {}" by (auto split: option.splits dest: owner_step_nonempty)
  with pre owners_keep_store [OF pre] show ?thesis by blast
qed

subsection \<open>What is left\<close>

text \<open>\<open>connect\<close> leaves the receiver it was given and the operation state.\<close>

lemma connect_owners_run:
  assumes "source \<in> os" and "target \<notin> os"
    and "\<forall>i < n. AdapterTemporary i \<notin> insert target os \<and> InnerState i \<notin> insert target os"
  shows "run (owner_step p) (connect_owners elides n source target) (os, h) = Some (insert target os, h)"
  using assms
proof (induction n arbitrary: source target os)
  case (Suc n)
  let ?a = "AdapterTemporary n" and ?i = "InnerState n"
  have fresh: "?a \<notin> os" "?i \<notin> os" "target \<noteq> ?a" "target \<noteq> ?i" using Suc.prems(3) by auto
  have IH: "run (owner_step p) (connect_owners elides n ?a t) (insert ?a os, h) = Some (insert t (insert ?a os), h)"
    if "t = target \<or> t = ?i" for t
    using Suc.prems fresh that by (intro Suc.IH) (auto simp: less_Suc_eq)
  have remove: "insert target (insert ?a os) - {?a} = insert target os" using fresh by auto
  have remove2: "insert target (insert ?i (insert ?a os)) - {?i} = insert target (insert ?a os)" using fresh by auto
  have many: "insert target (insert ?a os) \<noteq> {?a}" "insert target (insert ?i (insert ?a os)) \<noteq> {?i}"
    using fresh by auto
  show ?case
    using Suc.prems(1,2) fresh remove remove2 many IH [of target] IH [of ?i]
    by (simp add: run_append insert_commute)
qed simp

lemma wait_pushes_run:
  "run (owner_step p) (wait_pushes elides n) ({LocalReceiver}, h) =
     Some ({LocalReceiver, OperationState, StartLambda, ScheduleLambda, QueuedTask}, h)"
  by (simp add: wait_pushes_def schedule_owners_def run_append connect_owners_run insert_commute)

lemma wait_leaves_run:
  "run (owner_step p) wait_leaves ({LocalReceiver, OperationState, StartLambda, ScheduleLambda, QueuedTask}, h) =
     Some ({QueuedTask}, h)"
  by (simp add: wait_leaves_def insert_commute insert_Diff_if)

text \<open>After \<open>wait\<close> and after \<open>start\<close> the task in the queue is the only owner.\<close>

lemma wait_owners_run:
  "run (owner_step p) (wait_pushes elides n @ wait_leaves) ({LocalReceiver}, h) = Some ({QueuedTask}, h)"
  by (simp add: run_append wait_pushes_run wait_leaves_run)

lemma start_owners_run:
  "run (owner_step p) (start_pushes elides n @ start_leaves) ({LocalReceiver}, h) = Some ({QueuedTask}, h)"
  by (simp add: start_pushes_def start_leaves_def schedule_owners_def run_append connect_owners_run
      insert_commute insert_Diff_if)

text \<open>A worker can destroy the task while \<open>wait\<close> is still on its way out; the last owner is then a local
  object of \<open>wait\<close>.\<close>

lemma wait_leaves_shuffled:
  assumes "es \<in> shuffles wait_leaves [Destroyed QueuedTask]"
  shows "run (owner_step p) es ({LocalReceiver, OperationState, StartLambda, ScheduleLambda, QueuedTask}, h) =
    map_option (Pair {}) (promise_destroy p h)"
  using assms
  by (auto simp: wait_leaves_def insert_commute insert_Diff_if split: option.splits)

end
