(* ===== verification/Senders.thy ===== *)
theory Senders
  imports Owners
begin

section \<open>Senders (\<open>schedule.hpp\<close>, \<open>then.hpp\<close>, \<open>start.hpp\<close>, \<open>wait.hpp\<close>, \<open>details/sender_adapter.hpp\<close>)\<close>

text \<open>
  A sender is connected to a receiver, which gives an operation state, and the operation is
  started. Starting a scheduled operation hands one task to its scheduler; the task runs later,
  on another thread, or is dropped. So \<open>start\<close> yields the submissions it makes, pairs of a
  scheduler and a task. \<open>then\<close> wraps the receiver in an adapter that runs a function on the value
  and passes its result on. A function given to \<open>then\<close> is \<open>'a \<Rightarrow> 'w \<Rightarrow> 'b result \<times> 'w\<close>: it acts on the
  program's state and returns a value or throws. A function without arguments, or without a
  result, takes or gives a \<open>unit\<close>.
\<close>

subsection \<open>Operation states and senders\<close>

type_synonym ('a, 'b, 'w) invocable = "'a \<Rightarrow> 'w \<Rightarrow> 'b result \<times> 'w"

type_synonym ('s, 'w) submissions = "('s \<times> 'w action) list"

text \<open>\<open>schedule_state\<close>: a receiver and a scheduler.\<close>

record ('s, 'w) schedule_state =
  m_receiver :: "(unit, 'w) receiver"
  m_scheduler :: 's

text \<open>The lambda of \<open>schedule_state::start\<close>. The catch clause sees what \<open>complete\<close> throws.\<close>

definition schedule_task :: "(unit, 'w) receiver \<Rightarrow> 'w action" where
  "schedule_task r w =
     (if \<not> is_canceled r w
      then (case complete r () w of (Throws e, w') \<Rightarrow> fail r e w' | (c, w') \<Rightarrow> (c, w'))
      else (Normal, w))"

definition schedule_start :: "('s, 'w) schedule_state \<Rightarrow> ('s, 'w) submissions" where
  "schedule_start st = [(m_scheduler st, schedule_task (m_receiver st))]"

text \<open>A sender is its \<open>connect\<close> followed by \<open>start\<close> of what it gives.\<close>

type_synonym ('v, 's, 'w) sender = "('v, 'w) receiver \<Rightarrow> ('s, 'w) submissions"

definition schedule_connect :: "'s \<Rightarrow> (unit, 'w) receiver \<Rightarrow> ('s, 'w) schedule_state" where
  "schedule_connect scheduler r = \<lparr>m_receiver = r, m_scheduler = scheduler\<rparr>"

definition schedule_sender :: "'s \<Rightarrow> (unit, 's, 'w) sender" where
  "schedule_sender scheduler r = schedule_start (schedule_connect scheduler r)"

definition schedule :: "'s \<Rightarrow> (unit, 's, 'w) sender" where
  "schedule scheduler = schedule_sender scheduler"

subsection \<open>\<open>then\<close>\<close>

text \<open>\<open>receiver_adapter\<close>: \<open>complete\<close> invokes the function and completes the inner receiver with its
  result; an exception out of the function leaves \<open>complete\<close>. The other operations forward; \<open>fail\<close>
  and \<open>cancel\<close> are \<open>noexcept\<close>.\<close>

definition adapter_complete :: "('b, 'w) receiver \<Rightarrow> ('a, 'b, 'w) invocable \<Rightarrow> 'a \<Rightarrow> 'w action" where
  "adapter_complete r f v w =
     (case f v w of
        (Inl e, w') \<Rightarrow> (Throws e, w')
      | (Inr x, w') \<Rightarrow> complete r x w')"

definition receiver_adapter :: "('b, 'w) receiver \<Rightarrow> ('a, 'b, 'w) invocable \<Rightarrow> ('a, 'w) receiver" where
  "receiver_adapter r f =
     \<lparr>complete = adapter_complete r f, fail = (\<lambda>e. noexcept (fail r e)), cancel = noexcept (cancel r),
      is_canceled = is_canceled r\<rparr>"

text \<open>\<open>composite_state\<close> forwards \<open>start\<close>.\<close>

definition composite_start :: "('s, 'w) submissions \<Rightarrow> ('s, 'w) submissions" where
  "composite_start state_start = state_start"

definition sender_adapter :: "('a, 's, 'w) sender \<Rightarrow> ('a, 'b, 'w) invocable \<Rightarrow> ('b, 's, 'w) sender" where
  "sender_adapter sender f r = composite_start (sender (receiver_adapter r f))"

definition then_sender :: "('a, 's, 'w) sender \<Rightarrow> ('a, 'b, 'w) invocable \<Rightarrow> ('b, 's, 'w) sender" where
  "then_sender sender f = sender_adapter sender f"

subsection \<open>\<open>start\<close> and \<open>wait\<close>\<close>

text \<open>Both connect the sender to a new value receiver; \<open>wait\<close> also returns its future.\<close>

definition wait_sender ::
  "('v, 's, ('v, 'u) value_world) sender \<Rightarrow> 'v store \<Rightarrow>
     future \<times> promise \<times> ('s, ('v, 'u) value_world) submissions \<times> 'v store" where
  "wait_sender sender h =
     (let (p, h0) = value_receiver_new h
      in (value_get_future p, p, sender (value_receiver p), h0))"

definition start_sender ::
  "('v, 's, ('v, 'u) value_world) sender \<Rightarrow> 'v store \<Rightarrow> ('s, ('v, 'u) value_world) submissions \<times> 'v store" where
  "start_sender sender h = (let (p, h0) = value_receiver_new h in (sender (value_receiver p), h0))"

subsection \<open>Pipelines\<close>

text \<open>\<open>then(then(then(schedule(s), first), f1), f2)\<close> and so on.\<close>

definition pipeline ::
  "'s \<Rightarrow> (unit, 'v, 'w) invocable \<Rightarrow> ('v, 'v, 'w) invocable list \<Rightarrow> ('v, 's, 'w) sender" where
  "pipeline scheduler first fs = foldl then_sender (then_sender (schedule scheduler) first) fs"

text \<open>What a pipeline computes: the functions one after the other up to the first that throws.\<close>

fun run_steps :: "('v, 'v, 'w) invocable list \<Rightarrow> 'v result \<times> 'w \<Rightarrow> 'v result \<times> 'w" where
  "run_steps [] s = s"
| "run_steps (f # fs) (Inl e, w) = (Inl e, w)"
| "run_steps (f # fs) (Inr v, w) = run_steps fs (f v w)"

text \<open>Functions that act on their own state beside the store of shared states.\<close>

definition beside :: "('a, 'b, 'u) invocable \<Rightarrow> ('a, 'b, ('v, 'u) value_world) invocable" where
  "beside f v s = (let (r, u') = f v (snd s) in (r, (fst s, u')))"

subsection \<open>The contract of a receiver with \<open>noexcept\<close> \<open>fail\<close> and \<open>cancel\<close>\<close>

definition wrap :: "('v, 'v, 'w) invocable list \<Rightarrow> ('v, 'w) receiver \<Rightarrow> ('v, 'w) receiver" where
  "wrap fs r = foldr (\<lambda>f r. receiver_adapter r f) fs r"

lemma noexcept_noexcept [simp]: "noexcept (noexcept a) = noexcept a"
  by (rule ext) (auto simp: noexcept_def split: prod.splits completion.splits)

lemma foldl_then_sender: "foldl then_sender s fs r = s (wrap fs r)"
  by (induction fs arbitrary: s)
     (simp_all add: wrap_def then_sender_def sender_adapter_def composite_start_def)

lemma pipeline_eq:
  "pipeline scheduler first fs r = [(scheduler, schedule_task (receiver_adapter (wrap fs r) first))]"
  by (simp add: pipeline_def foldl_then_sender)
     (simp add: then_sender_def sender_adapter_def composite_start_def schedule_def schedule_sender_def
       schedule_start_def schedule_connect_def)

lemma run_steps_Inl [simp]: "run_steps fs (Inl e, w) = (Inl e, w)"
  by (cases fs) auto

lemma receiver_adapter_sel [simp]:
  "complete (receiver_adapter r f) = adapter_complete r f"
  "fail (receiver_adapter r f) e = noexcept (fail r e)"
  "receiver.cancel (receiver_adapter r f) = noexcept (receiver.cancel r)"
  "receiver.is_canceled (receiver_adapter r f) = receiver.is_canceled r"
  by (simp_all add: receiver_adapter_def)

lemma wrap_complete:
  "complete (wrap fs r) v w =
     (case run_steps fs (Inr v, w) of (Inl e, w') \<Rightarrow> (Throws e, w') | (Inr x, w') \<Rightarrow> complete r x w')"
proof (induction fs arbitrary: v w)
  case (Cons f fs)
  have "complete (wrap (f # fs) r) v w = adapter_complete (wrap fs r) f v w"
    by (simp add: wrap_def)
  with Cons show ?case
    by (cases "f v w"; cases "fst (f v w)") (auto simp: adapter_complete_def)
qed (simp add: wrap_def)

lemma wrap_is_canceled: "receiver.is_canceled (wrap fs r) = receiver.is_canceled r"
  by (induction fs) (simp_all add: wrap_def)

locale noexcept_receiver =
  fixes r :: "('v, 'w) receiver"
  assumes fail_noexcept: "noexcept (fail r e) = fail r e"
    and cancel_noexcept: "noexcept (receiver.cancel r) = receiver.cancel r"
begin

lemma wrap_fail: "fail (wrap fs r) e = fail r e"
  by (induction fs) (simp_all add: wrap_def fail_noexcept)

text \<open>The task of a pipeline: nothing when the receiver is cancelled; else the functions in order,
  and then \<open>complete\<close> or \<open>fail\<close>.\<close>

lemma pipeline_task:
  "schedule_task (receiver_adapter (wrap fs r) first) w =
     (if receiver.is_canceled r w then (Normal, w)
      else (case run_steps fs (first () w) of
              (Inl e, w') \<Rightarrow> fail r e w'
            | (Inr v, w') \<Rightarrow>
                (case complete r v w' of (Throws e, w'') \<Rightarrow> fail r e w'' | (c, w'') \<Rightarrow> (c, w''))))"
proof -
  obtain x w1 where x: "first () w = (x, w1)" by fastforce
  show ?thesis
    by (cases x)
       (auto simp: schedule_task_def adapter_complete_def x wrap_is_canceled wrap_complete wrap_fail fail_noexcept
         split: prod.splits sum.splits completion.splits)
qed

end

interpretation value_rcv: noexcept_receiver "value_receiver p" for p
  by unfold_locales (simp_all add: value_receiver_def value_fail_def value_cancel_def)

lemma noexcept_callback:
  "noexcept (callback_fail e) = callback_fail e"
  "noexcept callback_cancel = callback_cancel"
  by (rule ext, auto simp: callback_defs noexcept_def compare_exchange_strong_def
      split: prod.splits completion.splits if_splits)+

interpretation callback_rcv: noexcept_receiver callback_receiver_ops
  by unfold_locales (simp_all add: callback_receiver_ops_def noexcept_callback)

lemma run_steps_beside:
  "run_steps (map beside fs) (r, (h, u)) = (let (r', u') = run_steps fs (r, u) in (r', (h, u')))"
proof (induction fs arbitrary: r u)
  case (Cons f fs)
  then show ?case
    by (cases r) (auto simp: beside_def Let_def split: prod.splits)
qed simp

lemma wait_sender_eq:
  "wait_sender sender h =
     (let p = \<lparr>p_shared_state = Some (length h)\<rparr>
      in (\<lparr>f_shared_state = Some (length h)\<rparr>, p, sender (value_receiver p), h @ [shared_state_new]))"
  by (simp add: wait_sender_def value_receiver_new_def promise_new_def value_get_future_def get_future_eq
      Let_def)

lemma value_complete_eq:
  "p_shared_state p = Some a \<Longrightarrow> a < length h \<Longrightarrow>
     complete (value_receiver p) v (h, u) = (Normal, (h[a := settle (SetValue (result_of_value v)) (h ! a)], u))"
  using deliver_value [of p a h "Complete v" u] by simp

lemma value_fail_eq:
  "p_shared_state p = Some a \<Longrightarrow> a < length h \<Longrightarrow>
     fail (value_receiver p) e (h, u) = (Normal, (h[a := settle (SetException e) (h ! a)], u))"
  using deliver_value [of p a h "Fail e" u] by simp

lemma value_is_canceled_eq:
  "p_shared_state p = Some a \<Longrightarrow> a < length h \<Longrightarrow>
     receiver.is_canceled (value_receiver p) (h, u) \<longleftrightarrow> Canceled = shared_state.m_state (h ! a)"
  by (simp add: value_receiver_def value_is_canceled_def promise_is_canceled_def Future.is_canceled_def)

lemma future_get_settled:
  assumes "\<not> is_ready s"
  shows "\<exists>h'. future_get moved \<lparr>f_shared_state = Some (length h)\<rparr> (h @ [settle c s]) =
    Result (settled_get c) h'"
  using get_settle [OF assms, of moved c] by (auto simp: future_get_def nth_append)

lemma new_not_ready: "\<not> is_ready shared_state_new"
  by (simp add: is_ready_def shared_state_new_def)

lemma pipeline_run:
  "let (f, p, subs, h0) = wait_sender (pipeline scheduler (beside first) (map beside fs)) h;
       (scheduler', task) = hd subs;
       (c, (h1, u1)) = task (h0, u);
       (r, u') = run_steps fs (first () u)
   in length subs = 1 \<and> scheduler' = scheduler \<and> c = Normal \<and> u1 = u'
    \<and> (\<exists>h2. future_get moved f h1 =
          Result (case r of Inl e \<Rightarrow> Inl e | Inr v \<Rightarrow> Inr (result_of_value v)) h2)"
proof -
  let ?p = "\<lparr>p_shared_state = Some (length h)\<rparr>" and ?h = "h @ [shared_state_new]"
  have ready: "\<not> receiver.is_canceled (value_receiver ?p) (?h, u)"
    by (simp add: value_is_canceled_eq shared_state_new_def)
  obtain r u' where ru: "run_steps fs (first () u) = (r, u')" by fastforce
  obtain x u0 where x: "first () u = (x, u0)" by fastforce
  have steps: "run_steps (map beside fs) (beside first () (?h, u)) = (r, (?h, u'))"
    using ru by (simp add: beside_def x run_steps_beside)
  let ?c = "case r of Inl e \<Rightarrow> SetException e | Inr v \<Rightarrow> SetValue (result_of_value v)"
  have task: "schedule_task (receiver_adapter (wrap (map beside fs) (value_receiver ?p)) (beside first)) (?h, u)
      = (Normal, (h @ [settle ?c shared_state_new], u'))"
    by (cases r)
       (simp_all add: value_rcv.pipeline_task ready steps value_complete_eq value_fail_eq nth_append
         del: settle.simps)
  have get: "settled_get ?c = (case r of Inl e \<Rightarrow> Inl e | Inr v \<Rightarrow> Inr (result_of_value v))"
    by (cases r) simp_all
  show ?thesis
    using future_get_settled [OF new_not_ready, of moved h ?c]
    by (simp add: wait_sender_eq pipeline_eq Let_def ru task get del: settle.simps)
qed

subsection \<open>Properties\<close>

text \<open>C26: a pipeline computes the composition of its functions. \<open>wait\<close> on
  \<open>schedule | then first | then f1 | ...\<close> submits one task, to the scheduler it was given. When
  the task runs, the functions run in order up to the first that throws, each on the result of
  the one before; the task itself neither throws nor ends the program; and the future gets the
  last result, or the exception.\<close>

theorem pipeline_runs:
  "let (f, p, subs, h0) = wait_sender (pipeline scheduler (beside first) (map beside fs)) h;
       (scheduler', task) = hd subs;
       (c, (h1, u1)) = task (h0, u);
       (r, u') = run_steps fs (first () u)
   in length subs = 1 \<and> scheduler' = scheduler \<and> c = Normal \<and> u1 = u'
    \<and> (\<exists>h2. future_get moved f h1 =
          Result (case r of Inl e \<Rightarrow> Inl e | Inr v \<Rightarrow> Inr (result_of_value v)) h2)"
  by (rule pipeline_run)

text \<open>C27: cancelling the future before the task has run suppresses the whole pipeline: the task
  runs none of its functions and changes nothing, and the future gets a cancelled result.\<close>

theorem pipeline_cancelled:
  "let (f, p, subs, h0) = wait_sender (pipeline scheduler (beside first) (map beside fs)) h;
       (scheduler', task) = hd subs
   in \<exists>h1 h2. future_cancel f h0 = Some h1 \<and> task (h1, u) = (Normal, (h1, u))
        \<and> future_get moved f h1 = Result (Inr result_nullopt) h2"
proof -
  let ?h1 = "h @ [settle Cancel shared_state_new]"
  have canceled: "receiver.is_canceled (value_receiver \<lparr>p_shared_state = Some (length h)\<rparr>) (?h1, u)"
    by (simp add: value_is_canceled_eq settle_eq shared_state_new_def is_ready_def del: settle.simps)
  then show ?thesis
    using future_get_settled [OF new_not_ready, of moved h Cancel]
    by (simp add: wait_sender_eq pipeline_eq Let_def value_rcv.pipeline_task future_cancel_def modify_def
        nth_append)
qed



text \<open>A pipeline into a callback receiver never runs. \<open>is_canceled\<close> of the callback receiver
  answers true unless it has failed, so the scheduled task of a new one does nothing: no
  function runs and no handler is called. (On the adapter of the round-robin scheduler, whose
  tasks must be copyable, such a pipeline does not compile: theory \<open>PipelineTypes\<close>.)\<close>

theorem callback_pipeline_never_runs:
  "let cb = callback_receiver_new on_complete on_error on_cancel
   in map (\<lambda>(s, task). task (cb, w)) (pipeline scheduler first fs callback_receiver_ops) =
        [(Normal, (cb, w))]"
  by (simp add: Let_def pipeline_eq callback_rcv.pipeline_task)
     (simp add: callback_receiver_ops_def callback_is_canceled_def callback_receiver_new_def)

end
