(* ===== verification/PoolFutures.thy ===== *)
theory PoolFutures
  imports ThreadPool Senders
begin

section \<open>From \<open>wait\<close> through the thread pool to the future\<close>

text \<open>
  The components put together: clients call \<open>wait\<close> on pipelines scheduled on a thread pool, and
  cancel futures; workers run the tasks, function by function, with other threads in between; the destructor of the pool drops what is still
  queued. A task is named by the index of its promise in the store of shared states; \<open>body\<close> gives
  the functions of each pipeline. Destroying a task, after it ran or when its queue is cleared,
  destroys its promise.
\<close>

type_synonym ('v, 'u) body = "nat \<Rightarrow> (unit, 'v, 'u) invocable \<times> ('v, 'v, 'u) invocable list"

text \<open>How far the call of a task has come: the result of the last function and the functions left.\<close>

type_synonym ('v, 'u) call_state = "'v result \<times> ('v, 'v, 'u) invocable list"

record ('v, 'u) service =
  the_pool :: "nat pool"
  the_store :: "'v store"
  the_rest :: 'u
  the_calls :: "nat \<Rightarrow> ('v, 'u) call_state option"

definition pipeline_of :: "('v, 'u) body \<Rightarrow> nat \<Rightarrow> ('v, unit, ('v, 'u) value_world) sender" where
  "pipeline_of body a = pipeline () (beside (fst (body a))) (map beside (snd (body a)))"

definition promise_at :: "nat \<Rightarrow> promise" where
  "promise_at a = \<lparr>p_shared_state = Some a\<rparr>"

text \<open>The task that \<open>wait\<close> submitted for the promise \<open>a\<close>.\<close>

definition task_of :: "('v, 'u) body \<Rightarrow> nat \<Rightarrow> ('v, 'u) value_world action" where
  "task_of body a = snd (hd (pipeline_of body a (value_receiver (promise_at a))))"

text \<open>\<open>task.value()()\<close> in \<open>run()\<close>, which is \<open>noexcept\<close>: an exception out of the task ends the program.\<close>

definition run_call :: "('v, 'u) body \<Rightarrow> nat \<Rightarrow> ('v, 'u) value_world action" where
  "run_call body a = noexcept (task_of body a)"

text \<open>The same in steps, each the call of one function or the settlement of the promise, so that other
  threads can run in between: nothing for a cancelled receiver; otherwise the adapters call their
  functions, each with the result of the one before; an exception out of a function or of
  \<open>complete\<close> is caught and fails the receiver.\<close>

datatype ('v, 'u) call_outcome = Continues "('v, 'u) call_state" | Ends completion

fun call_step ::
  "('v, 'u) body \<Rightarrow> nat \<Rightarrow> ('v, 'u) call_state option \<Rightarrow> ('v, 'u) value_world \<Rightarrow>
     ('v, 'u) call_outcome \<times> ('v, 'u) value_world" where
  "call_step body a None w =
     (if receiver.is_canceled (value_receiver (promise_at a)) w then (Ends Normal, w)
      else (let (r, w') = beside (fst (body a)) () w in (Continues (r, snd (body a)), w')))"
| "call_step body a (Some (Inl e, fs)) w = (let (c, w') = fail (value_receiver (promise_at a)) e w in (Ends c, w'))"
| "call_step body a (Some (Inr v, f # fs)) w = (let (r, w') = beside f v w in (Continues (r, fs), w'))"
| "call_step body a (Some (Inr v, [])) w =
     (case complete (value_receiver (promise_at a)) v w of
        (Throws e, w') \<Rightarrow> (Continues (Inl e, []), w')
      | (c, w') \<Rightarrow> (Ends c, w'))"

fun call_left :: "('v, 'u) body \<Rightarrow> nat \<Rightarrow> ('v, 'u) call_state option \<Rightarrow> nat" where
  "call_left body a None = length (snd (body a)) + 3"
| "call_left body a (Some (Inr v, fs)) = length fs + 2"
| "call_left body a (Some (Inl e, fs)) = 1"

lemma call_step_left:
  "call_step body a st w = (Continues st', w') \<Longrightarrow> call_left body a (Some st') < call_left body a st"
proof (induction body a st w rule: call_step.induct)
  case (1 body a w)
  then show ?case by (cases st'; cases "fst st'") (auto split: if_splits prod.splits)
next
  case (3 body a v f fs w)
  then show ?case by (cases st'; cases "fst st'") (auto split: prod.splits)
qed (auto split: prod.splits completion.splits)

definition drop_all :: "nat list \<Rightarrow> 'v store \<Rightarrow> 'v store" where
  "drop_all as h = fold (\<lambda>a h. the (drop_task (promise_at a) h)) as h"

text \<open>The tasks that the next step of \<open>join()\<close> drops.\<close>

definition drops :: "nat pool \<Rightarrow> nat list" where
  "drops p =
     (case joiner p of
        Clearing k \<Rightarrow> if k < length (queues p) then m_container (queues p ! k) else []
      | _ \<Rightarrow> [])"

abbreviation is_running :: "'t pool \<Rightarrow> nat \<Rightarrow> bool" where
  "is_running p i \<equiv> \<exists>idx t. worker_is p i (Running idx t)"

datatype service_act = ClientWait | ClientCancel nat | Worker nat | Shutdown

inductive service_step ::
  "('v, 'u) body \<Rightarrow> service_act \<Rightarrow> ('v, 'u) service \<Rightarrow> ('v, 'u) service \<Rightarrow> bool" for body where
  client_wait:
    "wait_sender (pipeline_of body (length (the_store s))) (the_store s) = (f, prom, subs, h0) \<Longrightarrow>
     pool_step (Submit (length (the_store s))) (the_pool s) p' \<Longrightarrow>
     service_step body ClientWait s (s\<lparr>the_pool := p', the_store := h0\<rparr>)"
| client_cancel:
    "future_cancel (get_future (promise_at a)) (the_store s) = Some h' \<Longrightarrow>
     service_step body (ClientCancel a) s (s\<lparr>the_store := h'\<rparr>)"
| worker_calls:
    "worker_is (the_pool s) i (Running idx a) \<Longrightarrow>
     call_step body a (the_calls s a) (the_store s, the_rest s) = (Continues st, (h1, u1)) \<Longrightarrow>
     service_step body (Worker i) s (s\<lparr>the_store := h1, the_rest := u1, the_calls := (the_calls s)(a \<mapsto> st)\<rparr>)"
| worker_ends:
    "worker_is (the_pool s) i (Running idx a) \<Longrightarrow> pool_step (Work i) (the_pool s) p' \<Longrightarrow>
     call_step body a (the_calls s a) (the_store s, the_rest s) = (Ends Normal, (h1, u1)) \<Longrightarrow>
     drop_task (promise_at a) h1 = Some h2 \<Longrightarrow>
     service_step body (Worker i) s
       (s\<lparr>the_pool := p', the_store := h2, the_rest := u1, the_calls := (the_calls s)(a := None)\<rparr>)"
| worker_other:
    "\<not> is_running (the_pool s) i \<Longrightarrow> pool_step (Work i) (the_pool s) p' \<Longrightarrow>
     service_step body (Worker i) s (s\<lparr>the_pool := p'\<rparr>)"
| shutdown:
    "pool_step Join (the_pool s) p' \<Longrightarrow>
     service_step body Shutdown s
       (s\<lparr>the_pool := p', the_store := drop_all (drops (the_pool s)) (the_store s)\<rparr>)"

text \<open>When \<open>join()\<close> has returned, the members of the pool are destroyed: the scheduler, its queues, and
  with them the tasks that were submitted too late for \<open>clear()\<close>.\<close>

definition destroy_members :: "('v, 'u) service \<Rightarrow> 'v store" where
  "destroy_members s = drop_all (concat (map m_container (queues (the_pool s)))) (the_store s)"

definition service_start :: "('v, 'u) service \<Rightarrow> bool" where
  "service_start s \<longleftrightarrow> pool_start (the_pool s) \<and> the_store s = [] \<and> the_calls s = (\<lambda>_. None)"

abbreviation service_new :: "nat pool \<Rightarrow> 'u \<Rightarrow> ('v, 'u) service" where
  "service_new p u \<equiv> \<lparr>the_pool = p, the_store = [], the_rest = u, the_calls = (\<lambda>_. None)\<rparr>"

text \<open>Every promise is the task of one submission; the tasks that have run or were dropped have
  settled their promise, the others have not, unless it was cancelled.\<close>

definition outstanding :: "'t pool \<Rightarrow> 't multiset" where
  "outstanding p = pending_tasks (pool.m_scheduler p) + running_tasks p"

definition finished :: "'t pool \<Rightarrow> 't multiset" where
  "finished p = executed p + dropped p"

definition unsettled :: "'v shared_state \<Rightarrow> bool" where
  "unsettled c \<longleftrightarrow> shared_state.m_state c = Init \<or> shared_state.m_state c = Canceled"

definition service_inv :: "('v, 'u) service \<Rightarrow> bool" where
  "service_inv s \<longleftrightarrow>
     pool_inv (the_pool s)
     \<and> submitted (the_pool s) = mset [0..<length (the_store s)]
     \<and> (\<forall>a \<in># finished (the_pool s). is_ready (the_store s ! a))
     \<and> (\<forall>a \<in># outstanding (the_pool s). unsettled (the_store s ! a))"

subsection \<open>Effects on the store\<close>

lemma broken_ready: "is_ready c \<Longrightarrow> broken c = c"
  using shared.submit_later [of c Break] by simp

lemma broken_is_ready: "is_ready (broken c)"
  by (cases "is_ready c") (auto simp: broken_ready broken_def is_ready_def)

lemma drop_task_eq:
  "a < length h \<Longrightarrow> drop_task (promise_at a) h = Some (h[a := broken (h ! a)])"
  by (simp add: drop_task_destroys promise_destroy_def promise_at_def modify_def)

lemma drop_all_effect:
  assumes "\<forall>a \<in> set as. a < length h"
  shows "length (drop_all as h) = length h \<and> (\<forall>a \<in> set as. is_ready (drop_all as h ! a))
    \<and> (\<forall>b < length h. is_ready (h ! b) \<longrightarrow> drop_all as h ! b = h ! b)
    \<and> (\<forall>b < length h. b \<notin> set as \<longrightarrow> drop_all as h ! b = h ! b)"
  using assms
proof (induction as arbitrary: h)
  case (Cons a as)
  let ?h = "h[a := broken (h ! a)]"
  have eq: "drop_all (a # as) h = drop_all as ?h"
    using Cons.prems by (simp add: drop_all_def drop_task_eq)
  have IH: "length (drop_all as ?h) = length ?h" "\<forall>a \<in> set as. is_ready (drop_all as ?h ! a)"
    "\<forall>b < length ?h. is_ready (?h ! b) \<longrightarrow> drop_all as ?h ! b = ?h ! b"
    "\<forall>b < length ?h. b \<notin> set as \<longrightarrow> drop_all as ?h ! b = ?h ! b"
    using Cons.IH [of ?h] Cons.prems by auto
  have "is_ready (drop_all as ?h ! a)"
    using IH(3) Cons.prems broken_is_ready by (metis length_list_update list.set_intros(1) nth_list_update_eq)
  with IH Cons.prems show ?case
    unfolding eq by (auto simp: nth_list_update broken_ready)
qed (simp add: drop_all_def)

lemma task_of_eq:
  "task_of body a = schedule_task
     (receiver_adapter (wrap (map beside (snd (body a))) (value_receiver (promise_at a))) (beside (fst (body a))))"
  by (simp add: task_of_def pipeline_of_def pipeline_eq)

text \<open>Running a task: nothing when its promise was cancelled; otherwise the functions of its pipeline
  one after the other, and then the settlement of its own promise and no other. It returns normally.\<close>

definition pipeline_result :: "('v, 'u) body \<Rightarrow> nat \<Rightarrow> 'u \<Rightarrow> 'v result \<times> 'u" where
  "pipeline_result body a u = run_steps (snd (body a)) (fst (body a) () u)"

fun result_settlement :: "'v result \<Rightarrow> 'v settlement" where
  "result_settlement (Inl e) = SetException e"
| "result_settlement (Inr v) = SetValue (result_of_value v)"

lemma task_of_run:
  assumes "a < length h"
  shows "task_of body a (h, u) =
    (if Canceled = shared_state.m_state (h ! a) then (Normal, (h, u))
     else (let (r, u') = pipeline_result body a u
           in (Normal, (h[a := settle (result_settlement r) (h ! a)], u'))))"
proof -
  have p: "p_shared_state (promise_at a) = Some a" by (simp add: promise_at_def)
  note canceled = value_is_canceled_eq [OF p assms, of u]
  obtain r u1 where first: "fst (body a) () u = (r, u1)" by fastforce
  obtain r' u' where rest: "run_steps (snd (body a)) (r, u1) = (r', u')" by fastforce
  have steps: "run_steps (map beside (snd (body a))) (beside (fst (body a)) () (h, u)) = (r', (h, u'))"
    by (simp add: beside_def first rest run_steps_beside)
  have res: "pipeline_result body a u = (r', u')" by (simp add: pipeline_result_def first rest)
  show ?thesis
    by (cases r')
       (auto simp: task_of_eq value_rcv.pipeline_task canceled steps res value_complete_eq [OF p assms]
         value_fail_eq [OF p assms] simp del: settle.simps)
qed

lemma settle_ready: "is_ready (settle c x)"
  using shared.submit_first [of x c] by (cases "is_ready x") (auto simp: settle_eq is_ready_def)

lemma task_of_effect:
  assumes "a < length h"
  shows "\<exists>c u'. task_of body a (h, u) = (Normal, (h[a := c], u')) \<and> is_ready c"
proof (cases "Canceled = shared_state.m_state (h ! a)")
  case True
  then have "task_of body a (h, u) = (Normal, (h[a := h ! a], u))" by (simp add: task_of_run [OF assms])
  with True show ?thesis by (metis is_ready_def state.distinct(5))
next
  case False
  then show ?thesis
    using settle_ready by (auto simp: task_of_run [OF assms] split: prod.splits simp del: settle.simps)
qed

lemma run_call_effect:
  "a < length h \<Longrightarrow> \<exists>c u'. run_call body a (h, u) = (Normal, (h[a := c], u')) \<and> is_ready c"
  using task_of_effect [of a h body u] by (auto simp: run_call_def noexcept_def)

text \<open>Without other threads in between the steps of a call are the task.\<close>

function call_all ::
  "('v, 'u) body \<Rightarrow> nat \<Rightarrow> ('v, 'u) call_state option \<Rightarrow> ('v, 'u) value_world action" where
  "call_all body a st w =
     (case call_step body a st w of
        (Continues st', w') \<Rightarrow> call_all body a (Some st') w'
      | (Ends c, w') \<Rightarrow> (c, w'))"
  by pat_completeness auto

termination
  by (relation "measure (\<lambda>(body, a, st, w). call_left body a st)") (auto dest!: call_step_left [OF sym])

declare call_all.simps [simp del]

lemma call_all_started:
  "call_all body a (Some (r, fs)) w =
     (case run_steps (map beside fs) (r, w) of
        (Inl e, w') \<Rightarrow> fail (value_receiver (promise_at a)) e w'
      | (Inr v, w') \<Rightarrow>
          (case complete (value_receiver (promise_at a)) v w' of
             (Throws e, w'') \<Rightarrow> fail (value_receiver (promise_at a)) e w''
           | (c, w'') \<Rightarrow> (c, w'')))"
proof (induction fs arbitrary: r w)
  case Nil
  have "call_all body a (Some (Inl e, [])) w = fail (value_receiver (promise_at a)) e w" for e w
    by (simp add: call_all.simps split: prod.splits)
  then show ?case by (cases r) (auto simp: call_all.simps [of body a "Some (Inr _, [])"] split: prod.splits completion.splits)
next
  case (Cons f fs)
  show ?case
  proof (cases r)
    case (Inl e)
    then show ?thesis by (simp add: call_all.simps split: prod.splits)
  next
    case (Inr v)
    then show ?thesis by (simp add: call_all.simps [of body a "Some (Inr v, f # fs)"] Cons.IH split: prod.splits)
  qed
qed

lemma call_all_task: "call_all body a None w = task_of body a w"
  unfolding task_of_eq value_rcv.pipeline_task
  by (auto simp: call_all.simps [of body a None] call_all_started split: prod.splits)

text \<open>The effect of one step: the calls of functions leave the store alone, the last step settles the
  promise of the call; none ends the program.\<close>

lemma call_step_effect:
  assumes a: "a < length h"
  shows "call_step body a st (h, u) =
    (case st of
       None \<Rightarrow>
         (if Canceled = shared_state.m_state (h ! a) then (Ends Normal, (h, u))
          else (let (r, u') = fst (body a) () u in (Continues (r, snd (body a)), (h, u'))))
     | Some (Inr v, f # fs) \<Rightarrow> (let (r, u') = f v u in (Continues (r, fs), (h, u')))
     | Some (r, _) \<Rightarrow> (Ends Normal, (h[a := settle (result_settlement r) (h ! a)], u)))"
proof -
  have p: "p_shared_state (promise_at a) = Some a" by (simp add: promise_at_def)
  note simps = value_is_canceled_eq [OF p a, of u] value_complete_eq [OF p a, of _ u] value_fail_eq [OF p a, of _ u]
    beside_def
  show ?thesis
  proof (cases st)
    case None
    then show ?thesis by (simp add: simps split: prod.splits)
  next
    case (Some x)
    then show ?thesis
      by (cases x; cases "fst x"; cases "snd x") (auto simp: simps split: prod.splits simp del: settle.simps)
  qed
qed

lemma call_step_continues:
  "a < length h \<Longrightarrow> call_step body a st (h, u) = (Continues st', (h1, u1)) \<Longrightarrow> h1 = h"
  by (auto simp: call_step_effect split: option.splits sum.splits list.splits if_splits prod.splits)

lemma call_step_ends:
  assumes "a < length h" and "call_step body a st (h, u) = (Ends c, (h1, u1))"
  shows "c = Normal \<and> (\<exists>cell. h1 = h[a := cell] \<and> is_ready cell)"
proof (cases "st = None")
  case True
  with assms(2) have "c = Normal" "h1 = h[a := h ! a]" "is_ready (h ! a)"
    unfolding call_step_effect [OF assms(1)] by (auto simp: is_ready_def split: if_splits prod.splits)
  then show ?thesis by blast
next
  case False
  with assms have "\<exists>x. c = Normal \<and> h1 = h[a := settle x (h ! a)]"
    by (auto simp: call_step_effect split: option.splits sum.splits list.splits prod.splits simp del: settle.simps)
  with settle_ready show ?thesis by blast
qed

subsection \<open>Effects on the history of the pool\<close>

lemma conservation: "pool_inv p \<Longrightarrow> submitted p = outstanding p + finished p"
  by (simp add: pool_inv_def tasks_inv_def outstanding_def finished_def)

lemma submit_history:
  "pool_step (Submit t) p p' \<Longrightarrow> submitted p' = add_mset t (submitted p) \<and> finished p' = finished p"
  by (cases rule: submit_stepE) (auto simp: finished_def)

lemma work_history:
  "pool_step (Work i) p p' \<Longrightarrow> submitted p' = submitted p
     \<and> (\<not> is_running p i \<longrightarrow> finished p' = finished p)
     \<and> (worker_is p i (Running idx t) \<longrightarrow> finished p' = add_mset t (finished p))"
  by (cases rule: work_stepE) (auto simp: finished_def)

lemma join_history:
  "pool_step Join p p' \<Longrightarrow> submitted p' = submitted p \<and> finished p' = finished p + mset (drops p)"
  by (cases rule: join_stepE) (auto simp: finished_def drops_def)

lemma pool_inv_keep: "pool_step a p p' \<Longrightarrow> pool_inv p \<Longrightarrow> pool_inv p'"
  by (rule pool.inv_rel)

subsection \<open>Invariant\<close>

lemma outstanding_bound:
  assumes "service_inv s" and "a \<in># outstanding (the_pool s) + finished (the_pool s)"
  shows "a < length (the_store s)"
proof -
  have "a \<in># submitted (the_pool s)"
    using assms conservation [of "the_pool s"] by (simp add: service_inv_def)
  then show ?thesis using assms(1) by (simp add: service_inv_def)
qed

text \<open>Some tasks leave the pool, and their promises, only theirs, are settled.\<close>

lemma leave_inv:
  assumes inv: "service_inv s" and p': "pool_inv p'" "submitted p' = submitted (the_pool s)"
      "finished p' = finished (the_pool s) + mset as"
    and len: "length h' = length (the_store s)"
    and settled: "\<forall>a \<in> set as. is_ready (h' ! a)"
    and keep: "\<forall>b < length h'. is_ready (the_store s ! b) \<longrightarrow> is_ready (h' ! b)"
    and other: "\<forall>b < length h'. b \<notin> set as \<longrightarrow> h' ! b = the_store s ! b"
  shows "service_inv (s\<lparr>the_pool := p', the_store := h', the_rest := u, the_calls := c\<rparr>)"
proof -
  let ?p = "the_pool s"
  have pinv: "pool_inv ?p" and sub: "submitted ?p = mset [0..<length (the_store s)]"
    using inv by (simp_all add: service_inv_def)
  have out: "outstanding ?p = outstanding p' + mset as"
    using conservation [OF pinv] conservation [OF p'(1)] p'(2,3) by (simp add: union_assoc ac_simps)
  have fin: "is_ready (h' ! a)" if "a \<in># finished p'" for a
  proof (cases "a \<in># finished ?p")
    case True
    with inv have "is_ready (the_store s ! a)" "a < length (the_store s)"
      using outstanding_bound [OF inv, of a] by (auto simp: service_inv_def)
    with keep len show ?thesis by simp
  next
    case False
    with that p'(3) settled show ?thesis by simp
  qed
  have uns: "unsettled (h' ! a)" if a: "a \<in># outstanding p'" for a
  proof -
    have "count (outstanding p' + mset as) a \<le> count (submitted ?p) a"
      using conservation [OF pinv] out by simp
    also have "\<dots> \<le> 1" by (simp add: sub count_mset_set')
    finally have "count (outstanding p') a + count (mset as) a \<le> 1" by simp
    moreover have "1 \<le> count (outstanding p') a" using a by simp
    ultimately have "count (mset as) a = 0" by linarith
    then have "a \<notin> set as" by (simp add: count_mset_0_iff)
    moreover have "a \<in># outstanding ?p" using a out by simp
    ultimately show ?thesis
      using inv other len outstanding_bound [OF inv, of a] by (simp add: service_inv_def)
  qed
  from fin uns p' sub len show ?thesis by (simp add: service_inv_def)
qed

lemma client_wait_inv:
  assumes inv: "service_inv s" and step: "pool_step (Submit (length (the_store s))) (the_pool s) p'"
  shows "service_inv (s\<lparr>the_pool := p', the_store := the_store s @ [shared_state_new]\<rparr>)"
proof -
  let ?h = "the_store s" and ?p = "the_pool s"
  have pinv: "pool_inv ?p" using inv by (simp add: service_inv_def)
  note p' = pool_inv_keep [OF step pinv]
  have hist: "submitted p' = add_mset (length ?h) (submitted ?p)" "finished p' = finished ?p"
    using submit_history [OF step] by auto
  have out: "outstanding p' = add_mset (length ?h) (outstanding ?p)"
    using conservation [OF pinv] conservation [OF p'] hist by simp
  have bound: "a < length ?h" if "a \<in># outstanding ?p + finished ?p" for a
    using outstanding_bound [OF inv that] .
  have "is_ready ((?h @ [shared_state_new]) ! a)" if "a \<in># finished p'" for a
    using that inv bound [of a] hist(2) by (auto simp: service_inv_def nth_append)
  moreover have "unsettled ((?h @ [shared_state_new]) ! a)" if "a \<in># outstanding p'" for a
    using that inv bound [of a] out
    by (auto simp: service_inv_def nth_append unsettled_def shared_state_new_def)
  ultimately show ?thesis
    using inv p' hist by (simp add: service_inv_def)
qed

lemma client_cancel_inv:
  assumes inv: "service_inv s" and a: "a < length (the_store s)"
  shows "service_inv (s\<lparr>the_store := (the_store s)[a := Future.cancel (the_store s ! a)]\<rparr>)"
proof -
  have eq: "Future.cancel x = (if is_ready x then x
      else x\<lparr>shared_state.m_state := Canceled, m_data := ResultData result_nullopt\<rparr>)" for x :: "'a shared_state"
    using settle_eq [of Cancel x] by simp
  have c: "is_ready (Future.cancel x)" "unsettled x \<Longrightarrow> unsettled (Future.cancel x)" for x :: "'a shared_state"
    unfolding eq by (auto simp: is_ready_def unsettled_def)
  from inv a show ?thesis
    by (auto simp: service_inv_def nth_list_update c)
qed

lemma running_bound:
  assumes "service_inv s" and "worker_is (the_pool s) i (Running idx b)"
  shows "b < length (the_store s)"
proof -
  have "b \<in># running_tasks (the_pool s)"
    using assms(2) nth_mem [of i "m_threads (the_pool s)"] by force
  then show ?thesis by (intro outstanding_bound [OF assms(1)]) (simp add: outstanding_def)
qed

lemma service_inv_step:
  assumes inv: "service_inv s" and step: "service_step body a s s'"
  shows "service_inv s'"
  using step
proof (cases rule: service_step.cases)
  case (client_wait f prom subs h0 p')
  with client_wait_inv [OF inv] show ?thesis by (auto simp: wait_sender_eq Let_def)
next
  case (client_cancel b h')
  then have "b < length (the_store s)" "h' = (the_store s)[b := Future.cancel (the_store s ! b)]"
    by (auto simp: future_cancel_def get_future_eq promise_at_def modify_def split: if_splits)
  with client_cancel_inv [OF inv] client_cancel show ?thesis by simp
next
  case (worker_calls i idx b st h1 u1)
  have "h1 = the_store s" using running_bound [OF inv worker_calls(3)] worker_calls(4) by (rule call_step_continues)
  with inv show ?thesis by (simp add: worker_calls(2) service_inv_def)
next
  case (worker_ends i idx b p' h1 u1 h2)
  have pinv: "pool_inv (the_pool s)" using inv by (simp add: service_inv_def)
  from inv worker_ends(3) have b: "b < length (the_store s)" by (rule running_bound)
  obtain cell where cell: "h1 = (the_store s)[b := cell]" "is_ready cell"
    using call_step_ends [OF b worker_ends(5)] by blast
  with b worker_ends(6) have h2: "h2 = (the_store s)[b := cell]"
    by (simp add: drop_task_eq broken_ready)
  note hist = work_history [OF worker_ends(4), of idx b]
  show ?thesis unfolding worker_ends(2)
    by (rule leave_inv [OF inv pool_inv_keep [OF worker_ends(4) pinv], of "[b]"])
       (use hist worker_ends(3) cell(2) b h2 in \<open>auto simp: nth_list_update\<close>)
next
  case (worker_other i p')
  have pinv: "pool_inv (the_pool s)" using inv by (simp add: service_inv_def)
  have "service_inv (s\<lparr>the_pool := p', the_store := the_store s, the_rest := the_rest s, the_calls := the_calls s\<rparr>)"
    by (rule leave_inv [OF inv pool_inv_keep [OF worker_other(4) pinv], of "[]"])
       (use work_history [OF worker_other(4)] worker_other(3) in auto)
  with worker_other show ?thesis by simp
next
  case (shutdown p')
  let ?as = "drops (the_pool s)" and ?h = "the_store s"
  have pinv: "pool_inv (the_pool s)" using inv by (simp add: service_inv_def)
  note hist = join_history [OF shutdown(3)]
  have "\<forall>a \<in> set ?as. a < length ?h"
  proof
    fix a assume "a \<in> set ?as"
    then have "a \<in># submitted p'"
      using conservation [OF pool_inv_keep [OF shutdown(3) pinv]] hist by simp
    with inv hist show "a < length ?h" by (simp add: service_inv_def)
  qed
  note eff = drop_all_effect [OF this]
  have "service_inv (s\<lparr>the_pool := p', the_store := drop_all ?as ?h, the_rest := the_rest s, the_calls := the_calls s\<rparr>)"
    by (rule leave_inv [OF inv pool_inv_keep [OF shutdown(3) pinv], of ?as]) (use hist eff in auto)
  with shutdown show ?thesis by simp
qed

lemma service_inv_start:
  assumes start: "service_start s"
  shows "service_inv s"
proof -
  have "pool_inv (the_pool s)" using start by (auto simp: service_start_def intro: pool_inv_start)
  moreover have "submitted (the_pool s) = {#}"
    using start by (auto simp: service_start_def pool_start_def thread_pool_new_Inr Let_def)
  ultimately show ?thesis
    using start conservation [of "the_pool s"] by (simp add: service_inv_def service_start_def)
qed

interpretation service: invariant_relation "service_step body" service_start service_inv for body
  by unfold_locales (erule service_inv_start, erule (1) service_inv_step)

subsection \<open>After the pool\<close>

lemma outstanding_or_ready:
  assumes "service_inv s" and "a < length (the_store s)"
  shows "a \<in># outstanding (the_pool s) \<or> is_ready (the_store s ! a)"
proof -
  have "a \<in># submitted (the_pool s)" using assms by (simp add: service_inv_def)
  with assms(1) conservation [of "the_pool s"] show ?thesis by (auto simp: service_inv_def)
qed

lemma destroyed_ready:
  assumes inv: "service_inv s" and joined: "joiner (the_pool s) = Joined" and a: "a < length (the_store s)"
  shows "a < length (destroy_members s) \<and> is_ready (destroy_members s ! a)"
proof -
  let ?as = "concat (map m_container (queues (the_pool s)))"
  have out: "outstanding (the_pool s) = mset ?as"
    using joined_pool [of "the_pool s"] inv joined
    by (simp add: service_inv_def outstanding_def)
  then have "\<forall>a \<in> set ?as. a < length (the_store s)"
    using outstanding_bound [OF inv] by (metis set_mset_mset union_iff)
  note eff = drop_all_effect [OF this]
  show ?thesis
  proof (cases "a \<in> set ?as")
    case True
    with eff a show ?thesis unfolding destroy_members_def by (metis (lifting))
  next
    case False
    then have "is_ready (the_store s ! a)"
      using outstanding_or_ready [OF inv a] out by (metis set_mset_mset)
    with eff a show ?thesis by (simp add: destroy_members_def)
  qed
qed

lemma future_get_ready:
  "a < length h \<Longrightarrow> is_ready (h ! a) \<Longrightarrow> \<exists>r h'. future_get moved (get_future (promise_at a)) h = Result r h'"
  by (simp add: future_get_def get_future_eq promise_at_def get_def split: prod.splits)

subsection \<open>Properties\<close>


end
