(* ===== verification/QueueSpec.thy ===== *)
theory QueueSpec
  imports Queue
begin

section \<open>The blocking queue refines an atomic queue\<close>

text \<open>
  The contract of \<open>queue.hpp\<close> as a client sees it: a list of items and a closed flag, on which
  every operation takes effect in one indivisible moment between its call and its return. The
  refinement shows that the code, with its mutex, condition variable, failing \<open>try_lock\<close> and
  spurious wake-ups, can be used as if it were that object (it is linearizable): each step of a
  thread is either invisible or one of call, effect and return, and the values returned by the
  code are those the atomic object gives at the moment of the effect.
\<close>

subsection \<open>The atomic queue\<close>

datatype 'a fifo_return =
    Item "'a option"   \<comment> \<open>what \<open>pop\<close> and \<open>try_pop\<close> return\<close>
  | Stored bool        \<comment> \<open>what \<open>try_push\<close> returns; \<open>push\<close>, which returns nothing, always stores\<close>
  | Closed             \<comment> \<open>\<open>clear\<close> returns\<close>

datatype 'a fifo_client = Away | Calling "'a queue_call" | Leaving "'a fifo_return"

record 'a fifo =
  fifo_items :: "'a list"
  fifo_closed :: bool
  fifo_clients :: "'a fifo_client list"

definition fifo_new :: "nat \<Rightarrow> 'a fifo" where
  "fifo_new n = \<lparr>fifo_items = [], fifo_closed = False, fifo_clients = replicate n Away\<rparr>"

text \<open>The effect of a call. \<open>pop\<close> has none while the queue is empty and not closed.\<close>

fun fifo_effect :: "'a queue_call \<Rightarrow> 'a list \<Rightarrow> bool \<Rightarrow> ('a fifo_return \<times> 'a list \<times> bool) option" where
  "fifo_effect CallPop xs closed =
     (if closed then Some (Item None, xs, closed)
      else (case xs of [] \<Rightarrow> None | y # ys \<Rightarrow> Some (Item (Some y), ys, closed)))"
| "fifo_effect CallTryPop xs closed =
     Some (case xs of [] \<Rightarrow> (Item None, [], closed) | y # ys \<Rightarrow> (Item (Some y), ys, closed))"
| "fifo_effect (CallPush x) xs closed = Some (Stored True, xs @ [x], closed)"
| "fifo_effect (CallTryPush x) xs closed = Some (Stored True, xs @ [x], closed)"
| "fifo_effect CallClear xs closed = Some (Closed, [], True)"

text \<open>A \<open>try_\<close> operation may give up without any effect.\<close>

fun fifo_give_up :: "'a queue_call \<Rightarrow> 'a fifo_return option" where
  "fifo_give_up CallTryPop = Some (Item None)"
| "fifo_give_up (CallTryPush x) = Some (Stored False)"
| "fifo_give_up _ = None"

datatype 'a fifo_act = Invoke nat "'a queue_call" | Effect nat | GiveUp nat | Return nat "'a fifo_return"

abbreviation set_client :: "nat \<Rightarrow> 'a fifo_client \<Rightarrow> 'a fifo \<Rightarrow> 'a fifo" where
  "set_client i c s \<equiv> s\<lparr>fifo_clients := (fifo_clients s)[i := c]\<rparr>"

fun fifo_step :: "'a fifo_act \<Rightarrow> 'a fifo \<Rightarrow> 'a fifo option" where
  "fifo_step (Invoke i c) s =
     (if i < length (fifo_clients s) \<and> fifo_clients s ! i = Away then Some (set_client i (Calling c) s) else None)"
| "fifo_step (Effect i) s =
     (if i < length (fifo_clients s) then
        (case fifo_clients s ! i of
           Calling c \<Rightarrow>
             (case fifo_effect c (fifo_items s) (fifo_closed s) of
                None \<Rightarrow> None
              | Some (r, xs, closed) \<Rightarrow>
                  Some (set_client i (Leaving r) (s\<lparr>fifo_items := xs, fifo_closed := closed\<rparr>)))
         | _ \<Rightarrow> None)
      else None)"
| "fifo_step (GiveUp i) s =
     (if i < length (fifo_clients s) then
        (case fifo_clients s ! i of
           Calling c \<Rightarrow> (case fifo_give_up c of None \<Rightarrow> None | Some r \<Rightarrow> Some (set_client i (Leaving r) s))
         | _ \<Rightarrow> None)
      else None)"
| "fifo_step (Return i r) s =
     (if i < length (fifo_clients s) \<and> fifo_clients s ! i = Leaving r then Some (set_client i Away s) else None)"

subsection \<open>What the atomic queue sees of the code\<close>

fun client_of :: "'a queue_pc \<Rightarrow> 'a fifo_client" where
  "client_of Idle = Away"
| "client_of PopLock = Calling CallPop"
| "client_of PopCheck = Calling CallPop"
| "client_of PopBlocked = Calling CallPop"
| "client_of TryPopLock = Calling CallTryPop"
| "client_of (TryPopCheck locked) = Calling CallTryPop"
| "client_of (PushLock x) = Calling (CallPush x)"
| "client_of (PushBody x) = Calling (CallPush x)"
| "client_of (TryPushLock x) = Calling (CallTryPush x)"
| "client_of (TryPushBody x) = Calling (CallTryPush x)"
| "client_of NotifyOne = Leaving (Stored True)"
| "client_of ClearLock = Calling CallClear"
| "client_of ClearBody = Calling CallClear"
| "client_of NotifyAll = Leaving Closed"

definition fifo_of :: "'a queue_sys \<Rightarrow> 'a fifo" where
  "fifo_of s =
     \<lparr>fifo_items = m_container (shared s), fifo_closed = m_is_cancelled (shared s),
      fifo_clients = map client_of (pcs s)\<rparr>"

text \<open>What a thread's next step amounts to. A value in a \<open>Return\<close> is the one the code returns.\<close>

fun go_acts :: "nat \<Rightarrow> 'a queue_pc \<Rightarrow> 'a queue_sys \<Rightarrow> 'a fifo_act list" where
  "go_acts i PopCheck s =
     (case pop (shared s) of Returns r q' \<Rightarrow> [Effect i, Return i (Item r)] | _ \<Rightarrow> [])"
| "go_acts i (TryPopCheck locked) s =
     (case try_pop locked (shared s) of
        Returns r q' \<Rightarrow> [if locked then Effect i else GiveUp i, Return i (Item r)]
      | _ \<Rightarrow> [])"
| "go_acts i (PushBody x) s = [Effect i]"
| "go_acts i (TryPushBody x) s = [Effect i]"
| "go_acts i NotifyOne s = [Return i (Stored True)]"
| "go_acts i ClearBody s = [Effect i]"
| "go_acts i NotifyAll s = [Return i Closed]"
| "go_acts i _ s = []"

fun fifo_acts :: "'a queue_act \<Rightarrow> 'a queue_sys \<Rightarrow> 'a fifo_act list" where
  "fifo_acts (Call i c) s = [Invoke i c]"
| "fifo_acts (Go i) s = go_acts i (pcs s ! i) s"
| "fifo_acts (FailLock i) s =
     (case pcs s ! i of TryPushLock x \<Rightarrow> [GiveUp i, Return i (Stored False)] | _ \<Rightarrow> [])"
| "fifo_acts (Signal i w) s = [Return i (Stored True)]"
| "fifo_acts (Spurious i) s = []"

subsection \<open>The simulation\<close>

lemma fifo_of_sel [simp]:
  "fifo_items (fifo_of s) = m_container (shared s)"
  "fifo_closed (fifo_of s) = m_is_cancelled (shared s)"
  "fifo_clients (fifo_of s) = map client_of (pcs s)"
  by (simp_all add: fifo_of_def)

lemma fifo_eqI:
  "fifo_items s = fifo_items t \<Longrightarrow> fifo_closed s = fifo_closed t \<Longrightarrow> fifo_clients s = fifo_clients t \<Longrightarrow>
     s = (t :: 'a fifo)"
  by simp

lemma client_of_call [simp]: "client_of (call_pc c) = Calling c"
  by (cases c) simp_all

lemma client_of_wake [simp]: "client_of (wake p) = client_of p"
  by (cases p) (simp_all add: wake_def)

lemma client_of_comp_wake [simp]: "client_of \<circ> wake = client_of"
  by (rule ext) simp

lemma clients_same:
  "i < length ps \<Longrightarrow> c = client_of (ps ! i) \<Longrightarrow> (map client_of ps)[i := c] = map client_of ps"
  by (metis length_map list_update_id nth_map)

lemma go_simulated:
  assumes i: "i < length (pcs s)" and "go i (pcs s ! i) s = Some s'"
  shows "run fifo_step (go_acts i (pcs s ! i) s) (fifo_of s) = Some (fifo_of s')"
  using assms
  by (cases "pcs s ! i")
     (auto simp: acquire_eq_Some step_simps push_def clear_def map_update clients_same fifo_of_def
        split: if_splits list.splits)

lemma queue_simulated:
  assumes "queue_step a s = Some s'"
  shows "run fifo_step (fifo_acts a s) (fifo_of s) = Some (fifo_of s')"
proof (cases a)
  case (Go i)
  with assms show ?thesis using go_simulated by (auto split: if_splits)
qed (use assms in \<open>auto simp: fifo_of_def map_update clients_same split: if_splits queue_pc.splits\<close>)

interpretation queue_fifo_sim:
  simulation queue_step "\<lambda>s. \<exists>n. s = queue_sys_new n" queue_inv fifo_step fifo_acts fifo_of
  by unfold_locales (rule queue_simulated)

lemma fifo_of_new [simp]: "fifo_of (queue_sys_new n) = fifo_new n"
  by (simp add: fifo_of_def queue_sys_new_def queue_new_def fifo_new_def)

subsection \<open>Properties\<close>

text \<open>C4: the blocking queue refines the atomic queue. Every run of any number of threads
  through the mutex, the condition variable and the failing \<open>try_lock\<close> is, call by call and
  return by return, a run of the atomic queue, which gives each call its effect at one moment
  between its call and its return; the returned values are those of the code, and the items and
  the cancellation flag agree at the end, and so, as every prefix is a run, all the time.\<close>

theorem queue_refines_fifo:
  assumes "run queue_step as (queue_sys_new n) = Some s"
  shows "run fifo_step (trace_of queue_step fifo_acts as (queue_sys_new n)) (fifo_new n) = Some (fifo_of s)"
  using queue_fifo_sim.sim_run [OF _ assms] by auto

theorem queue_refines_fifo_witness:
  "run fifo_step
     [Invoke 0 CallPop, Invoke 1 (CallTryPush (7::nat)), Effect 1, Return 1 (Stored True),
      Effect 0, Return 0 (Item (Some 7))] (fifo_new 2)
   = Some (fifo_new 2)"
proof -
  let ?as = "[Call 0 CallPop, Go 0, Go 0, Call 1 (CallTryPush 7), Go 1, Go 1, Signal 1 0, Go 0, Go 0]
    :: nat queue_act list"
  have "\<exists>s. run queue_step ?as (queue_sys_new 2) = Some s \<and> fifo_of s = fifo_new 2"
    by (simp add: queue_eval fifo_of_def fifo_new_def)
  then obtain s where s: "run queue_step ?as (queue_sys_new 2) = Some s" "fifo_of s = fifo_new 2" by blast
  from queue_refines_fifo [OF s(1)] s(2) show ?thesis
    by (simp add: queue_eval)
qed

end
