(* ===== verification/SchedulerSpec.thy ===== *)
theory SchedulerSpec
  imports RRScheduler
begin

section \<open>The scheduler's loops against a reference\<close>

text \<open>
  \<open>rr_scheduler::schedule\<close> and \<open>rr_scheduler::scheduled\<close> are loops over wrapping 32-bit counters
  that probe one queue after the other. Here they are compared with definitions that say in
  one expression which queue is meant: the first attempt, in round-robin order from the index,
  that gets the mutex (and finds a task), and else the queue the index itself names. The
  reference counts in natural numbers, so the two agree as long as the 32-bit sum does not wrap
  or its wrapping does not show.
\<close>

subsection \<open>Reference definitions\<close>

definition place :: "uint \<Rightarrow> nat \<Rightarrow> 't rr_scheduler \<Rightarrow> nat" where
  "place index n s = (unat index + n) mod length (m_task_queue s)"

definition take_front :: "nat \<Rightarrow> 't rr_scheduler \<Rightarrow> 't sched_outcome \<times> 't rr_scheduler" where
  "take_front k s =
     (let q = m_task_queue s ! k
      in (Got (Some (hd (m_container q))), set_queue k (q\<lparr>m_container := tl (m_container q)\<rparr>) s))"

definition scheduled_ref ::
  "(nat \<Rightarrow> bool) \<Rightarrow> uint option \<Rightarrow> 't rr_scheduler \<Rightarrow> 't sched_outcome \<times> uint \<times> 't rr_scheduler"
where
  "scheduled_ref locked tls s =
     (let (i, s1) = thread_index_of tls s;
          own = m_task_queue s1 ! place i 0 s1;
          (out, s2) =
            (case find (\<lambda>n. locked n \<and> m_container (m_task_queue s1 ! place i n s1) \<noteq> [])
                    [0..<length (m_task_queue s1)] of
               Some n \<Rightarrow> take_front (place i n s1) s1
             | None \<Rightarrow>
                 if m_is_cancelled own then (Got None, s1)
                 else if m_container own = [] then (Waits (place i 0 s1), s1)
                 else take_front (place i 0 s1) s1)
      in (out, i, s2))"

definition schedule_ref :: "(nat \<Rightarrow> bool) \<Rightarrow> 't \<Rightarrow> 't rr_scheduler \<Rightarrow> 't rr_scheduler" where
  "schedule_ref locked t s =
     (let i = m_push_index s;
          k = place i (case find locked [0..<4 * length (m_task_queue s)] of None \<Rightarrow> 0 | Some n \<Rightarrow> n) s
      in set_queue k (push t (m_task_queue s ! k)) (s\<lparr>m_push_index := i + 1\<rparr>))"

text \<open>The sum \<open>index + n\<close> of the first \<open>r\<close> attempts does not wrap, or its wrapping does not show.\<close>

definition no_wrap :: "uint \<Rightarrow> nat \<Rightarrow> 't rr_scheduler \<Rightarrow> bool" where
  "no_wrap index r s \<longleftrightarrow> unat index + r \<le> 2 ^ 32 \<or> length (m_task_queue s) dvd 2 ^ 32"

subsection \<open>Equivalence\<close>

lemma slot_place:
  assumes "rr_ok s" and "no_wrap index r s" and "n < r"
  shows "slot index (of_nat n) s = place index n s"
  using assms(2) unfolding no_wrap_def place_def
proof
  assume "unat index + r \<le> 2 ^ 32"
  with assms(3) show "slot index (of_nat n) s = (unat index + n) mod length (m_task_queue s)"
    by (intro slot_no_wrap [OF assms(1)]) simp
qed (rule slot_dvd [OF assms(1)])

lemma slot_own: "rr_ok s \<Longrightarrow> slot index 0 s = place index 0 s"
  by (simp add: slot_eq place_def)

lemma scan_body_find:
  "scan_body locked i n s =
     (let k = slot i n s; q = m_task_queue s ! k
      in if locked n \<and> m_container q \<noteq> []
         then (Some (hd (m_container q)), set_queue k (q\<lparr>m_container := tl (m_container q)\<rparr>) s)
         else (None, s))"
  by (auto simp: scan_body_def Let_def try_pop_eq split: list.splits)

lemma scan_is_find:
  assumes ok: "rr_ok s" and nw: "no_wrap i (length (m_task_queue s)) s"
  shows "first_success (\<lambda>n. scan_body locked i (of_nat n)) [0..<length (m_task_queue s)] s =
    (case find (\<lambda>n. locked (of_nat n) \<and> m_container (m_task_queue s ! place i n s) \<noteq> [])
            [0..<length (m_task_queue s)] of
       None \<Rightarrow> (None, s)
     | Some n \<Rightarrow> (Some (hd (m_container (m_task_queue s ! place i n s))), snd (take_front (place i n s) s)))"
  by (rule first_success_find)
     (simp add: scan_body_find slot_place [OF ok nw] take_front_def Let_def)

lemma scheduled_eq_ref:
  assumes ok: "rr_ok s" and nw: "no_wrap (fst (thread_index_of tls s)) (length (m_task_queue s)) s"
  shows "scheduled locked tls s = Some (scheduled_ref (\<lambda>n. locked (of_nat n)) tls s)"
proof -
  obtain i s1 where i: "thread_index_of tls s = (i, s1)" by fastforce
  have s1: "m_task_queue s1 = m_task_queue s" using thread_index_of_queues [OF i] by simp
  have ok1: "rr_ok s1" using ok s1 by (simp add: rr_ok_def)
  have nw1: "no_wrap i (length (m_task_queue s1)) s1" using nw s1 i by (simp add: no_wrap_def)
  note loop = scan_total [OF ok1, of locked i, unfolded scan_is_find [OF ok1 nw1]]
  have scan: "scheduled locked tls s = (case
      (case find (\<lambda>n. locked (of_nat n) \<and> m_container (m_task_queue s1 ! place i n s1) \<noteq> [])
            [0..<length (m_task_queue s1)] of
         None \<Rightarrow> (None, s1)
       | Some n \<Rightarrow> (Some (hd (m_container (m_task_queue s1 ! place i n s1))), snd (take_front (place i n s1) s1))) of
        (Some task, s2) \<Rightarrow> Some (Got (Some task), i, s2)
      | (None, s2) \<Rightarrow>
          (let k = slot i 0 s2
           in case pop (m_task_queue s2 ! k) of
                Blocks \<Rightarrow> Some (Waits k, i, s2)
              | Returns task q' \<Rightarrow> Some (Got task, i, set_queue k q' s2)
              | Undefined \<Rightarrow> Some (FrontOfEmpty, i, s2)))"
    by (simp add: scheduled_def i loop split: prod.splits option.splits)
  show ?thesis
    unfolding scan scheduled_ref_def i Let_def
    by (auto simp: slot_own [OF ok1] pop_eq take_front_def Let_def split: option.splits list.splits)
qed

lemma push_is_find:
  assumes ok: "rr_ok s" and nw: "no_wrap i r s"
  shows "first_success (\<lambda>n. push_body locked t i (of_nat n)) [0..<r] s =
    (case find (\<lambda>n. locked (of_nat n)) [0..<r] of
       None \<Rightarrow> (None, s)
     | Some n \<Rightarrow> (Some (), set_queue (place i n s) (push t (m_task_queue s ! place i n s)) s))"
  by (rule first_success_find) (simp add: push_body_eq slot_place [OF ok nw])

lemma schedule_eq_ref:
  assumes ok: "rr_ok s" and small: "4 * length (m_task_queue s) < 2 ^ 32"
    and nw: "no_wrap (m_push_index s) (4 * length (m_task_queue s)) s"
  shows "schedule locked t s = Some (schedule_ref (\<lambda>n. locked (of_nat n)) t s)"
proof -
  let ?s1 = "s\<lparr>m_push_index := m_push_index s + 1\<rparr>"
  have ok1: "rr_ok ?s1" and nw1: "no_wrap (m_push_index s) (4 * length (m_task_queue s)) ?s1"
    using ok nw by (simp_all add: no_wrap_def)
  have "place i n ?s1 = place i n s" for i n by (simp add: place_def)
  then show ?thesis
    by (simp add: schedule_def Let_def schedule_loop [OF ok small] push_is_find [OF ok1 nw1]
        schedule_ref_def slot_own [OF ok] split: option.splits)
qed

subsection \<open>Properties\<close>

text \<open>C10: the probing loops pick the queue the reference names. Whatever the outcome of each
  \<open>try_lock\<close>, \<open>schedule\<close> puts the task into the queue of the first successful attempt in
  round-robin order, or into the one its index names when all four rounds fail; and \<open>scheduled\<close>
  takes the front task of the first queue in round-robin order whose mutex it gets and which
  is not empty, or else looks at its own queue alone: no task if that is cancelled, its front task,
  or waiting. The bounds say that the 32-bit sums of the attempts do not wrap, or that the
  number of queues divides \<open>2^32\<close>.\<close>

theorem rr_loops_equivalent:
  assumes "rr_ok s"
  shows "(no_wrap (fst (thread_index_of tls s)) (length (m_task_queue s)) s \<longrightarrow>
      scheduled locked tls s = Some (scheduled_ref (\<lambda>n. locked (of_nat n)) tls s))
    \<and> (4 * length (m_task_queue s) < 2 ^ 32 \<and> no_wrap (m_push_index s) (4 * length (m_task_queue s)) s \<longrightarrow>
      schedule locked t s = Some (schedule_ref (\<lambda>n. locked (of_nat n)) t s))"
  using scheduled_eq_ref [OF assms] schedule_eq_ref [OF assms] by blast

theorem rr_loops_equivalent_witness:
  "let s = \<lparr>m_task_queue = [queue_new, push (4::nat) queue_new, push 5 queue_new], m_push_index = 1, m_pop_index = 0\<rparr>
   in (\<exists>s'. scheduled (\<lambda>n. n \<noteq> 1) None s = Some (Got (Some 5), 0, s'))
    \<and> (\<exists>s'. schedule (\<lambda>n. n = 2) 6 s = Some s' \<and> m_container (m_task_queue s' ! 0) = [6])"
proof -
  let ?s = "\<lparr>m_task_queue = [queue_new, push (4::nat) queue_new, push 5 queue_new], m_push_index = 1,
    m_pop_index = 0\<rparr>"
  have ok: "rr_ok ?s" by (simp add: rr_ok_def)
  have take: "scheduled (\<lambda>n. n \<noteq> 1) None ?s = Some (scheduled_ref (\<lambda>n. of_nat n \<noteq> (1 :: uint)) None ?s)"
    using rr_loops_equivalent [OF ok, of None "\<lambda>n. n \<noteq> 1"] by (simp add: no_wrap_def thread_index_of_def)
  have put: "schedule (\<lambda>n. n = 2) 6 ?s = Some (schedule_ref (\<lambda>n. of_nat n = (2 :: uint)) 6 ?s)"
    using rr_loops_equivalent [OF ok, where locked = "\<lambda>n. n = 2"] by (simp add: no_wrap_def)
  have "\<exists>s'. scheduled_ref (\<lambda>n. of_nat n \<noteq> (1 :: uint)) None ?s = (Got (Some 5), 0, s')"
    "m_container (m_task_queue (schedule_ref (\<lambda>n. of_nat n = (2 :: uint)) 6 ?s) ! 0) = [6]"
    by (auto simp: scheduled_ref_def schedule_ref_def thread_index_of_def place_def take_front_def
        Let_def upt_rec push_def queue_new_def)
  with take put show ?thesis unfolding Let_def by auto
qed

end
