(* ===== verification/Latch.thy ===== *)
theory Latch
  imports Prelude
begin

section \<open>The latch (\<open>latch.hpp\<close>, \<open>latch.cpp\<close>)\<close>

text \<open>
  \<open>jar::concurrency::latch\<close>: an atomic 64-bit counter and a condition variable. The first part
  models the member functions as what they do to the counter; the subtraction wraps. The
  second part is the interleaving model: \<open>count_down\<close> subtracts, re-reads the counter and
  notifies in three separate steps and never takes the mutex; \<open>wait\<close> takes the mutex, tests the
  counter, tests it again in the loop of the condition variable, and goes to sleep in a step of
  its own, which releases the mutex.
\<close>

subsection \<open>Counter\<close>

record latch =
  m_expected :: size_t

definition latch_new :: "size_t \<Rightarrow> latch" where
  "latch_new expected = \<lparr>m_expected = expected\<rparr>"

definition s_destination :: size_t where
  "s_destination = 0"

definition try_wait :: "latch \<Rightarrow> bool" where
  "try_wait l \<longleftrightarrow> s_destination = m_expected l"

text \<open>\<open>count_down\<close> run without interference: the new counter, and whether it notifies.\<close>

definition count_down :: "size_t \<Rightarrow> latch \<Rightarrow> bool \<times> latch" where
  "count_down n l = (let l' = l\<lparr>m_expected := m_expected l - n\<rparr> in (try_wait l', l'))"

subsection \<open>Interleaving model\<close>

text \<open>Where a thread is. The flag of the \<open>count_down\<close> steps says that the call came from
  \<open>arrive_and_wait\<close>, which goes on with \<open>wait\<close>.\<close>

datatype latch_pc =
    Outside
  | Subtract size_t bool   \<comment> \<open>before \<open>m_expected -= n\<close>\<close>
  | Compare bool           \<comment> \<open>before \<open>if (s_destination == m_expected)\<close>\<close>
  | Notify bool            \<comment> \<open>before \<open>notify_all\<close>\<close>
  | WaitLock               \<comment> \<open>acquiring the mutex\<close>
  | WaitTest               \<comment> \<open>mutex held, before the first test\<close>
  | WaitRelock             \<comment> \<open>woken up, acquiring the mutex again\<close>
  | WaitPred               \<comment> \<open>mutex held, before the predicate of \<open>m_condition.wait\<close>\<close>
  | WaitSleep              \<comment> \<open>mutex held, predicate false, before blocking\<close>
  | WaitBlocked            \<comment> \<open>blocked, mutex released\<close>

datatype latch_call = CountDown size_t | Wait | ArriveAndWait size_t

fun latch_entry :: "latch_call \<Rightarrow> latch_pc" where
  "latch_entry (CountDown n) = Subtract n False"
| "latch_entry Wait = WaitLock"
| "latch_entry (ArriveAndWait n) = Subtract n True"

text \<open>The latch, the owner of its mutex, the threads, and the history: how much was counted
  down so far, and how many calls of \<open>wait\<close> have returned.\<close>

record latch_sys =
  the_latch :: latch
  latch_owner :: "nat option"
  latch_pcs :: "latch_pc list"
  counted :: "size_t list"
  waits_done :: nat

definition latch_sys_new :: "size_t \<Rightarrow> nat \<Rightarrow> latch_sys" where
  "latch_sys_new expected threads =
     \<lparr>the_latch = latch_new expected, latch_owner = None, latch_pcs = replicate threads Outside,
      counted = [], waits_done = 0\<rparr>"

datatype latch_act = LCall nat latch_call | LStep nat | LSpurious nat

abbreviation goto :: "nat \<Rightarrow> latch_pc \<Rightarrow> latch_sys \<Rightarrow> latch_sys" where
  "goto i pc s \<equiv> s\<lparr>latch_pcs := (latch_pcs s)[i := pc]\<rparr>"

definition after_count_down :: "bool \<Rightarrow> latch_pc" where
  "after_count_down arrive = (if arrive then WaitLock else Outside)"

definition lock_latch :: "nat \<Rightarrow> latch_pc \<Rightarrow> latch_sys \<Rightarrow> latch_sys option" where
  "lock_latch i pc s =
     (if latch_owner s = None then Some (goto i pc (s\<lparr>latch_owner := Some i\<rparr>)) else None)"

text \<open>\<open>wait\<close> returns: the \<open>unique_lock\<close> releases the mutex.\<close>

definition leave_wait :: "nat \<Rightarrow> latch_sys \<Rightarrow> latch_sys" where
  "leave_wait i s = goto i Outside (s\<lparr>latch_owner := None, waits_done := Suc (waits_done s)\<rparr>)"

definition wake_waiter :: "latch_pc \<Rightarrow> latch_pc" where
  "wake_waiter pc = (if pc = WaitBlocked then WaitRelock else pc)"

fun latch_go :: "nat \<Rightarrow> latch_pc \<Rightarrow> latch_sys \<Rightarrow> latch_sys option" where
  "latch_go i Outside s = None"
| "latch_go i (Subtract n arrive) s =
     Some (goto i (Compare arrive)
       (s\<lparr>the_latch := snd (count_down n (the_latch s)), counted := counted s @ [n]\<rparr>))"
| "latch_go i (Compare arrive) s =
     Some (goto i (if try_wait (the_latch s) then Notify arrive else after_count_down arrive) s)"
| "latch_go i (Notify arrive) s =
     Some (goto i (after_count_down arrive) (s\<lparr>latch_pcs := map wake_waiter (latch_pcs s)\<rparr>))"
| "latch_go i WaitLock s = lock_latch i WaitTest s"
| "latch_go i WaitTest s =
     Some (if try_wait (the_latch s) then leave_wait i s else goto i WaitPred s)"
| "latch_go i WaitRelock s = lock_latch i WaitPred s"
| "latch_go i WaitPred s =
     Some (if try_wait (the_latch s) then leave_wait i s else goto i WaitSleep s)"
| "latch_go i WaitSleep s = Some (goto i WaitBlocked (s\<lparr>latch_owner := None\<rparr>))"
| "latch_go i WaitBlocked s = None"

fun latch_step :: "latch_act \<Rightarrow> latch_sys \<Rightarrow> latch_sys option" where
  "latch_step (LCall i c) s =
     (if i < length (latch_pcs s) \<and> latch_pcs s ! i = Outside then Some (goto i (latch_entry c) s) else None)"
| "latch_step (LStep i) s =
     (if i < length (latch_pcs s) then latch_go i (latch_pcs s ! i) s else None)"
| "latch_step (LSpurious i) s =
     (if i < length (latch_pcs s) \<and> latch_pcs s ! i = WaitBlocked then Some (goto i WaitRelock s) else None)"

text \<open>Nobody can move except by a new call or a spurious wake-up.\<close>

definition latch_stuck :: "latch_sys \<Rightarrow> bool" where
  "latch_stuck s \<longleftrightarrow> (\<forall>i. \<not> enabled latch_step (LStep i) s)"

fun latch_locked :: "latch_pc \<Rightarrow> bool" where
  "latch_locked WaitTest = True"
| "latch_locked WaitPred = True"
| "latch_locked WaitSleep = True"
| "latch_locked _ = False"

text \<open>The counter is what is left of the expected arrivals (mod \<open>2^64\<close>); once the arrivals are
  exactly the expected ones a \<open>wait\<close> may have returned, and not before.\<close>

definition counter_inv :: "size_t \<Rightarrow> latch_sys \<Rightarrow> bool" where
  "counter_inv expected s \<longleftrightarrow> m_expected (the_latch s) = expected - sum_list (counted s)"

definition total :: "size_t list \<Rightarrow> nat" where
  "total ns = sum_list (map unat ns)"

definition barrier_inv :: "size_t \<Rightarrow> latch_sys \<Rightarrow> bool" where
  "barrier_inv expected s \<longleftrightarrow>
     counter_inv expected s
     \<and> (total (counted s) < unat expected \<longrightarrow> waits_done s = 0)"

definition mutex_latch_inv :: "latch_sys \<Rightarrow> bool" where
  "mutex_latch_inv s \<longleftrightarrow> owner_ok latch_locked (latch_owner s) (latch_pcs s)"

definition latch_inv :: "size_t \<Rightarrow> latch_sys \<Rightarrow> bool" where
  "latch_inv expected s \<longleftrightarrow> barrier_inv expected s \<and> mutex_latch_inv s"

subsection \<open>The counter and the barrier\<close>

lemma try_wait_iff [simp]: "try_wait l \<longleftrightarrow> m_expected l = 0"
  by (auto simp: try_wait_def s_destination_def)

lemma count_down_snd [simp]: "snd (count_down n l) = l\<lparr>m_expected := m_expected l - n\<rparr>"
  by (simp add: count_down_def Let_def)

lemma unat_sum_list: "total ns < 2 ^ 64 \<Longrightarrow> unat (sum_list ns) = total ns"
proof (induction ns)
  case (Cons n ns)
  then show ?case by (simp add: total_def unat_word_ariths)
qed (simp add: total_def)

lemma total_snoc [simp]: "total (ns @ [n]) = total ns + unat n"
  by (simp add: total_def)

lemma barrier_closed:
  assumes "counter_inv expected s" and "m_expected (the_latch s) = 0"
  shows "\<not> total (counted s) < unat expected"
proof
  assume less: "total (counted s) < unat expected"
  also have "unat expected < 2 ^ 64" using unsigned_less [of expected, where ?'a = nat] by simp
  finally have "unat (sum_list (counted s)) = total (counted s)" by (rule unat_sum_list)
  moreover from assms have "sum_list (counted s) = expected" by (simp add: counter_inv_def)
  ultimately show False using less by simp
qed

lemma barrier_inv_cong [simp]:
  "barrier_inv expected (s\<lparr>latch_pcs := ps\<rparr>) = barrier_inv expected s"
  "barrier_inv expected (s\<lparr>latch_owner := w\<rparr>) = barrier_inv expected s"
  by (simp_all add: barrier_inv_def counter_inv_def)

lemma barrier_inv_leave:
  "barrier_inv expected s \<Longrightarrow> m_expected (the_latch s) = 0 \<Longrightarrow> barrier_inv expected (leave_wait i s)"
  using barrier_closed [of expected s] by (auto simp: barrier_inv_def leave_wait_def counter_inv_def)

lemma barrier_inv_count:
  "barrier_inv expected s \<Longrightarrow>
     barrier_inv expected (s\<lparr>the_latch := snd (count_down n (the_latch s)), counted := counted s @ [n]\<rparr>)"
  by (auto simp: barrier_inv_def counter_inv_def)

lemma barrier_inv_go:
  assumes "barrier_inv expected s" and "latch_go i pc s = Some s'"
  shows "barrier_inv expected s'"
  using assms barrier_inv_leave [of expected s i] barrier_inv_count [of expected s]
  by (cases pc) (auto simp: lock_latch_def split: if_splits)

subsection \<open>The mutex\<close>

lemma latch_locked_wake [simp]: "latch_locked (wake_waiter p) = latch_locked p"
  by (cases p) (simp_all add: wake_waiter_def)

lemma latch_locked_simps [simp]:
  "\<not> latch_locked (after_count_down b)"
  "\<not> latch_locked (latch_entry c)"
  by (simp add: after_count_down_def) (cases c; simp)

lemma mutex_latch_go:
  assumes inv: "mutex_latch_inv s" and i: "i < length (latch_pcs s)"
    and "latch_go i (latch_pcs s ! i) s = Some s'"
  shows "mutex_latch_inv s'"
proof -
  note upd = owner_ok_update [OF inv [unfolded mutex_latch_inv_def] i]
  note updw = owner_ok_update [where ps = "map wake_waiter (latch_pcs s)" and i = i]
  show ?thesis
    using assms
    by (cases "latch_pcs s ! i")
       (auto simp: mutex_latch_inv_def lock_latch_def leave_wait_def owner_ok_map intro!: upd updw split: if_splits)
qed

lemma latch_inv_step:
  assumes "latch_inv expected s" and "latch_step a s = Some s'"
  shows "latch_inv expected s'"
proof (cases a)
  case (LStep i)
  with assms show ?thesis
    by (auto simp: latch_inv_def intro: barrier_inv_go mutex_latch_go split: if_splits)
qed (use assms in \<open>auto simp: latch_inv_def mutex_latch_inv_def intro!: owner_ok_update split: if_splits\<close>)

interpretation latch: invariant_system latch_step "\<lambda>s. \<exists>n. s = latch_sys_new expected n" "latch_inv expected"
  for expected
proof unfold_locales
  fix s
  assume "\<exists>n. s = latch_sys_new expected n"
  then show "latch_inv expected s"
    by (auto simp: latch_inv_def barrier_inv_def counter_inv_def mutex_latch_inv_def owner_ok_def
        latch_sys_new_def
        latch_new_def)
qed (rule latch_inv_step)

lemma latch_reachable_inv: "reachable latch_step (latch_sys_new expected n) s \<Longrightarrow> latch_inv expected s"
  by (rule latch.inv_reachable) auto

subsection \<open>Progress\<close>

lemma latch_go_enabled:
  assumes "latch_go i pc s = None"
  shows "pc = Outside \<or> pc = WaitBlocked \<or> latch_owner s \<noteq> None"
  using assms by (cases pc) (auto simp: lock_latch_def split: if_splits)

lemma latch_stuck_none: "latch_stuck s \<Longrightarrow> i < length (latch_pcs s) \<Longrightarrow> latch_go i (latch_pcs s ! i) s = None"
  by (auto simp: latch_stuck_def enabled_def dest: spec [of _ i])

lemma latch_stuck_free:
  assumes inv: "latch_inv expected s" and stuck: "latch_stuck s"
  shows "latch_owner s = None"
proof (cases "latch_owner s")
  case (Some j)
  with inv have "j < length (latch_pcs s)" "latch_locked (latch_pcs s ! j)"
    by (auto simp: latch_inv_def mutex_latch_inv_def owner_ok_def)
  with latch_stuck_none [OF stuck, of j] show ?thesis by (cases "latch_pcs s ! j") auto
qed

lemma latch_stuck_pcs:
  assumes "latch_inv expected s" and "latch_stuck s" and "i < length (latch_pcs s)"
  shows "latch_pcs s ! i = Outside \<or> latch_pcs s ! i = WaitBlocked"
  using latch_go_enabled [OF latch_stuck_none [OF assms(2,3)]] latch_stuck_free [OF assms(1,2)] by simp

lemma latch_stuckI:
  assumes "\<forall>pc \<in> set (latch_pcs s). pc = Outside \<or> pc = WaitBlocked"
  shows "latch_stuck s"
  unfolding latch_stuck_def enabled_def
proof
  fix i
  have "latch_go i (latch_pcs s ! i) s = None" if "i < length (latch_pcs s)"
    using bspec [OF assms nth_mem [OF that]] by auto
  then show "\<not> latch_step (LStep i) s \<noteq> None" by simp
qed

lemmas latch_eval = latch_sys_new_def latch_new_def lock_latch_def leave_wait_def after_count_down_def
  wake_waiter_def numeral_2_eq_2

subsection \<open>Properties\<close>

text \<open>C19: the latch is a barrier. Under any interleaving of \<open>count_down\<close>, \<open>wait\<close> and
  \<open>arrive_and_wait\<close> calls of any number of threads, the counter is the initial value minus
  everything counted down (mod \<open>2^64\<close>), and as long as less than the expected number has been
  counted down no call of \<open>wait\<close> has returned.\<close>

theorem latch_barrier:
  assumes "reachable latch_step (latch_sys_new expected n) s"
  shows "m_expected (the_latch s) = expected - sum_list (counted s)
    \<and> (total (counted s) < unat expected \<longrightarrow> waits_done s = 0)"
  using latch_reachable_inv [OF assms] by (simp add: latch_inv_def barrier_inv_def counter_inv_def)

theorem latch_barrier_witness:
  "let s = the (run latch_step [LCall 0 Wait, LStep 0, LStep 0, LCall 1 (CountDown 1), LStep 1] (latch_sys_new 2 2))
   in total (counted s) < 2 \<and> waits_done s = 0 \<and> m_expected (the_latch s) = 1"
  (is "let s = the (run _ ?as _) in _")
proof -
  let ?s = "the (run latch_step ?as (latch_sys_new 2 2))"
  have eval: "run latch_step ?as (latch_sys_new 2 2) \<noteq> None" "counted ?s = [1]"
    by (simp_all add: latch_eval)
  from latch_barrier [OF reachable_the_run [OF eval(1)]] eval(2) show ?thesis
    by (simp add: Let_def total_def)
qed

text \<open>C20: the latch never deadlocks on its mutex. When no thread can take a step, every thread
  is outside the latch or blocked on the condition variable, and if the counter is zero each
  blocked thread returns from \<open>wait\<close> as soon as it wakes up, even spuriously.\<close>

theorem latch_progress:
  assumes "reachable latch_step (latch_sys_new expected n) s" and "latch_stuck s"
    and "i < length (latch_pcs s)"
  shows "latch_pcs s ! i = Outside \<or>
    (latch_pcs s ! i = WaitBlocked \<and>
      (try_wait (the_latch s) \<longrightarrow>
        (\<exists>s'. run latch_step [LSpurious i, LStep i, LStep i] s = Some s' \<and> latch_pcs s' ! i = Outside
           \<and> waits_done s' = Suc (waits_done s))))"
proof -
  note inv = latch_reachable_inv [OF assms(1)]
  note at = latch_stuck_pcs [OF inv assms(2,3)] and free = latch_stuck_free [OF inv assms(2)]
  from at assms(3) free show ?thesis by (auto simp: lock_latch_def leave_wait_def)
qed

theorem latch_progress_witness:
  "let s = the (run latch_step [LCall 0 Wait, LStep 0, LStep 0, LStep 0, LStep 0] (latch_sys_new 1 1))
   in latch_stuck s \<and> latch_pcs s ! 0 = WaitBlocked"
  (is "let s = the (run _ ?as _) in _")
proof -
  let ?s = "the (run latch_step ?as (latch_sys_new 1 1))"
  have eval: "run latch_step ?as (latch_sys_new 1 1) \<noteq> None" "latch_pcs ?s = [WaitBlocked]"
    by (simp_all add: latch_eval)
  have stuck: "latch_stuck ?s" by (rule latch_stuckI) (simp only: eval(2), simp)
  from latch_progress [OF reachable_the_run [OF eval(1)] stuck, of 0] eval(2) stuck show ?thesis
    by (simp add: Let_def)
qed

text \<open>A lost wake-up. \<open>count_down\<close> changes the counter and notifies without the mutex, so
  its notification can fall between the waiter's test of the counter and its going to sleep:
  the counter is zero, nobody can take a step, and the waiter is blocked.\<close>

theorem latch_lost_wakeup:
  "\<exists>s. reachable latch_step (latch_sys_new 1 2) s \<and> latch_stuck s
     \<and> try_wait (the_latch s) \<and> WaitBlocked \<in> set (latch_pcs s)"
proof -
  let ?as = "[LCall 0 Wait, LStep 0, LStep 0, LStep 0, LCall 1 (CountDown 1), LStep 1, LStep 1, LStep 1, LStep 0]"
  let ?s = "the (run latch_step ?as (latch_sys_new 1 2))"
  have eval: "run latch_step ?as (latch_sys_new 1 2) \<noteq> None" "latch_pcs ?s = [WaitBlocked, Outside]"
      "m_expected (the_latch ?s) = 0"
    by (simp_all add: latch_eval)
  have "latch_stuck ?s" by (rule latch_stuckI) (simp only: eval(2), simp)
  with reachable_the_run [OF eval(1)] eval(2,3) show ?thesis
    by (intro exI [of _ ?s]) simp
qed

end
