(* ===== verification/LatchSpec.thy ===== *)
theory LatchSpec
  imports Latch
begin

section \<open>The latch refines an atomic gate\<close>

text \<open>
  The contract of \<open>latch.hpp\<close>: a 64-bit counter from which arrivals subtract, each in one
  moment, and a gate that a waiting thread passes at a moment when the counter is zero.
  \<open>arrive_and_wait\<close> is an arrival followed by a passage. The refinement shows that the code keeps
  this contract whatever the interleaving; that a thread also gets to pass is another matter,
  which theory \<open>Latch\<close> looks at.
\<close>

subsection \<open>The gate\<close>

datatype gate_client =
    AtRest
  | Arriving size_t bool   \<comment> \<open>and whether it goes on to wait\<close>
  | Waiting
  | Done

fun gate_entry :: "latch_call \<Rightarrow> gate_client" where
  "gate_entry (CountDown n) = Arriving n False"
| "gate_entry Wait = Waiting"
| "gate_entry (ArriveAndWait n) = Arriving n True"

record gate =
  gate_counter :: size_t
  gate_clients :: "gate_client list"

definition gate_new :: "size_t \<Rightarrow> nat \<Rightarrow> gate" where
  "gate_new expected threads = \<lparr>gate_counter = expected, gate_clients = replicate threads AtRest\<rparr>"

datatype gate_act = GInvoke nat latch_call | GArrive nat size_t | GPass nat | GReturn nat

abbreviation set_gate_client :: "nat \<Rightarrow> gate_client \<Rightarrow> gate \<Rightarrow> gate" where
  "set_gate_client i c s \<equiv> s\<lparr>gate_clients := (gate_clients s)[i := c]\<rparr>"

fun gate_step :: "gate_act \<Rightarrow> gate \<Rightarrow> gate option" where
  "gate_step (GInvoke i c) s =
     (if i < length (gate_clients s) \<and> gate_clients s ! i = AtRest
      then Some (set_gate_client i (gate_entry c) s) else None)"
| "gate_step (GArrive i n) s =
     (if i < length (gate_clients s) \<and> gate_clients s ! i \<in> {Arriving n True, Arriving n False}
      then Some (set_gate_client i (if gate_clients s ! i = Arriving n True then Waiting else Done)
             (s\<lparr>gate_counter := gate_counter s - n\<rparr>))
      else None)"
| "gate_step (GPass i) s =
     (if i < length (gate_clients s) \<and> gate_clients s ! i = Waiting \<and> gate_counter s = 0
      then Some (set_gate_client i Done s) else None)"
| "gate_step (GReturn i) s =
     (if i < length (gate_clients s) \<and> gate_clients s ! i = Done
      then Some (set_gate_client i AtRest s) else None)"

subsection \<open>What the gate sees of the code\<close>

fun gate_client_of :: "latch_pc \<Rightarrow> gate_client" where
  "gate_client_of Outside = AtRest"
| "gate_client_of (Subtract n arrive) = Arriving n arrive"
| "gate_client_of (Compare arrive) = (if arrive then Waiting else Done)"
| "gate_client_of (Notify arrive) = (if arrive then Waiting else Done)"
| "gate_client_of WaitLock = Waiting"
| "gate_client_of WaitTest = Waiting"
| "gate_client_of WaitRelock = Waiting"
| "gate_client_of WaitPred = Waiting"
| "gate_client_of WaitSleep = Waiting"
| "gate_client_of WaitBlocked = Waiting"

definition gate_of :: "latch_sys \<Rightarrow> gate" where
  "gate_of s =
     \<lparr>gate_counter = m_expected (the_latch s), gate_clients = map gate_client_of (latch_pcs s)\<rparr>"

fun latch_go_acts :: "nat \<Rightarrow> latch_pc \<Rightarrow> latch_sys \<Rightarrow> gate_act list" where
  "latch_go_acts i (Subtract n arrive) s = [GArrive i n]"
| "latch_go_acts i (Compare arrive) s = (if try_wait (the_latch s) \<or> arrive then [] else [GReturn i])"
| "latch_go_acts i (Notify arrive) s = (if arrive then [] else [GReturn i])"
| "latch_go_acts i WaitTest s = (if try_wait (the_latch s) then [GPass i, GReturn i] else [])"
| "latch_go_acts i WaitPred s = (if try_wait (the_latch s) then [GPass i, GReturn i] else [])"
| "latch_go_acts i _ s = []"

fun gate_acts :: "latch_act \<Rightarrow> latch_sys \<Rightarrow> gate_act list" where
  "gate_acts (LCall i c) s = [GInvoke i c]"
| "gate_acts (LStep i) s = latch_go_acts i (latch_pcs s ! i) s"
| "gate_acts (LSpurious i) s = []"

subsection \<open>The simulation\<close>

lemma gate_client_of_entry [simp]: "gate_client_of (latch_entry c) = gate_entry c"
  by (cases c) simp_all

lemma gate_client_of_after [simp]:
  "gate_client_of (after_count_down arrive) = (if arrive then Waiting else AtRest)"
  by (simp add: after_count_down_def)

lemma gate_client_of_wake [simp]: "gate_client_of \<circ> wake_waiter = gate_client_of"
  by (rule ext) (simp add: wake_waiter_def)

lemma gate_clients_same:
  "i < length ps \<Longrightarrow> c = gate_client_of (ps ! i) \<Longrightarrow> (map gate_client_of ps)[i := c] = map gate_client_of ps"
  by (metis length_map list_update_id nth_map)

lemma latch_go_simulated:
  assumes i: "i < length (latch_pcs s)" and "latch_go i (latch_pcs s ! i) s = Some s'"
  shows "run gate_step (latch_go_acts i (latch_pcs s ! i) s) (gate_of s) = Some (gate_of s')"
  using assms
  by (cases "latch_pcs s ! i")
     (auto simp: lock_latch_def leave_wait_def map_update gate_clients_same gate_of_def split: if_splits)

lemma latch_simulated:
  assumes "latch_step a s = Some s'"
  shows "run gate_step (gate_acts a s) (gate_of s) = Some (gate_of s')"
proof (cases a)
  case (LStep i)
  with assms show ?thesis using latch_go_simulated by (auto split: if_splits)
qed (use assms in \<open>auto simp: gate_of_def map_update gate_clients_same split: if_splits\<close>)

interpretation latch_gate_sim:
  simulation latch_step "\<lambda>s. \<exists>n. s = latch_sys_new expected n" "latch_inv expected" gate_step gate_acts gate_of
  for expected
  by unfold_locales (rule latch_simulated)

lemma gate_of_new [simp]: "gate_of (latch_sys_new expected n) = gate_new expected n"
  by (simp add: gate_of_def latch_sys_new_def latch_new_def gate_new_def)

subsection \<open>Properties\<close>

text \<open>C18: the latch refines the atomic gate. Every run of any number of threads through
  \<open>count_down\<close>, \<open>wait\<close> and \<open>arrive_and_wait\<close> is, call by call and return by return, a run of the
  gate, in which each arrival subtracts in one moment and each \<open>wait\<close> passes at one moment between
  its call and its return, when the counter is zero.\<close>

theorem latch_refines_gate:
  assumes "run latch_step as (latch_sys_new expected n) = Some s"
  shows "run gate_step (trace_of latch_step gate_acts as (latch_sys_new expected n)) (gate_new expected n)
    = Some (gate_of s)"
  using latch_gate_sim.sim_run [OF _ assms, of expected] by auto

theorem latch_refines_gate_witness:
  "run gate_step [GInvoke 0 Wait, GInvoke 1 (CountDown 1), GArrive 1 1, GReturn 1, GPass 0, GReturn 0]
     (gate_new 1 2) = Some (gate_new 0 2)"
proof -
  let ?as = "[LCall 0 Wait, LStep 0, LStep 0, LStep 0, LStep 0, LCall 1 (CountDown 1), LStep 1, LStep 1, LStep 1,
    LStep 0, LStep 0]"
  have "\<exists>s. run latch_step ?as (latch_sys_new 1 2) = Some s \<and> gate_of s = gate_new 0 2"
    by (simp add: latch_sys_new_def latch_new_def lock_latch_def leave_wait_def after_count_down_def
        wake_waiter_def gate_of_def gate_new_def numeral_2_eq_2)
  then obtain s where s: "run latch_step ?as (latch_sys_new 1 2) = Some s" "gate_of s = gate_new 0 2"
    by blast
  from latch_refines_gate [OF s(1)] s(2) show ?thesis
    by (simp add: latch_sys_new_def latch_new_def lock_latch_def leave_wait_def after_count_down_def
        wake_waiter_def numeral_2_eq_2)
qed

end
