(* ===== verification/FutureProgress.thy ===== *)
theory FutureProgress
  imports Future
begin

section \<open>Progress of the threads at a shared state\<close>

text \<open>
  Theory \<open>Future\<close> says what \<open>get\<close> returns. Here it is shown how far the threads get: the mutex of
  \<open>wait\<close> is held by at most one getter and never blocks anyone for good, every settling thread
  finishes, and a getter that sleeps although the state is ready has only missed the
  notification: any wake-up lets it finish. That notifications can be missed, and that
  \<open>notify_one\<close> serves one of several waiting futures only, is shown by runs.
\<close>

subsection \<open>Mutex and settlements\<close>

fun getter_locked :: "getter \<Rightarrow> bool" where
  "getter_locked GetTestLocked = True"
| "getter_locked GetPred = True"
| "getter_locked GetSleep = True"
| "getter_locked _ = False"

definition waiters_inv :: "'v future_sys \<Rightarrow> bool" where
  "waiters_inv s \<longleftrightarrow>
     owner_ok getter_locked (cell_owner s) (getters s)
     \<and> (is_ready (cell s) \<or> (\<forall>pc \<in> set (setters s). \<exists>c. pc = SetCas c))"

lemma waiters_inv_setter:
  assumes "waiters_inv s" and "i < length (setters s)" and "setter_go i (setters s ! i) s = Some s'"
  shows "waiters_inv s'"
proof (cases "setters s ! i")
  case (SetCas c)
  then show ?thesis using assms
    by (auto simp: waiters_inv_def compare_exchange_strong_def is_ready_def split: if_splits)
next
  case (SetWrite c)
  with assms nth_mem [OF assms(2)] show ?thesis by (auto simp: waiters_inv_def is_ready_def)
next
  case SetNotify
  with assms nth_mem [OF assms(2)] show ?thesis by (auto simp: waiters_inv_def split: if_splits)
qed (use assms in simp)

lemma get_switch_state: "get_switch moved st c = (r, c') \<Longrightarrow> m_state c' = m_state c"
  by (cases st) (auto split: data.splits)

lemma waiters_inv_getter:
  assumes inv: "waiters_inv s" and j: "j < length (getters s)" and "getter_go moved j (getters s ! j) s = Some s'"
  shows "waiters_inv s'"
proof -
  note upd = owner_ok_update [where holds = getter_locked and ps = "getters s" and i = j and ow = "cell_owner s"]
  show ?thesis
  proof (cases "getters s ! j")
    case (GetRead st)
    obtain r c' where c': "get_switch moved st (cell s) = (r, c')" by fastforce
    with GetRead get_switch_state [OF c'] assms show ?thesis
      by (auto simp: waiters_inv_def is_ready_def intro!: upd)
  qed (use assms in \<open>auto simp: waiters_inv_def lock_cell_def intro!: upd split: if_splits\<close>)
qed

lemma waiters_inv_step:
  assumes "waiters_inv s" and "future_step moved a s = Some s'"
  shows "waiters_inv s'"
proof (cases a)
  case (NotifyGetter i j)
  with assms(2) have "SetNotify \<in> set (setters s)" by (metis future_step.simps(2) nth_mem option.distinct(1))
  with assms(1) have "is_ready (cell s)" by (auto simp: waiters_inv_def)
  with NotifyGetter assms show ?thesis
    by (auto simp: waiters_inv_def intro!: owner_ok_update split: if_splits)
next
  case (GetterSpurious j)
  with assms show ?thesis by (auto simp: waiters_inv_def intro!: owner_ok_update split: if_splits)
qed (use assms waiters_inv_setter waiters_inv_getter in \<open>auto split: if_splits\<close>)

interpretation waiters: invariant_system "future_step moved" "\<lambda>s. \<exists>cs n. s = future_sys_new cs n" waiters_inv
  for moved
proof unfold_locales
  fix s :: "'a future_sys"
  assume "\<exists>cs n. s = future_sys_new cs n"
  then show "waiters_inv s"
    by (auto simp: waiters_inv_def future_sys_new_def owner_ok_replicate)
qed (rule waiters_inv_step)

subsection \<open>Runs end\<close>

text \<open>Every step but a spurious wake-up takes away from a finite amount of work: a notification
  pays for the loop round of the getter that it wakes.\<close>

fun setter_work :: "'v setter \<Rightarrow> nat" where
  "setter_work (SetCas c) = 7"
| "setter_work (SetWrite c) = 6"
| "setter_work SetNotify = 5"
| "setter_work SetDone = 0"

fun getter_work :: "getter \<Rightarrow> nat" where
  "getter_work GetTest = 6"
| "getter_work GetLock = 5"
| "getter_work GetTestLocked = 4"
| "getter_work GetRelock = 4"
| "getter_work GetPred = 3"
| "getter_work GetSwitch = 2"
| "getter_work GetSleep = 1"
| "getter_work (GetRead st) = 1"
| "getter_work GetBlocked = 0"
| "getter_work GetDone = 0"

definition future_work :: "'v future_sys \<Rightarrow> nat" where
  "future_work s = sum_list (map setter_work (setters s)) + sum_list (map getter_work (getters s))"

fun spurious_getter :: "future_act \<Rightarrow> bool" where
  "spurious_getter (GetterSpurious j) = True"
| "spurious_getter _ = False"

lemma setter_go_work:
  assumes "i < length (setters s)" and "setter_go i (setters s ! i) s = Some s'"
  shows "future_work s' < future_work s"
  using assms by (cases "setters s ! i")
    (auto simp: future_work_def compare_exchange_strong_def intro!: sum_list_map_update_less split: if_splits)

lemma getter_go_work:
  assumes "j < length (getters s)" and "getter_go moved j (getters s ! j) s = Some s'"
  shows "future_work s' < future_work s"
  using assms by (cases "getters s ! j")
    (auto simp: future_work_def lock_cell_def intro!: sum_list_map_update_less split: if_splits prod.splits)

lemma notify_work:
  assumes "i < length (setters s)" "j < length (getters s)" "setters s ! i = SetNotify" "getters s ! j = GetBlocked"
  shows "future_work (s\<lparr>getters := (getters s)[j := GetRelock], setters := (setters s)[i := SetDone]\<rparr>) < future_work s"
  using sum_list_map_update [OF assms(1), of setter_work SetDone]
    sum_list_map_update [OF assms(2), of getter_work GetRelock] assms(3,4)
  by (simp add: future_work_def)

lemma future_step_work:
  "future_step moved a s = Some s' \<Longrightarrow> \<not> spurious_getter a \<Longrightarrow> future_work s' < future_work s"
  by (cases a) (auto dest: setter_go_work getter_go_work intro: notify_work split: if_splits)

lemma future_run_work:
  "run (future_step moved) as s = Some s' \<Longrightarrow> \<forall>a \<in> set as. \<not> spurious_getter a \<Longrightarrow>
     length as + future_work s' \<le> future_work s"
proof (induction as arbitrary: s)
  case (Cons a as)
  then obtain t where t: "future_step moved a s = Some t" "run (future_step moved) as t = Some s'"
    by (auto split: option.splits)
  with Cons.IH [OF t(2)] Cons.prems(2) future_step_work [OF t(1)] show ?case by simp
qed simp

lemma future_work_new: "future_work (future_sys_new cs n) = 7 * length cs + 6 * n"
  by (simp add: future_work_def future_sys_new_def comp_def map_replicate_const sum_list_replicate sum_list_triv)

subsection \<open>Where runs end\<close>

lemma setter_go_length: "setter_go i pc s = Some s' \<Longrightarrow> length (setters s') = length (setters s)"
  by (cases pc) (auto simp: compare_exchange_strong_def split: if_splits)

lemma getter_go_setters: "getter_go moved j pc s = Some s' \<Longrightarrow> setters s' = setters s"
  by (cases pc) (auto simp: lock_cell_def split: if_splits prod.splits)

lemma future_step_setters: "future_step moved a s = Some s' \<Longrightarrow> length (setters s') = length (setters s)"
  by (cases a) (auto dest: setter_go_length getter_go_setters split: if_splits)

lemma reachable_setters:
  assumes "reachable (future_step moved) (future_sys_new cs n) s"
  shows "length (setters s) = length cs"
  by (rule reachable_preserves [OF assms]) (auto simp: future_sys_new_def future_step_setters)

lemma stuck_setters:
  assumes "future_stuck moved s" and "pc \<in> set (setters s)"
  shows "pc = SetDone"
proof -
  obtain i where i: "i < length (setters s)" "setters s ! i = pc" using assms(2) by (auto simp: in_set_conv_nth)
  have go: "setter_go i pc s = None" and notify: "future_step moved (NotifyGetter i j) s = None" for j
    using assms(1) i unfolding future_stuck_def by (metis future_step.simps(1), blast)
  show ?thesis
  proof (cases pc)
    case SetNotify
    with go obtain j where "j < length (getters s)" "getters s ! j = GetBlocked"
      by (auto simp: in_set_conv_nth split: if_splits)
    with notify [of j] SetNotify i show ?thesis by simp
  qed (use go in \<open>auto simp: Let_def split: prod.splits\<close>)
qed

lemma stuck_go: "future_stuck moved s \<Longrightarrow> j < length (getters s) \<Longrightarrow> getter_go moved j (getters s ! j) s = None"
  unfolding future_stuck_def by (metis future_step.simps(3))

lemma stuck_unlocked:
  assumes "future_stuck moved s" and "owner_ok getter_locked (cell_owner s) (getters s)"
  shows "cell_owner s = None"
proof (cases "cell_owner s")
  case (Some k)
  with assms stuck_go [of moved s k] show ?thesis
    by (cases "getters s ! k") (auto dest: owner_ok_Some)
qed

lemma stuck_getters:
  assumes "future_stuck moved s" and "owner_ok getter_locked (cell_owner s) (getters s)"
    and "pc \<in> set (getters s)"
  shows "pc = GetBlocked \<or> pc = GetDone"
proof -
  obtain j where "j < length (getters s)" "getters s ! j = pc" using assms(3) by (auto simp: in_set_conv_nth)
  with stuck_go [OF assms(1), of j] stuck_unlocked [OF assms(1,2)] show ?thesis
    by (cases pc) (auto simp: lock_cell_def split: prod.splits)
qed

lemma blocked_getter_finishes:
  assumes "is_ready (cell s)" and "cell_owner s = None" and "j < length (getters s)" and "getters s ! j = GetBlocked"
  shows "\<exists>s'. run (future_step moved)
      [GetterSpurious j, GetterStep j, GetterStep j, GetterStep j, GetterStep j] s = Some s'
    \<and> getters s' ! j = GetDone"
  using assms by (simp add: lock_cell_def split: prod.splits)

subsection \<open>Properties\<close>

text \<open>C23: the threads at a shared state make progress. With \<open>length cs\<close> threads that settle it and
  \<open>n\<close> that get, a run without spurious wake-ups is of at most \<open>7 * length cs + 6 * n\<close> steps,
  whatever the scheduler does. Where no step is left, every settling thread has returned, nobody
  holds the mutex or waits for it, every \<open>get\<close> has returned or is blocked on the condition, and
  when anybody settles at all the state is ready; a \<open>get\<close> that is blocked then has only missed
  its notification: any wake-up lets it return in four steps of its own.\<close>

theorem future_progress:
  assumes "run (future_step moved) as (future_sys_new cs n) = Some s"
  shows "((\<forall>a \<in> set as. \<not> spurious_getter a) \<longrightarrow> length as \<le> 7 * length cs + 6 * n)
    \<and> (future_stuck moved s \<longrightarrow>
         (\<forall>pc \<in> set (setters s). pc = SetDone) \<and> cell_owner s = None
         \<and> (\<forall>pc \<in> set (getters s). pc = GetBlocked \<or> pc = GetDone)
         \<and> (cs \<noteq> [] \<longrightarrow> is_ready (cell s))
         \<and> (\<forall>j < length (getters s). is_ready (cell s) \<and> getters s ! j = GetBlocked \<longrightarrow>
              (\<exists>s'. run (future_step moved)
                  [GetterSpurious j, GetterStep j, GetterStep j, GetterStep j, GetterStep j] s = Some s'
                \<and> getters s' ! j = GetDone)))"
proof -
  have reach: "reachable (future_step moved) (future_sys_new cs n) s" using assms by (rule run_reachable)
  then have inv: "waiters_inv s" by (rule waiters.inv_reachable) auto
  then have ok: "owner_ok getter_locked (cell_owner s) (getters s)" by (simp add: waiters_inv_def)
  have ready: "is_ready (cell s)" if "future_stuck moved s" "cs \<noteq> []"
  proof -
    have "setters s \<noteq> []" using reachable_setters [OF reach] that(2) by auto
    then have "SetDone \<in> set (setters s)" using stuck_setters [OF that(1) last_in_set] last_in_set by metis
    with inv show ?thesis by (auto simp: waiters_inv_def)
  qed
  show ?thesis
    using future_run_work [OF assms] future_work_new [of cs n] stuck_setters stuck_unlocked [OF _ ok]
      stuck_getters [OF _ ok] ready blocked_getter_finishes [of s]
    by (intro conjI impI; fastforce)
qed

theorem future_progress_witness:
  "let as = [GetterStep 0, GetterStep 0, GetterStep 0, GetterStep 0, SetterStep 0, SetterStep 0, SetterStep 0,
             GetterStep 0];
       s = the (run (future_step (\<lambda>v. v)) as (future_sys_new [SetValue (result_of_value (7::nat))] 1))
   in length as \<le> 7 * 1 + 6 * 1 \<and> future_stuck (\<lambda>v. v) s \<and> getters s = [GetBlocked] \<and> is_ready (cell s)"
  (is "let as = ?as; s = the (run _ as ?start) in _")
proof -
  let ?s = "the (run (future_step (\<lambda>v. v)) ?as ?start)"
  have eval: "run (future_step (\<lambda>v. v)) ?as ?start = Some ?s" "setters ?s = [SetDone]" "getters ?s = [GetBlocked]"
    by (simp_all add: future_eval)
  then have "future_stuck (\<lambda>v. v) ?s" by (intro future_stuckI) simp_all
  with future_progress [OF eval(1)] eval(3) show ?thesis by (simp add: Let_def)
qed

text \<open>A promise gives out any number of futures, but every settlement notifies one thread: of two
  that are blocked in \<open>get\<close>, one returns and the other stays blocked.\<close>

theorem notify_wakes_one:
  "\<exists>s. reachable (future_step moved) (future_sys_new [SetValue r] 2) s
     \<and> future_stuck moved s \<and> getters s = [GetDone, GetBlocked] \<and> results s = [(True, Inr r)]"
proof -
  let ?start = "future_sys_new [SetValue r] 2"
  let ?block = "\<lambda>j. [GetterStep j, GetterStep j, GetterStep j, GetterStep j, GetterStep j]"
  let ?as = "?block 0 @ ?block 1 @ [SetterStep 0, SetterStep 0, NotifyGetter 0 0,
    GetterStep 0, GetterStep 0, GetterStep 0, GetterStep 0]"
  let ?s = "the (run (future_step moved) ?as ?start)"
  have eval: "run (future_step moved) ?as ?start \<noteq> None" "setters ?s = [SetDone]"
    "getters ?s = [GetDone, GetBlocked]" "results ?s = [(True, Inr r)]"
    by (simp_all add: future_eval replicate_two)
  have "future_stuck moved ?s" by (rule future_stuckI) (simp_all only: eval(2,3), simp_all)
  with eval reachable_the_run [OF eval(1)] show ?thesis by blast
qed

end
