(* ===== verification/ReceiverThreads.thy ===== *)
theory ReceiverThreads
  imports Receivers
begin

section \<open>The callback receiver used by several threads\<close>

text \<open>
  The interleaving model of \<open>callback_receiver\<close>: any number of threads, each in one call of
  \<open>complete\<close>, \<open>fail\<close> or \<open>cancel\<close>, where the \<open>compare_exchange_strong\<close> and the invocation of the
  handler are separate steps. An exception out of the error or the cancel handler, which run in
  \<open>noexcept\<close> functions, ends the program for every thread. The calls are shown to be
  linearizable: whatever the interleaving, the handlers run and the calls return as if they had
  been made one after the other, in the order of their compare-and-exchanges.
\<close>

subsection \<open>Interleaving model\<close>

datatype 'v caller =
    SigCas "'v signal"        \<comment> \<open>before \<open>compare_exchange_strong\<close>\<close>
  | SigInvoke "'v signal"     \<comment> \<open>it succeeded; before \<open>std::invoke\<close> of the handler\<close>
  | SigReturned completion    \<comment> \<open>the call has ended, in this way\<close>

text \<open>The history \<open>cas_order\<close>: the threads in the order of their compare-and-exchanges.\<close>

record ('v, 'w) callback_sys =
  shared_receiver :: "('v, 'w) callback_receiver"
  outer_world :: 'w
  callers :: "'v caller list"
  cas_order :: "nat list"

definition callback_sys_new ::
  "('v, 'w) callback_receiver \<Rightarrow> 'v signal list \<Rightarrow> 'w \<Rightarrow> ('v, 'w) callback_sys" where
  "callback_sys_new cb cs w =
     \<lparr>shared_receiver = cb, outer_world = w, callers = map SigCas cs, cas_order = []\<rparr>"

abbreviation caller_to :: "nat \<Rightarrow> 'v caller \<Rightarrow> ('v, 'w) callback_sys \<Rightarrow> ('v, 'w) callback_sys" where
  "caller_to i pc s \<equiv> s\<lparr>callers := (callers s)[i := pc]\<rparr>"

definition program_ended :: "('v, 'w) callback_sys \<Rightarrow> bool" where
  "program_ended s \<longleftrightarrow> SigReturned Terminated \<in> set (callers s)"

definition caller_cas :: "nat \<Rightarrow> 'v signal \<Rightarrow> receiver_state \<Rightarrow> ('v, 'w) callback_sys \<Rightarrow> ('v, 'w) callback_sys" where
  "caller_cas i c desired s =
     (let (stored, st) = compare_exchange_strong (callback_receiver.m_state (shared_receiver s)) Initial desired
      in caller_to i (if stored then SigInvoke c else SigReturned Normal)
           (s\<lparr>shared_receiver := (shared_receiver s)\<lparr>callback_receiver.m_state := st\<rparr>,
              cas_order := cas_order s @ [i]\<rparr>))"

definition caller_invoke :: "nat \<Rightarrow> 'w action \<Rightarrow> ('v, 'w) callback_sys \<Rightarrow> ('v, 'w) callback_sys" where
  "caller_invoke i handler s =
     (let (ended, w) = handler (outer_world s) in caller_to i (SigReturned ended) (s\<lparr>outer_world := w\<rparr>))"

text \<open>The two steps of \<open>complete\<close>, of \<open>fail\<close> and of \<open>cancel\<close>.\<close>

fun caller_go :: "nat \<Rightarrow> 'v caller \<Rightarrow> ('v, 'w) callback_sys \<Rightarrow> ('v, 'w) callback_sys option" where
  "caller_go i (SigCas (Complete v)) s = Some (caller_cas i (Complete v) Completed s)"
| "caller_go i (SigCas (Fail e)) s = Some (caller_cas i (Fail e) Failed s)"
| "caller_go i (SigCas CancelSignal) s = Some (caller_cas i CancelSignal CanceledState s)"
| "caller_go i (SigInvoke (Complete v)) s =
     Some (caller_invoke i (m_complete_handler (shared_receiver s) v) s)"
| "caller_go i (SigInvoke (Fail e)) s =
     Some (caller_invoke i (noexcept (m_error_handler (shared_receiver s) e)) s)"
| "caller_go i (SigInvoke CancelSignal) s =
     Some (caller_invoke i (noexcept (m_cancel_handler (shared_receiver s))) s)"
| "caller_go i (SigReturned r) s = None"

definition callback_step :: "nat \<Rightarrow> ('v, 'w) callback_sys \<Rightarrow> ('v, 'w) callback_sys option" where
  "callback_step i s =
     (if i < length (callers s) \<and> \<not> program_ended s then caller_go i (callers s ! i) s else None)"

subsection \<open>Invariant\<close>

lemma caller_go_eq:
  "caller_go i (SigCas c) s = Some (caller_cas i c (signal_state c) s)"
  "caller_go i (SigInvoke c) s = Some (caller_invoke i (signal_handler (shared_receiver s) c) s)"
  by (cases c; simp)+

lemma signal_state_settled [simp]: "signal_state c \<noteq> Initial" "Initial \<noteq> signal_state c"
  by (cases c; simp)+

lemma signal_handler_state [simp]:
  "signal_handler (cb\<lparr>callback_receiver.m_state := st\<rparr>) c = signal_handler cb c"
  by (cases c) auto

text \<open>The first thread to get to its compare-and-exchange is about to run its handler or has run
  it; those after it have returned, and the others have not moved.\<close>

definition first_caller ::
  "('v, 'w) callback_receiver \<Rightarrow> 'v signal \<Rightarrow> 'w \<Rightarrow> 'v caller \<Rightarrow> ('v, 'w) callback_sys \<Rightarrow> bool" where
  "first_caller cb c w pc s \<longleftrightarrow>
     shared_receiver s = cb\<lparr>callback_receiver.m_state := signal_state c\<rparr>
     \<and> (pc = SigInvoke c \<and> outer_world s = w
        \<or> (\<exists>r w'. signal_handler cb c w = (r, w') \<and> pc = SigReturned r \<and> outer_world s = w'))"

definition callback_inv ::
  "('v, 'w) callback_receiver \<Rightarrow> 'v signal list \<Rightarrow> 'w \<Rightarrow> ('v, 'w) callback_sys \<Rightarrow> bool" where
  "callback_inv cb cs w s \<longleftrightarrow>
     length (callers s) = length cs \<and> distinct (cas_order s)
     \<and> (\<forall>i < length cs. i \<notin> set (cas_order s) \<longleftrightarrow> callers s ! i = SigCas (cs ! i))
     \<and> (\<forall>i \<in> set (cas_order s). i < length cs)
     \<and> (case cas_order s of
          [] \<Rightarrow> shared_receiver s = cb \<and> outer_world s = w
        | f # fs \<Rightarrow> first_caller cb (cs ! f) w (callers s ! f) s
            \<and> (\<forall>i \<in> set fs. callers s ! i = SigReturned Normal))"

lemma callback_inv_cas:
  assumes "callback_receiver.m_state cb = Initial" and inv: "callback_inv cb cs w s"
    and i: "i < length cs" and at: "callers s ! i = SigCas c"
  shows "callback_inv cb cs w (caller_cas i c (signal_state c) s)"
proof -
  have new: "i \<notin> set (cas_order s)" and c: "cs ! i = c"
  proof -
    show new: "i \<notin> set (cas_order s)"
    proof
      assume "i \<in> set (cas_order s)"
      with inv at show False
        by (cases "cas_order s") (auto simp: callback_inv_def first_caller_def)
    qed
    with inv i at show "cs ! i = c" by (simp add: callback_inv_def)
  qed
  show ?thesis
  proof (cases "cas_order s")
    case Nil
    with inv assms(1) i c show ?thesis
      by (auto simp: callback_inv_def caller_cas_def first_caller_def nth_list_update)
  next
    case (Cons f fs)
    with inv have "callback_receiver.m_state (shared_receiver s) \<noteq> Initial"
      by (simp add: callback_inv_def first_caller_def)
    with Cons inv i c new show ?thesis
      by (auto simp: callback_inv_def caller_cas_def first_caller_def nth_list_update)
  qed
qed

lemma callback_inv_invoke:
  assumes inv: "callback_inv cb cs w s" and i: "i < length cs" and at: "callers s ! i = SigInvoke c"
  shows "callback_inv cb cs w (caller_invoke i (signal_handler (shared_receiver s) c) s)"
proof -
  from inv i at have moved: "i \<in> set (cas_order s)" by (auto simp: callback_inv_def)
  then obtain f fs where order: "cas_order s = f # fs" by (cases "cas_order s") auto
  with inv moved at have "i = f" by (auto simp: callback_inv_def)
  with order inv i at show ?thesis
    by (auto simp: callback_inv_def caller_invoke_def first_caller_def nth_list_update split: prod.splits)
qed

lemma callback_inv_step:
  assumes "callback_receiver.m_state cb = Initial" "callback_inv cb cs w s" "callback_step i s = Some s'"
  shows "callback_inv cb cs w s'"
proof -
  from assms(3) have i: "i < length (callers s)" and go: "caller_go i (callers s ! i) s = Some s'"
    by (auto simp: callback_step_def split: if_splits)
  from assms(2) i have "i < length cs" by (simp add: callback_inv_def)
  with go assms(1,2) callback_inv_cas callback_inv_invoke show ?thesis
    by (cases "callers s ! i") (auto simp: caller_go_eq)
qed

interpretation callers: invariant_system callback_step
    "\<lambda>s. callback_receiver.m_state cb = Initial \<and> s = callback_sys_new cb cs w"
    "\<lambda>s. callback_receiver.m_state cb = Initial \<and> callback_inv cb cs w s"
  for cb cs w
proof unfold_locales
  show "callback_receiver.m_state cb = Initial \<and> callback_inv cb cs w s"
    if "callback_receiver.m_state cb = Initial \<and> s = callback_sys_new cb cs w" for s
    using that by (simp add: callback_sys_new_def callback_inv_def)
qed (blast intro: callback_inv_step)

lemma callback_inv_run:
  assumes "callback_receiver.m_state cb = Initial" and "run callback_step as (callback_sys_new cb cs w) = Some s"
  shows "callback_inv cb cs w s"
  using callers.inv_run [OF assms(2), of cb cs w] assms(1) by simp

subsection \<open>Linearization\<close>

fun returned :: "'v caller \<Rightarrow> completion option" where
  "returned (SigReturned r) = Some r"
| "returned _ = None"

lemma cas_order_all:
  assumes "callback_inv cb cs w s" and "\<forall>pc \<in> set (callers s). returned pc \<noteq> None"
  shows "mset (cas_order s) = mset [0..<length cs]"
proof -
  have "i \<in> set (cas_order s)" if "i < length cs" for i
  proof (rule ccontr)
    assume "i \<notin> set (cas_order s)"
    with assms(1) that have "callers s ! i = SigCas (cs ! i)" and "i < length (callers s)"
      by (simp_all add: callback_inv_def)
    with bspec [OF assms(2) nth_mem, of i] show False by simp
  qed
  with assms(1) have "set (cas_order s) = set [0..<length cs]" and "distinct (cas_order s)"
    by (auto simp: callback_inv_def)
  then show ?thesis by (metis distinct_upt set_eq_iff_mset_eq_distinct)
qed

lemma linearized:
  assumes cb: "callback_receiver.m_state cb = Initial" and inv: "callback_inv cb cs w s"
    and all: "\<forall>pc \<in> set (callers s). returned pc \<noteq> None"
  shows "\<exists>ends. deliver_all (map ((!) cs) (cas_order s)) callback_receiver_ops (cb, w) =
      (ends, (shared_receiver s, outer_world s))
    \<and> map (\<lambda>i. returned (callers s ! i)) (cas_order s) = map Some ends"
proof (cases "cas_order s")
  case Nil
  with inv show ?thesis by (simp add: callback_inv_def)
next
  case (Cons f fs)
  then have f: "f < length (callers s)" and first: "first_caller cb (cs ! f) w (callers s ! f) s"
    and later: "\<forall>i \<in> set fs. callers s ! i = SigReturned Normal"
    using inv by (auto simp: callback_inv_def)
  from first bspec [OF all nth_mem [OF f]] obtain r where
    r: "callers s ! f = SigReturned r" "signal_handler cb (cs ! f) w = (r, outer_world s)"
    and st: "shared_receiver s = cb\<lparr>callback_receiver.m_state := signal_state (cs ! f)\<rparr>"
    by (auto simp: first_caller_def)
  have "map (\<lambda>i. returned (callers s ! i)) fs = replicate (length fs) (Some Normal)"
    using later by (induction fs) auto
  with deliver_all_callback_first [OF cb, of "cs ! f" "map ((!) cs) fs" w] r st Cons show ?thesis
    by (simp del: deliver_all.simps)
qed

lemma caller_can_go: "\<not> program_ended s \<Longrightarrow> i < length (callers s) \<Longrightarrow> returned (callers s ! i) = None \<Longrightarrow>
    callback_step i s \<noteq> None"
  by (cases "callers s ! i") (auto simp: callback_step_def caller_go_eq)

subsection \<open>Properties\<close>

text \<open>C25: a callback receiver used by any number of threads is linearizable. Unless a \<open>noexcept\<close>
  handler has thrown, a call that has not returned can take its next step, so nobody waits for
  anybody. When all have returned, the state of the receiver, the effect of the handlers and the
  way each call ended are those of the same calls made one after the other in the order of their
  compare-and-exchanges; so the first one has run its handler, once, and no other has.\<close>

theorem callback_linearizable:
  assumes "run callback_step as (callback_sys_new (callback_receiver_new on_complete on_error on_cancel) cs w)
      = Some s"
  shows "(\<forall>i < length cs. \<not> program_ended s \<and> returned (callers s ! i) = None \<longrightarrow> callback_step i s \<noteq> None)
    \<and> ((\<forall>pc \<in> set (callers s). returned pc \<noteq> None) \<longrightarrow>
        mset (cas_order s) = mset [0..<length cs]
        \<and> (\<exists>ends. deliver_all (map ((!) cs) (cas_order s)) callback_receiver_ops
               (callback_receiver_new on_complete on_error on_cancel, w)
               = (ends, (shared_receiver s, outer_world s))
             \<and> map (\<lambda>i. returned (callers s ! i)) (cas_order s) = map Some ends))"
proof -
  let ?cb = "callback_receiver_new on_complete on_error on_cancel"
  have cb: "callback_receiver.m_state ?cb = Initial" by (simp add: callback_receiver_new_def)
  from callback_inv_run [OF cb assms] have inv: "callback_inv ?cb cs w s" .
  then have "length (callers s) = length cs" by (simp add: callback_inv_def)
  with caller_can_go [of s] cas_order_all [OF inv] linearized [OF cb inv] show ?thesis
    by (intro conjI impI allI) simp_all
qed

text \<open>A thread that fails and one that completes: the failing one gets to its
  compare-and-exchange first, and its handler is the only one that runs.\<close>

theorem callback_linearizable_witness:
  "let log = (\<lambda>x w. (Normal, w @ [x]));
       cb = callback_receiver_new (\<lambda>v. log v) (\<lambda>e. log 1) (log (2::nat));
       s = the (run callback_step [1, 0, 1] (callback_sys_new cb [Complete 7, Fail BadVariantAccess] []))
   in callers s = [SigReturned Normal, SigReturned Normal] \<and> outer_world s = [1]
    \<and> fst (deliver_all [Fail BadVariantAccess, Complete 7] callback_receiver_ops (cb, [])) = [Normal, Normal]"
proof -
  let ?log = "\<lambda>(x::nat) w. (Normal, w @ [x])"
  let ?cb = "callback_receiver_new (\<lambda>v. ?log v) (\<lambda>e. ?log 1) (?log 2)"
  let ?start = "callback_sys_new ?cb [Complete 7, Fail BadVariantAccess] []"
  let ?s = "the (run callback_step [1, 0, 1] ?start)"
  have eval: "run callback_step [1, 0, 1] ?start = Some ?s"
    "callers ?s = [SigReturned Normal, SigReturned Normal]" "outer_world ?s = [1]" "cas_order ?s = [1, 0]"
    by (simp_all add: callback_step_def callback_sys_new_def caller_cas_def caller_invoke_def
        callback_receiver_new_def program_ended_def noexcept_def)
  from conjunct2 [OF callback_linearizable [OF eval(1)]] eval(2,3,4) show ?thesis
    by (auto simp: Let_def)
qed

end
