(* ===== verification/TypeTraits.thy ===== *)
theory TypeTraits
  imports Prelude
begin

section \<open>Compile-time traits (\<open>concurrency/type_traits.hpp\<close>, \<open>core/type_traits.hpp\<close>)\<close>

text \<open>
  What the compiler computes for this library: the traits of callables (\<open>invocable\<close>: return type,
  number and decayed types of the arguments), the detection of member functions
  (\<open>is_output_scheduler\<close>, \<open>is_input_scheduler\<close>, \<open>has_scheduler_adapter\<close>, \<open>has_future\<close>) and of
  comparisons (\<open>has_equal\<close>, \<open>is_nullable\<close>). C++ types are values of a datatype; an expression type
  follows the convention of \<open>std::declval\<close>: \<open>T\<close> is an rvalue, \<open>T&\<close> an lvalue. \<open>None\<close> is a type or an
  expression that is not well-formed. What classes declare, which implicit conversions there
  are and how an overload set is resolved is given by the program, the record \<open>program\<close>.
  Classes are taken to be movable.
\<close>

subsection \<open>Types\<close>

datatype qualifier = Unqualified | ConstQualified | OtherQualified   \<comment> \<open>of a member function\<close>

text \<open>\<open>Enum\<close> is a scoped enumeration, as all of the library are.\<close>

datatype cpp_type =
    Void
  | Arith string
  | Enum string
  | Nullptr
  | Class string
  | Const cpp_type
  | LRef cpp_type
  | RRef cpp_type
  | Pointer cpp_type
  | Array cpp_type nat
  | Function cpp_type "cpp_type list" qualifier bool                 \<comment> \<open>return, parameters, \<open>noexcept\<close>\<close>
  | MemberFunction string cpp_type "cpp_type list" qualifier bool    \<comment> \<open>pointer to member function\<close>

fun remove_reference :: "cpp_type \<Rightarrow> cpp_type" where
  "remove_reference (LRef t) = t"
| "remove_reference (RRef t) = t"
| "remove_reference t = t"

fun remove_cv :: "cpp_type \<Rightarrow> cpp_type" where
  "remove_cv (Const t) = remove_cv t"
| "remove_cv t = t"

fun is_const :: "cpp_type \<Rightarrow> bool" where
  "is_const (Const t) = True"
| "is_const _ = False"

fun is_lvalue :: "cpp_type \<Rightarrow> bool" where
  "is_lvalue (LRef t) = True"
| "is_lvalue _ = False"

text \<open>\<open>std::decay_t\<close>.\<close>

definition decay :: "cpp_type \<Rightarrow> cpp_type" where
  "decay t =
     (case remove_reference t of
        Array u n \<Rightarrow> Pointer u
      | Function r ps Unqualified ne \<Rightarrow> Pointer (Function r ps Unqualified ne)
      | u \<Rightarrow> remove_cv u)"

text \<open>The type of a call expression: a prvalue of a non-class type has no \<open>const\<close>.\<close>

fun call_type :: "cpp_type \<Rightarrow> cpp_type" where
  "call_type (Const (Class c)) = Const (Class c)"
| "call_type (Const t) = t"
| "call_type t = t"

subsection \<open>Classes and programs\<close>

record signature =
  sig_return :: cpp_type
  sig_params :: "cpp_type list"
  sig_qualifier :: qualifier
  sig_noexcept :: bool

text \<open>
  A class: the call operators it declares and whether one of them is a template; the result of
  a call on a (const) object when there is an overload set or a template to resolve; the result
  of calling a named member function on a (const) object; and whether it can be copied.
\<close>

record class_decl =
  call_operators :: "signature list"
  call_template :: bool
  call_result :: "bool \<Rightarrow> cpp_type list \<Rightarrow> cpp_type option"
  member_result :: "bool \<Rightarrow> string \<Rightarrow> cpp_type list \<Rightarrow> cpp_type option"
  copyable :: bool

text \<open>A program: its classes, the implicit conversions between distinct object types, and the
  class comparisons \<open>declval<L>() == declval<R>()\<close> that are well-formed.\<close>

record program =
  classes :: "string \<Rightarrow> class_decl"
  converts :: "cpp_type \<Rightarrow> cpp_type \<Rightarrow> bool"
  class_equal :: "cpp_type \<Rightarrow> cpp_type \<Rightarrow> bool"

subsection \<open>Calls\<close>

text \<open>Whether an argument of a type initialises a parameter.\<close>

definition copy_ok :: "program \<Rightarrow> cpp_type \<Rightarrow> bool" where
  "copy_ok P a =
     (case decay a of
        Class c \<Rightarrow> (is_lvalue a \<or> is_const (remove_reference a)) \<longrightarrow> copyable (classes P c)
      | _ \<Rightarrow> True)"

fun binds :: "program \<Rightarrow> cpp_type \<Rightarrow> cpp_type \<Rightarrow> bool" where
  "binds P (LRef p) a \<longleftrightarrow>
     is_lvalue a \<and> p \<in> {remove_reference a, Const (remove_reference a)}
     \<or> is_const p \<and> (remove_cv p = remove_cv (remove_reference a) \<or> converts P (remove_reference a) (remove_cv p))"
| "binds P (RRef p) a \<longleftrightarrow>
     \<not> is_lvalue a \<and> p \<in> {remove_reference a, Const (remove_reference a)}
     \<or> remove_cv p \<noteq> remove_cv (remove_reference a) \<and> converts P (remove_reference a) (remove_cv p)"
| "binds P p a \<longleftrightarrow>
     decay a = remove_cv p \<and> copy_ok P a \<or> converts P (decay a) (remove_cv p)"

abbreviation accepts :: "program \<Rightarrow> cpp_type list \<Rightarrow> cpp_type list \<Rightarrow> bool" where
  "accepts P ps as \<equiv> list_all2 (binds P) ps as"

text \<open>Whether an unoverloaded call operator can be called on a (const) object.\<close>

definition simple_operator :: "class_decl \<Rightarrow> signature option" where
  "simple_operator d =
     (case call_operators d of
        [f] \<Rightarrow> if call_template d then None else Some f
      | _ \<Rightarrow> None)"

definition class_call :: "program \<Rightarrow> string \<Rightarrow> bool \<Rightarrow> cpp_type list \<Rightarrow> cpp_type option" where
  "class_call P c on_const args =
     (case simple_operator (classes P c) of
        Some f \<Rightarrow>
          (case sig_qualifier f of
             OtherQualified \<Rightarrow> call_result (classes P c) on_const args
           | q \<Rightarrow> if (on_const \<longrightarrow> q = ConstQualified) \<and> accepts P (sig_params f) args
                 then Some (call_type (sig_return f)) else None)
      | None \<Rightarrow> call_result (classes P c) on_const args)"

text \<open>\<open>std::invoke_result\<close> of a callable and arguments. A pointer to a member function takes the
  object as its first argument.\<close>

definition invoke_result :: "program \<Rightarrow> cpp_type \<Rightarrow> cpp_type list \<Rightarrow> cpp_type option" where
  "invoke_result P f args =
     (let u = remove_reference f
      in case remove_cv u of
           Class c \<Rightarrow> class_call P c (is_const u) args
         | Pointer (Function r ps Unqualified ne) \<Rightarrow>
             if accepts P ps args then Some (call_type r) else None
         | Function r ps Unqualified ne \<Rightarrow> if accepts P ps args then Some (call_type r) else None
         | MemberFunction c r ps q ne \<Rightarrow>
             (case args of
                [] \<Rightarrow> None
              | obj # rest \<Rightarrow>
                  if q \<noteq> OtherQualified
                    \<and> remove_reference obj \<in> {Class c, Pointer (Class c)} \<union>
                        (if q = ConstQualified then {Const (Class c), Pointer (Const (Class c))} else {})
                    \<and> accepts P ps rest
                  then Some (call_type r) else None)
         | _ \<Rightarrow> None)"

definition is_invocable :: "program \<Rightarrow> cpp_type \<Rightarrow> cpp_type list \<Rightarrow> bool" where
  "is_invocable P f args \<longleftrightarrow> invoke_result P f args \<noteq> None"

subsection \<open>Callables\<close>

text \<open>\<open>details::invocable_impl\<close> and its three specialisations; for any other type it is an
  incomplete type. None of them matches a \<open>noexcept\<close> function type.\<close>

record callable =
  return_type :: cpp_type
  args_as_tuple :: "cpp_type list"

definition callable_of :: "cpp_type \<Rightarrow> cpp_type list \<Rightarrow> callable" where
  "callable_of r args = \<lparr>return_type = r, args_as_tuple = map decay args\<rparr>"

fun invocable_impl :: "cpp_type \<Rightarrow> callable option" where
  "invocable_impl (Pointer (Function r args Unqualified False)) = Some (callable_of r args)"
| "invocable_impl (MemberFunction f r args Unqualified False) = Some (callable_of r args)"
| "invocable_impl (MemberFunction f r args ConstQualified False) = Some (callable_of r args)"
| "invocable_impl _ = None"

text \<open>\<open>invocable_impl::size\<close> and \<open>invocable_impl::arg<Index>::type\<close>.\<close>

definition callable_size :: "callable \<Rightarrow> nat" where
  "callable_size t = length (args_as_tuple t)"

definition callable_arg :: "callable \<Rightarrow> nat \<Rightarrow> cpp_type option" where
  "callable_arg t index =
     (if index < length (args_as_tuple t) then Some (decay (args_as_tuple t ! index)) else None)"

text \<open>\<open>decltype(&Invocable::operator())\<close>: not well-formed for an overload set or a template.\<close>

definition call_operator_type :: "program \<Rightarrow> cpp_type \<Rightarrow> cpp_type option" where
  "call_operator_type P t =
     (case remove_cv t of
        Class c \<Rightarrow>
          map_option (\<lambda>f. MemberFunction c (sig_return f) (sig_params f) (sig_qualifier f) (sig_noexcept f))
            (simple_operator (classes P c))
      | _ \<Rightarrow> None)"

definition invocable_traits :: "program \<Rightarrow> cpp_type \<Rightarrow> callable option" where
  "invocable_traits P t =
     (case call_operator_type P t of Some m \<Rightarrow> invocable_impl m | None \<Rightarrow> invocable_impl t)"

subsection \<open>Detection of member functions and comparisons\<close>

text \<open>\<open>declval<T>().name(declval<Args>()...)\<close>.\<close>

definition member_call :: "program \<Rightarrow> cpp_type \<Rightarrow> string \<Rightarrow> cpp_type list \<Rightarrow> cpp_type option" where
  "member_call P t name args =
     (case remove_cv (remove_reference t) of
        Class c \<Rightarrow> member_result (classes P c) (is_const (remove_reference t)) name args
      | _ \<Rightarrow> None)"

definition task_function :: cpp_type where
  "task_function = Class ''std::function<void(void)>''"

definition is_output_scheduler :: "program \<Rightarrow> cpp_type \<Rightarrow> bool" where
  "is_output_scheduler P s \<longleftrightarrow> member_call P s ''schedule'' [task_function] \<noteq> None"

definition is_input_scheduler :: "program \<Rightarrow> cpp_type \<Rightarrow> bool" where
  "is_input_scheduler P s \<longleftrightarrow> member_call P s ''scheduled'' [] \<noteq> None"

definition has_scheduler_adapter :: "program \<Rightarrow> cpp_type \<Rightarrow> bool" where
  "has_scheduler_adapter P s \<longleftrightarrow> member_call P s ''get_adapter'' [] \<noteq> None"

definition has_future :: "program \<Rightarrow> cpp_type \<Rightarrow> bool" where
  "has_future P t \<longleftrightarrow> member_call P t ''get_future'' [] \<noteq> None"

text \<open>\<open>core::has_equal\<close>: the built-in comparisons, and those of the program's classes.\<close>

definition has_equal :: "program \<Rightarrow> cpp_type \<Rightarrow> cpp_type \<Rightarrow> bool" where
  "has_equal P l r =
     (case (decay l, decay r) of
        (Class c, _) \<Rightarrow> class_equal P l r
      | (_, Class c) \<Rightarrow> class_equal P l r
      | (Arith a, Arith b) \<Rightarrow> True
      | (Enum a, Enum b) \<Rightarrow> a = b
      | (Nullptr, Nullptr) \<Rightarrow> True
      | (Pointer a, Nullptr) \<Rightarrow> True
      | (Nullptr, Pointer a) \<Rightarrow> True
      | (MemberFunction c a ps q ne, Nullptr) \<Rightarrow> True
      | (Nullptr, MemberFunction c a ps q ne) \<Rightarrow> True
      | (Pointer a, Pointer b) \<Rightarrow> remove_cv a = remove_cv b \<or> remove_cv a = Void \<or> remove_cv b = Void
      | (t, u) \<Rightarrow> t = u \<and> t \<noteq> Void)"

definition is_nullable :: "program \<Rightarrow> cpp_type \<Rightarrow> bool" where
  "is_nullable P t \<longleftrightarrow> has_equal P t Nullptr"

subsection \<open>Decayed types\<close>

text \<open>Types that C++ allows: no references to references, no \<open>const\<close> reference or function type,
  and arrays with \<open>const\<close> elements rather than \<open>const\<close> arrays.\<close>

fun is_reference :: "cpp_type \<Rightarrow> bool" where
  "is_reference (LRef t) = True"
| "is_reference (RRef t) = True"
| "is_reference _ = False"

fun takes_const :: "cpp_type \<Rightarrow> bool" where
  "takes_const (Const t) = False"
| "takes_const (LRef t) = False"
| "takes_const (RRef t) = False"
| "takes_const (Array t n) = False"
| "takes_const (Function r ps q ne) = False"
| "takes_const _ = True"

fun wf_type :: "cpp_type \<Rightarrow> bool" where
  "wf_type (Const t) \<longleftrightarrow> takes_const t \<and> wf_type t"
| "wf_type (LRef t) \<longleftrightarrow> \<not> is_reference t \<and> t \<noteq> Void \<and> wf_type t"
| "wf_type (RRef t) \<longleftrightarrow> \<not> is_reference t \<and> t \<noteq> Void \<and> wf_type t"
| "wf_type (Pointer t) \<longleftrightarrow> \<not> is_reference t \<and> wf_type t"
| "wf_type (Array t n) \<longleftrightarrow> \<not> is_reference t \<and> t \<noteq> Void \<and> wf_type t"
| "wf_type (Function r ps q ne) \<longleftrightarrow> wf_type r \<and> list_all wf_type ps"
| "wf_type (MemberFunction c r ps q ne) \<longleftrightarrow> wf_type r \<and> list_all wf_type ps"
| "wf_type _ \<longleftrightarrow> True"

text \<open>A decayed type is an object type without \<open>const\<close>; decaying it again, as \<open>arg<Index>\<close> does,
  changes nothing.\<close>

lemma takes_constD:
  "takes_const t \<Longrightarrow> remove_cv t = t \<and> \<not> is_reference t \<and> \<not> is_const t
     \<and> (\<forall>u n. t \<noteq> Array u n) \<and> (\<forall>r ps q ne. t \<noteq> Function r ps q ne)"
  by (cases t) auto

lemma decay_object:
  assumes "wf_type t"
  shows "\<not> is_reference (decay t) \<and> \<not> is_const (decay t) \<and> (\<forall>u n. decay t \<noteq> Array u n)
    \<and> (\<forall>r ps ne. decay t \<noteq> Function r ps Unqualified ne)"
proof -
  have "wf_type (remove_reference t) \<and> \<not> is_reference (remove_reference t)"
    using assms by (cases t) auto
  then show ?thesis
    unfolding decay_def by (cases "remove_reference t") (auto dest: takes_constD split: qualifier.splits)
qed

lemma decay_decay: "wf_type t \<Longrightarrow> decay (decay t) = decay t"
  using decay_object [of t] by (cases "decay t") (auto simp: decay_def split: qualifier.splits)

lemma callable_arg_eq:
  assumes "list_all wf_type ps" and "i < length ps"
  shows "callable_arg (callable_of r ps) i = Some (decay (ps ! i))"
  using assms by (simp add: callable_arg_def callable_of_def decay_decay list_all_length)

end
