(* ===== verification/PipelineTypes.thy ===== *)
theory PipelineTypes
  imports TypeTraits
begin

section \<open>Which pipelines compile\<close>

text \<open>
  The static side of senders, receivers, the scheduler and the pool: which instances of the
  templates are well-formed and which types they compute. The nesting is that of the sources.
  \<open>then\<close> wraps the sender; \<open>connect\<close> turns the nest of senders inside out into a nest of receiver
  adapters around the receiver; and whether a stage accepts the value of the stage before is
  found only when \<open>complete\<close> of the innermost adapter is instantiated. The properties say what
  this amounts to, read from the first function to the last.
\<close>

subsection \<open>Receivers\<close>

datatype receiver_type =
    CallbackReceiver cpp_type cpp_type cpp_type cpp_type   \<comment> \<open>value and handlers\<close>
  | ValueReceiver cpp_type
  | ReceiverAdapter receiver_type cpp_type

text \<open>\<open>future_result<Value>(value)\<close> through one of its two constructors.\<close>

definition add_const :: "cpp_type \<Rightarrow> cpp_type" where
  "add_const t = (if is_const t then t else Const t)"

definition result_constructible :: "program \<Rightarrow> cpp_type \<Rightarrow> cpp_type \<Rightarrow> bool" where
  "result_constructible P v a \<longleftrightarrow> binds P (RRef v) a \<or> binds P (LRef (add_const v)) a"

text \<open>Whether \<open>r.complete(args...)\<close> and all that it instantiates is well-formed.\<close>

fun completes :: "program \<Rightarrow> receiver_type \<Rightarrow> cpp_type list \<Rightarrow> bool" where
  "completes P (CallbackReceiver v c e x) args \<longleftrightarrow>
     (case args of
        [] \<Rightarrow> v = Void \<and> is_invocable P c []
      | [a] \<Rightarrow> is_invocable P c [remove_reference a]
      | _ \<Rightarrow> False)"
| "completes P (ValueReceiver v) args \<longleftrightarrow>
     (case args of
        [] \<Rightarrow> v = Void
      | [a] \<Rightarrow> v \<noteq> Void \<and> result_constructible P v a
      | _ \<Rightarrow> False)"
| "completes P (ReceiverAdapter r f) args \<longleftrightarrow>
     (case invoke_result P f args of
        None \<Rightarrow> False
      | Some t \<Rightarrow> if t = Void then completes P r [] else completes P r [t])"

text \<open>\<open>has_future\<close> of a receiver: \<open>get_future\<close> of the adapter is enabled by that of the inner one.\<close>

fun receiver_has_future :: "receiver_type \<Rightarrow> bool" where
  "receiver_has_future (CallbackReceiver v c e x) = False"
| "receiver_has_future (ValueReceiver v) = True"
| "receiver_has_future (ReceiverAdapter r f) = receiver_has_future r"

definition type_copyable :: "program \<Rightarrow> cpp_type \<Rightarrow> bool" where
  "type_copyable P t = (case remove_cv t of Class c \<Rightarrow> copyable (classes P c) | _ \<Rightarrow> True)"

text \<open>The callback receiver declares a move constructor only, the value receiver a copy constructor.\<close>

fun receiver_copyable :: "program \<Rightarrow> receiver_type \<Rightarrow> bool" where
  "receiver_copyable P (CallbackReceiver v c e x) = False"
| "receiver_copyable P (ValueReceiver v) = True"
| "receiver_copyable P (ReceiverAdapter r f) = (receiver_copyable P r \<and> type_copyable P f)"

text \<open>The constructor of \<open>callback_receiver\<close>: its static assertions, and the initialisation of a
  handler member, possibly a reference, with an rvalue.\<close>

definition exception_ptr :: cpp_type where
  "exception_ptr = Class ''std::exception_ptr''"

definition handler_member_ok :: "cpp_type \<Rightarrow> bool" where
  "handler_member_ok h =
     (case h of
        LRef (Const t) \<Rightarrow> True
      | LRef (Function r ps q ne) \<Rightarrow> True
      | LRef t \<Rightarrow> False
      | _ \<Rightarrow> True)"

definition callback_receiver_type ::
  "program \<Rightarrow> cpp_type \<Rightarrow> cpp_type \<Rightarrow> cpp_type \<Rightarrow> cpp_type \<Rightarrow> receiver_type option" where
  "callback_receiver_type P v c e x =
     (if is_invocable P e [exception_ptr] \<and> is_invocable P x []
       \<and> handler_member_ok c \<and> handler_member_ok e \<and> handler_member_ok x
      then Some (CallbackReceiver v c e x) else None)"

text \<open>\<open>make_callback_receiver\<close>: three overloads, chosen by the number of arguments of the complete
  handler; the one for more than one argument fails a static assertion.\<close>

definition make_callback_receiver_type ::
  "program \<Rightarrow> cpp_type \<Rightarrow> cpp_type \<Rightarrow> cpp_type \<Rightarrow> receiver_type option" where
  "make_callback_receiver_type P c e x =
     (case invocable_traits P (decay c) of
        None \<Rightarrow> None
      | Some t \<Rightarrow>
          if callable_size t > 1 then None
          else if callable_size t = 1 then
            (case callable_arg t 0 of
               None \<Rightarrow> None
             | Some v \<Rightarrow> if is_invocable P c [v] then callback_receiver_type P v c e x else None)
          else if is_invocable P (decay c) [] then callback_receiver_type P Void c e x
          else None)"

subsection \<open>Schedulers\<close>

text \<open>The member functions of \<open>rr_scheduler\<close> and of its adapter. None of them is \<open>const\<close>.\<close>

definition adapter_type :: cpp_type where
  "adapter_type = Class ''rr_scheduler::adapter''"

definition rr_scheduler_member :: "(cpp_type \<Rightarrow> cpp_type \<Rightarrow> bool) \<Rightarrow> bool \<Rightarrow> string \<Rightarrow> cpp_type list \<Rightarrow> cpp_type option" where
  "rr_scheduler_member bind on_const name args =
     (if on_const then None
      else if name = ''scheduled'' \<and> args = [] then Some (Class ''std::optional<task_type>'')
      else if name = ''schedule'' \<and> length args = 1 \<and> bind (RRef task_function) (hd args) then Some Void
      else if name = ''clear'' \<and> args = [] then Some Void
      else if name = ''get_adapter'' \<and> args = [] then Some adapter_type
      else None)"

definition adapter_member :: "bool \<Rightarrow> string \<Rightarrow> cpp_type list \<Rightarrow> cpp_type option" where
  "adapter_member on_const name args =
     (if \<not> on_const \<and> name = ''schedule'' \<and> args \<noteq> [] then Some Void else None)"

definition rr_scheduler_type :: cpp_type where
  "rr_scheduler_type = Class ''rr_scheduler''"

text \<open>Both classes as part of a program. The scheduler holds mutexes and cannot be copied, the
  adapter holds a pointer.\<close>

definition with_scheduler :: "program \<Rightarrow> program" where
  "with_scheduler P =
     P\<lparr>classes := (classes P)
         (''rr_scheduler'' :=
            \<lparr>call_operators = [], call_template = False, call_result = (\<lambda>_ _. None),
             member_result = rr_scheduler_member (binds P), copyable = False\<rparr>,
          ''rr_scheduler::adapter'' :=
            \<lparr>call_operators = [], call_template = False, call_result = (\<lambda>_ _. None),
             member_result = adapter_member, copyable = True\<rparr>)\<rparr>"

text \<open>\<open>thread_pool<Scheduler>\<close>: the static assertion of the constructor, and the type
  \<open>get_scheduler\<close> returns.\<close>

definition thread_pool_type_ok :: "program \<Rightarrow> cpp_type \<Rightarrow> bool" where
  "thread_pool_type_ok P scheduler \<longleftrightarrow> is_input_scheduler P scheduler"

definition get_scheduler_type :: "program \<Rightarrow> cpp_type \<Rightarrow> cpp_type option" where
  "get_scheduler_type P scheduler =
     (if has_scheduler_adapter P scheduler then member_call P (LRef scheduler) ''get_adapter'' []
      else if copy_ok P (LRef scheduler) then Some scheduler else None)"

subsection \<open>Senders\<close>

datatype sender_type = ScheduleSender cpp_type | SenderAdapter sender_type cpp_type

text \<open>\<open>schedule(scheduler)\<close>.\<close>

definition schedule_type :: "program \<Rightarrow> cpp_type \<Rightarrow> sender_type option" where
  "schedule_type P scheduler =
     (if is_output_scheduler P scheduler then Some (ScheduleSender scheduler) else None)"

text \<open>\<open>Sender::result_type\<close>; \<open>schedule_sender\<close> has none.\<close>

fun result_type :: "program \<Rightarrow> sender_type \<Rightarrow> cpp_type option" where
  "result_type P (ScheduleSender scheduler) = None"
| "result_type P (SenderAdapter s f) =
     (case invocable_traits P f of
        None \<Rightarrow> None
      | Some t \<Rightarrow> invoke_result P f (args_as_tuple t))"

text \<open>\<open>then(sender, invocable)\<close>. The constructor of \<open>sender_adapter\<close>, from which its template
  arguments are deduced, takes rvalues only.\<close>

definition then_type :: "program \<Rightarrow> bool \<Rightarrow> sender_type \<Rightarrow> cpp_type \<Rightarrow> sender_type option" where
  "then_type P sender_is_lvalue s f =
     (if sender_is_lvalue \<or> is_lvalue f \<or> result_type P (SenderAdapter s f) = None then None
      else Some (SenderAdapter s f))"

text \<open>Whether \<open>s.connect(r)\<close> and \<open>start\<close> of its result are well-formed. The task is a lambda that
  holds the receiver and the scheduler; \<open>accepts_closure scheduler c\<close> says whether \<open>schedule\<close> of
  the scheduler can be instantiated for a closure which can (\<open>c\<close>) or cannot be copied.\<close>

fun connects ::
  "program \<Rightarrow> (cpp_type \<Rightarrow> bool \<Rightarrow> bool) \<Rightarrow> sender_type \<Rightarrow> receiver_type \<Rightarrow> bool" where
  "connects P accepts_closure (ScheduleSender scheduler) r \<longleftrightarrow>
     completes P r [] \<and> accepts_closure scheduler (receiver_copyable P r \<and> type_copyable P scheduler)"
| "connects P accepts_closure (SenderAdapter s f) r \<longleftrightarrow>
     connects P accepts_closure s (ReceiverAdapter r f)"

text \<open>\<open>rr_scheduler::adapter::schedule\<close> converts its closure to a \<open>std::function\<close>, which needs a
  copyable one.\<close>

definition adapter_accepts :: "cpp_type \<Rightarrow> bool \<Rightarrow> bool" where
  "adapter_accepts scheduler can_copy \<longleftrightarrow> scheduler = adapter_type \<and> can_copy"

text \<open>\<open>promise<Value>\<close>, \<open>future<Value>\<close> and \<open>future_result<Value>\<close> with its \<open>std::optional<Value>\<close>: a
  value of an object type, or none.\<close>

fun future_value_ok :: "cpp_type \<Rightarrow> bool" where
  "future_value_ok (LRef t) = False"
| "future_value_ok (RRef t) = False"
| "future_value_ok (Array t n) = False"
| "future_value_ok (Function r ps q ne) = False"
| "future_value_ok t = (t \<noteq> Const Void)"

text \<open>\<open>wait(sender)\<close>: the type of the value of the future it returns; \<open>start(sender)\<close> asks the same.\<close>

definition wait_type ::
  "program \<Rightarrow> (cpp_type \<Rightarrow> bool \<Rightarrow> bool) \<Rightarrow> bool \<Rightarrow> sender_type \<Rightarrow> cpp_type option" where
  "wait_type P accepts_closure sender_is_lvalue s =
     (if sender_is_lvalue then None
      else (case result_type P s of
              None \<Rightarrow> None
            | Some v \<Rightarrow>
                if future_value_ok v \<and> connects P accepts_closure s (ValueReceiver v) then Some v else None))"

subsection \<open>Pipelines, read from the front\<close>

text \<open>\<open>then(then(schedule(scheduler), f1), f2)\<close> and so on, with rvalues for the senders.\<close>

definition pipeline_type :: "program \<Rightarrow> cpp_type \<Rightarrow> cpp_type list \<Rightarrow> sender_type option" where
  "pipeline_type P scheduler fs =
     foldl (\<lambda>s f. Option.bind s (\<lambda>s. then_type P False s f)) (schedule_type P scheduler) fs"

text \<open>What a stage hands to the next one: its value, or nothing.\<close>

definition handed_on :: "cpp_type \<Rightarrow> cpp_type list" where
  "handed_on t = (if t = Void then [] else [t])"

fun stages_type :: "program \<Rightarrow> cpp_type list \<Rightarrow> cpp_type list \<Rightarrow> cpp_type list option" where
  "stages_type P args [] = Some args"
| "stages_type P args (f # fs) =
     (case invoke_result P f args of
        None \<Rightarrow> None
      | Some t \<Rightarrow> stages_type P (handed_on t) fs)"

text \<open>A function that \<open>then\<close> takes: an rvalue whose traits are known and which can be called with
  the decayed types of its own parameters.\<close>

definition usable :: "program \<Rightarrow> cpp_type \<Rightarrow> bool" where
  "usable P f \<longleftrightarrow> \<not> is_lvalue f \<and>
     (case invocable_traits P f of None \<Rightarrow> False | Some t \<Rightarrow> is_invocable P f (args_as_tuple t))"

subsection \<open>Traits and calls\<close>

lemma invocable_impl_Some:
  "invocable_impl t = Some tr \<longleftrightarrow>
     (\<exists>r ps. tr = callable_of r ps \<and>
        (t = Pointer (Function r ps Unqualified False)
         \<or> (\<exists>c q. t = MemberFunction c r ps q False \<and> q \<noteq> OtherQualified)))"
  by (cases t rule: invocable_impl.cases) auto

text \<open>What the traits of a callable say about calls of it: there is one list of parameters and one
  return type.\<close>

lemma traits_cases:
  assumes "invocable_traits P f = Some tr"
  obtains (call_object) c g where "remove_cv f = Class c" "simple_operator (classes P c) = Some g"
      "sig_qualifier g \<noteq> OtherQualified" "tr = callable_of (sig_return g) (sig_params g)"
    | (pointer) r ps where "f = Pointer (Function r ps Unqualified False)" "tr = callable_of r ps"
    | (member) c r ps q where "f = MemberFunction c r ps q False" "tr = callable_of r ps"
proof (cases "call_operator_type P f")
  case None
  with assms have "invocable_impl f = Some tr" by (simp add: invocable_traits_def)
  then show ?thesis by (auto simp: invocable_impl_Some intro: pointer member)
next
  case (Some m)
  with assms have "invocable_impl m = Some tr" by (simp add: invocable_traits_def)
  with Some show ?thesis
    by (auto simp: invocable_impl_Some call_operator_type_def split: cpp_type.splits intro: call_object)
qed

lemma remove_cv_Class: "remove_cv f = Class c \<Longrightarrow> remove_reference f = f"
  by (cases f) auto

lemmas invoke_defs = invoke_result_def Let_def remove_cv_Class class_call_def callable_of_def callable_size_def

lemma traits_invoke_type:
  assumes "invocable_traits P f = Some tr" and "invoke_result P f args = Some t"
  shows "t = call_type (return_type tr)"
  using assms(1)
proof (cases rule: traits_cases)
  case (call_object c g)
  with assms(2) show ?thesis by (auto simp: invoke_defs split: qualifier.splits if_splits)
qed (use assms(2) in \<open>auto simp: invoke_defs split: if_splits list.splits\<close>)

lemma usableE:
  assumes "usable P f"
  obtains tr where "invocable_traits P f = Some tr" "\<not> is_lvalue f" "is_invocable P f (args_as_tuple tr)"
  using assms by (auto simp: usable_def split: option.splits)

text \<open>A pointer to a member function is never usable, as the object would be one argument more.\<close>

lemma usable_arity:
  assumes "usable P f" and tr: "invocable_traits P f = Some tr" and "invoke_result P f args = Some t"
  shows "length args = callable_size tr"
  using tr
proof (cases rule: traits_cases)
  case (call_object c g)
  with assms(3) show ?thesis
    by (auto simp: invoke_defs split: qualifier.splits if_splits dest: list_all2_lengthD)
next
  case (pointer r ps)
  with assms(3) show ?thesis by (auto simp: invoke_defs split: if_splits dest: list_all2_lengthD)
next
  case (member c r ps q)
  from assms(1) tr have "invoke_result P f (args_as_tuple tr) \<noteq> None"
    by (auto simp: is_invocable_def elim: usableE)
  with member show ?thesis
    by (auto simp: invoke_defs split: if_splits list.splits dest!: list_all2_lengthD)
qed

text \<open>None of the specialisations of \<open>invocable_impl\<close> matches a \<open>noexcept\<close> function type, so \<open>then\<close> takes
  neither an object with a \<open>noexcept\<close> call operator nor a pointer to a \<open>noexcept\<close> function.\<close>

theorem noexcept_functions_refused:
  "simple_operator (classes P c) = Some g \<Longrightarrow> sig_noexcept g \<Longrightarrow> \<not> usable P (Class c)"
  "\<not> usable P (Pointer (Function r ps q True))"
  by (auto simp: usable_def invocable_traits_def call_operator_type_def invocable_impl_Some split: option.splits)

lemma result_type_usable:
  "\<not> is_lvalue f \<Longrightarrow> result_type P (SenderAdapter s f) \<noteq> None \<longleftrightarrow> usable P f"
  by (auto simp: usable_def is_invocable_def split: option.splits)

lemma then_type_eq:
  "then_type P False s f = (if usable P f then Some (SenderAdapter s f) else None)"
  using result_type_usable [of f P s] by (auto simp: then_type_def usable_def)

lemma result_type_value:
  "usable P f \<Longrightarrow> invocable_traits P f = Some tr \<Longrightarrow>
     result_type P (SenderAdapter s f) = Some (call_type (return_type tr))"
  using traits_invoke_type [of P f tr] by (auto simp: is_invocable_def elim!: usableE)

subsection \<open>Turning the nest inside out\<close>

definition adapters :: "cpp_type list \<Rightarrow> receiver_type \<Rightarrow> receiver_type" where
  "adapters fs r = foldr (\<lambda>f r. ReceiverAdapter r f) fs r"

lemma connects_adapters:
  "connects P acc (foldl SenderAdapter s fs) r \<longleftrightarrow> connects P acc s (adapters fs r)"
  by (induction fs arbitrary: s) (simp_all add: adapters_def)

lemma completes_adapters:
  "completes P (adapters fs r) args \<longleftrightarrow>
     (case stages_type P args fs of None \<Rightarrow> False | Some args' \<Rightarrow> completes P r args')"
  by (induction fs arbitrary: args)
     (auto simp: adapters_def handed_on_def split: option.splits)

lemma adapters_copyable:
  "receiver_copyable P (adapters fs r) \<longleftrightarrow> receiver_copyable P r \<and> (\<forall>f \<in> set fs. type_copyable P f)"
  by (induction fs) (auto simp: adapters_def)

lemma bind_foldl_None [simp]: "foldl (\<lambda>s f. Option.bind s (g f)) None fs = None"
  by (induction fs) simp_all

lemma pipeline_foldl:
  "foldl (\<lambda>s f. Option.bind s (\<lambda>s. then_type P False s f)) (Some s) fs =
     (if \<forall>f \<in> set fs. usable P f then Some (foldl SenderAdapter s fs) else None)"
  by (induction fs arbitrary: s) (auto simp: then_type_eq)

lemma pipeline_type_eq:
  "pipeline_type P scheduler fs =
     (if is_output_scheduler P scheduler \<and> (\<forall>f \<in> set fs. usable P f)
      then Some (foldl SenderAdapter (ScheduleSender scheduler) fs) else None)"
  by (simp add: pipeline_type_def schedule_type_def pipeline_foldl)

lemma stages_type_append:
  "stages_type P args (fs @ gs) = Option.bind (stages_type P args fs) (\<lambda>args'. stages_type P args' gs)"
  by (induction fs arbitrary: args) (auto split: option.splits)

text \<open>The value that arrives at the end is the \<open>result_type\<close> of the last sender.\<close>

lemma stages_type_last:
  assumes "usable P f" and "result_type P (SenderAdapter s f) = Some v"
    and "stages_type P args (fs @ [f]) = Some args'"
  shows "args' = handed_on v"
proof -
  from assms(1) obtain tr where tr: "invocable_traits P f = Some tr" by (rule usableE)
  from assms(3) obtain as t where "invoke_result P f as = Some t" "args' = handed_on t"
    by (auto simp: stages_type_append split: option.splits bind_splits)
  with assms(2) tr show ?thesis
    by (auto dest: traits_invoke_type [OF tr])
qed

lemma value_receiver_handed_on:
  "future_value_ok v \<Longrightarrow> completes P (ValueReceiver v) (handed_on v)"
  by (cases v) (auto simp: handed_on_def result_constructible_def)

lemma handed_on_inject [simp]: "handed_on v = handed_on w \<longleftrightarrow> v = w"
  by (simp add: handed_on_def)

lemma wait_type_pipeline:
  assumes us: "\<forall>g \<in> set (fs @ [f]). usable P g"
  shows "wait_type P acc False (foldl SenderAdapter (ScheduleSender scheduler) (fs @ [f])) = Some v \<longleftrightarrow>
    future_value_ok v \<and> stages_type P [] (fs @ [f]) = Some (handed_on v)
    \<and> acc scheduler ((\<forall>g \<in> set (fs @ [f]). type_copyable P g) \<and> type_copyable P scheduler)"
    (is "wait_type P acc False ?s = _ \<longleftrightarrow> _")
proof -
  let ?inner = "foldl SenderAdapter (ScheduleSender scheduler) fs"
  from us obtain tr where tr: "invocable_traits P f = Some tr" by (auto elim: usableE)
  let ?v = "call_type (return_type tr)"
  have res: "result_type P (SenderAdapter ?inner f) = Some ?v"
    using us tr by (intro result_type_value) auto
  have arrives: "stages_type P [] (fs @ [f]) = Some args \<Longrightarrow> args = handed_on ?v" for args
    using us stages_type_last [OF _ res] by auto
  have "connects P acc ?s (ValueReceiver ?v) \<longleftrightarrow>
      (case stages_type P [] (fs @ [f]) of None \<Rightarrow> False | Some args \<Rightarrow> completes P (ValueReceiver ?v) args)
      \<and> acc scheduler ((\<forall>g \<in> set (fs @ [f]). type_copyable P g) \<and> type_copyable P scheduler)"
    by (simp only: connects_adapters connects.simps completes_adapters adapters_copyable receiver_copyable.simps simp_thms)
  then show ?thesis
    using res arrives value_receiver_handed_on [of ?v P]
    by (auto simp: wait_type_def simp del: completes.simps connects.simps result_type.simps
        split: option.splits if_splits)
qed

lemma wait_type_stages:
  assumes "pipeline_type P scheduler fs = Some s" and "wait_type P acc False s = Some v"
  shows "fs \<noteq> [] \<and> (\<forall>g \<in> set fs. usable P g) \<and> stages_type P [] fs = Some (handed_on v)"
proof -
  obtain gs f where fs: "fs = gs @ [f]"
    using assms by (cases fs rule: rev_cases) (auto simp: pipeline_type_eq wait_type_def split: if_splits)
  have us: "\<forall>g \<in> set fs. usable P g" and s: "s = foldl SenderAdapter (ScheduleSender scheduler) fs"
    using assms(1) by (auto simp: pipeline_type_eq split: if_splits)
  have "stages_type P [] fs = Some (handed_on v)"
    using wait_type_pipeline [of gs f P acc scheduler v] us assms(2) unfolding s fs by blast
  with us fs show ?thesis by blast
qed

lemma stages_type_arities:
  assumes "\<forall>f \<in> set fs. usable P f" and "stages_type P args fs = Some args'"
  shows "\<exists>trs. map (invocable_traits P) fs = map Some trs
    \<and> (\<forall>i < length trs. callable_size (trs ! i) =
          (if i = 0 then length args else length (handed_on (call_type (return_type (trs ! (i - 1)))))))
    \<and> args' = (if trs = [] then args else handed_on (call_type (return_type (last trs))))"
  using assms
proof (induction fs arbitrary: args)
  case (Cons f fs)
  from Cons.prems(2) obtain t where t: "invoke_result P f args = Some t" "stages_type P (handed_on t) fs = Some args'"
    by (auto split: option.splits)
  from Cons.prems(1) obtain tr where us: "usable P f" and tr: "invocable_traits P f = Some tr"
    by (auto elim: usableE)
  have "t = call_type (return_type tr)" by (rule traits_invoke_type [OF tr t(1)])
  moreover obtain trs where "map (invocable_traits P) fs = map Some trs"
      "\<forall>i < length trs. callable_size (trs ! i) =
        (if i = 0 then length (handed_on t) else length (handed_on (call_type (return_type (trs ! (i - 1))))))"
      "args' = (if trs = [] then handed_on t else handed_on (call_type (return_type (last trs))))"
    using Cons.IH [OF _ t(2)] Cons.prems(1) by auto
  moreover have "length args = callable_size tr" by (rule usable_arity [OF us tr t(1)])
  ultimately show ?case
    using tr by (intro exI [of _ "tr # trs"]) (auto simp: nth_Cons split: nat.splits)
qed simp

subsection \<open>Properties\<close>


text \<open>In a pipeline that compiles every function takes at most one argument: the first takes
  none, and each later one takes one argument, or none if the one before returns \<open>void\<close>; and the
  future has values of the type the last one returns.\<close>

theorem pipeline_arities:
  assumes "pipeline_type P scheduler fs = Some s" and "wait_type P accepts_closure False s = Some v"
  shows "\<exists>trs. map (invocable_traits P) fs = map Some trs \<and> trs \<noteq> []
    \<and> (\<forall>i < length trs. callable_size (trs ! i) =
          (if i = 0 \<or> call_type (return_type (trs ! (i - 1))) = Void then 0 else 1))
    \<and> v = call_type (return_type (last trs))"
proof -
  from wait_type_stages [OF assms] have us: "\<forall>g \<in> set fs. usable P g"
    and fs: "fs \<noteq> []" and stages: "stages_type P [] fs = Some (handed_on v)" by blast+
  from stages_type_arities [OF us stages] obtain trs where trs: "map (invocable_traits P) fs = map Some trs"
    "\<forall>i < length trs. callable_size (trs ! i) =
       (if i = 0 then length ([] :: cpp_type list) else length (handed_on (call_type (return_type (trs ! (i - 1))))))"
    "handed_on v = (if trs = [] then [] else handed_on (call_type (return_type (last trs))))"
    by (elim exE conjE)
  from trs(1) fs have ne: "trs \<noteq> []" by auto
  with trs(3) have "v = call_type (return_type (last trs))" by simp
  moreover from trs(2) have "\<forall>i < length trs. callable_size (trs ! i) =
      (if i = 0 \<or> call_type (return_type (trs ! (i - 1))) = Void then 0 else 1)"
    by (simp add: handed_on_def)
  ultimately show ?thesis using trs(1) ne by blast
qed

text \<open>The types of the pool. \<open>thread_pool<rr_scheduler>\<close> compiles and \<open>get_scheduler()\<close> gives the
  adapter, to which \<open>schedule\<close> applies and of which no pool can be made; and a callback receiver
  cannot be connected to any pipeline on it, as the task that holds the receiver cannot be
  copied into a \<open>std::function\<close>.\<close>

theorem pool_scheduler_types:
  "let Q = with_scheduler P
   in thread_pool_type_ok Q rr_scheduler_type \<and> get_scheduler_type Q rr_scheduler_type = Some adapter_type
    \<and> schedule_type Q adapter_type = Some (ScheduleSender adapter_type) \<and> \<not> thread_pool_type_ok Q adapter_type
    \<and> (\<nexists>s. pipeline_type Q adapter_type fs = Some s \<and> connects Q adapter_accepts s (CallbackReceiver v c e x))"
proof -
  let ?Q = "with_scheduler P"
  have "\<not> connects ?Q adapter_accepts (foldl SenderAdapter (ScheduleSender adapter_type) fs)
      (CallbackReceiver v c e x)"
    unfolding connects_adapters by (simp add: adapter_accepts_def adapters_copyable)
  then show ?thesis
    by (auto simp: Let_def thread_pool_type_ok_def get_scheduler_type_def is_input_scheduler_def
        has_scheduler_adapter_def schedule_type_def is_output_scheduler_def pipeline_type_eq
        member_call_def rr_scheduler_type_def adapter_type_def with_scheduler_def rr_scheduler_member_def
        adapter_member_def simp del: connects.simps split: if_splits)
qed

subsection \<open>An example\<close>

text \<open>A program with the functions \<open>[]() { return 256; }\<close> and \<open>[](int const&) { return std::string{...}; }\<close>.\<close>

definition lambda_decl :: "cpp_type \<Rightarrow> cpp_type list \<Rightarrow> class_decl" where
  "lambda_decl r ps =
     \<lparr>call_operators = [\<lparr>sig_return = r, sig_params = ps, sig_qualifier = ConstQualified, sig_noexcept = False\<rparr>],
      call_template = False, call_result = (\<lambda>_ _. None), member_result = (\<lambda>_ _ _. None), copyable = True\<rparr>"

definition example_program :: program where
  "example_program = with_scheduler
     \<lparr>classes = (\<lambda>c. if c = ''f'' then lambda_decl (Arith ''int'') []
                    else lambda_decl (Class ''std::string'') [LRef (Const (Arith ''int''))]),
      converts = (\<lambda>_ _. False), class_equal = (\<lambda>_ _. False)\<rparr>"

lemmas example_simps =
  example_program_def with_scheduler_def lambda_decl_def usable_def invocable_traits_def call_operator_type_def
  simple_operator_def callable_of_def is_invocable_def invoke_result_def class_call_def decay_def handed_on_def
  adapter_type_def

lemma example_facts:
  "\<forall>f \<in> set [Class ''f'', Class ''g'']. usable example_program f"
  "stages_type example_program [] [Class ''f'', Class ''g''] = Some (handed_on (Class ''std::string''))"
  "\<forall>f \<in> set [Class ''f'', Class ''g'']. type_copyable example_program f"
  "is_output_scheduler example_program adapter_type"
  "type_copyable example_program adapter_type"
  by (simp_all add: example_simps type_copyable_def is_output_scheduler_def member_call_def adapter_member_def
      task_function_def)

lemma example_wait:
  "pipeline_type example_program adapter_type [Class ''f'', Class ''g''] =
     Some (SenderAdapter (SenderAdapter (ScheduleSender adapter_type) (Class ''f'')) (Class ''g''))"
  "wait_type example_program adapter_accepts False
     (SenderAdapter (SenderAdapter (ScheduleSender adapter_type) (Class ''f'')) (Class ''g'')) =
       Some (Class ''std::string'')"
  using example_facts wait_type_pipeline [of "[Class ''f'']" "Class ''g''" example_program adapter_accepts adapter_type]
  by (simp_all add: pipeline_type_eq adapter_accepts_def)


theorem pipeline_arities_witness:
  "\<exists>trs. map (invocable_traits example_program) [Class ''f'', Class ''g''] = map Some trs
     \<and> callable_size (trs ! 1) = 1 \<and> call_type (return_type (last trs)) = Class ''std::string''"
proof -
  note pipeline_arities [OF example_wait]
  moreover have "call_type (return_type tr) = Arith ''int''"
    if "invocable_traits example_program (Class ''f'') = Some tr" for tr
    using that by (auto simp: example_simps)
  ultimately show ?thesis by (fastforce simp: Cons_eq_map_conv)
qed

end
