(* ===== verification/PipelineSoundness.thy ===== *)
theory PipelineSoundness
  imports PipelineTypes Senders
begin

section \<open>Pipelines that compile compute values of the right types\<close>

text \<open>
  Theory \<open>PipelineTypes\<close> computes from the types of the functions whether a pipeline compiles and
  which type its future has; theory \<open>Senders\<close> says what the pipeline does. Here the two are put
  together. Values are of any HOL type with any relation \<open>has_type\<close> to the types of the program;
  each function comes with a meaning that keeps to what its type promises. Then the task that
  \<open>wait\<close> submits calls no function with a value that it does not take, and what arrives in the
  future is of the type of the future.
\<close>

text \<open>What is handed on from one stage to the next: a value of the one type, or, after a stage that
  returns \<open>void\<close>, nothing that anybody looks at.\<close>

definition fits :: "('v \<Rightarrow> cpp_type \<Rightarrow> bool) \<Rightarrow> 'v \<Rightarrow> cpp_type list \<Rightarrow> bool" where
  "fits has_type x args = (case args of [] \<Rightarrow> True | [a] \<Rightarrow> has_type x a | _ \<Rightarrow> False)"

text \<open>A function that keeps to its type: called as its type allows, it returns, if it does, a value
  of the type that the call has. It may throw what it likes.\<close>

definition keeps_type ::
  "program \<Rightarrow> ('v \<Rightarrow> cpp_type \<Rightarrow> bool) \<Rightarrow> (cpp_type \<Rightarrow> ('v, 'v, 'u) invocable) \<Rightarrow> cpp_type \<Rightarrow> bool" where
  "keeps_type P has_type meaning f \<longleftrightarrow>
     (\<forall>args t x u y u'. invoke_result P f args = Some t \<and> fits has_type x args \<and> meaning f x u = (Inr y, u') \<longrightarrow>
        fits has_type y (handed_on t))"

text \<open>The same function refusing to be called with a value it does not take.\<close>

definition takes :: "program \<Rightarrow> ('v \<Rightarrow> cpp_type \<Rightarrow> bool) \<Rightarrow> cpp_type \<Rightarrow> 'v \<Rightarrow> bool" where
  "takes P has_type f x \<longleftrightarrow> (\<exists>args. is_invocable P f args \<and> fits has_type x args)"

definition guarded ::
  "program \<Rightarrow> ('v \<Rightarrow> cpp_type \<Rightarrow> bool) \<Rightarrow> exn \<Rightarrow> (cpp_type \<Rightarrow> ('v, 'v, 'u) invocable) \<Rightarrow> cpp_type \<Rightarrow>
     ('v, 'v, 'u) invocable" where
  "guarded P has_type wrong meaning f x u = (if takes P has_type f x then meaning f x u else (Inl wrong, u))"

lemma stages_sound:
  assumes "stages_type P args fs = Some args'" and "fits has_type x args"
    and "\<forall>f \<in> set fs. keeps_type P has_type meaning f"
  shows "run_steps (map (guarded P has_type wrong meaning) fs) (Inr x, u) = run_steps (map meaning fs) (Inr x, u)
    \<and> (\<forall>y u'. run_steps (map meaning fs) (Inr x, u) = (Inr y, u') \<longrightarrow> fits has_type y args')"
  using assms
proof (induction fs arbitrary: args x u)
  case (Cons f fs)
  then obtain t where t: "invoke_result P f args = Some t" "stages_type P (handed_on t) fs = Some args'"
    by (auto split: option.splits)
  with Cons.prems(2) have "takes P has_type f x" by (auto simp: takes_def is_invocable_def)
  then have g: "guarded P has_type wrong meaning f x u = meaning f x u" by (simp add: guarded_def)
  obtain r u1 where r: "meaning f x u = (r, u1)" by fastforce
  show ?case
  proof (cases r)
    case (Inr y)
    have "keeps_type P has_type meaning f" using Cons.prems(3) by simp
    with Cons.prems(2) r t(1) Inr have "fits has_type y (handed_on t)" unfolding keeps_type_def by blast
    with Cons.IH [OF t(2)] Cons.prems(3) Inr g r show ?thesis by simp
  qed (simp add: g r)
qed simp

lemma first_sound:
  assumes "stages_type P [] (f # fs) = Some args'" and "\<forall>g \<in> set (f # fs). keeps_type P has_type meaning g"
  shows "run_steps (map (guarded P has_type wrong meaning) fs) (guarded P has_type wrong meaning f x u) =
      run_steps (map meaning fs) (meaning f x u)
    \<and> (\<forall>y u'. run_steps (map meaning fs) (meaning f x u) = (Inr y, u') \<longrightarrow> fits has_type y args')"
  using stages_sound [OF assms(1) _ assms(2), of x wrong u] by (simp add: fits_def)

subsection \<open>Properties\<close>

text \<open>C31: pipelines are type-sound. When \<open>wait\<close> on \<open>schedule(s) | then f1 | ... | then fn\<close> compiles with
  a future of values of type \<open>v\<close>, and each function keeps to its type, the submitted task
  computes the same as if every function refused values it does not take, so none is ever
  called with one; and the future gets an exception or a value of type \<open>v\<close>.\<close>

theorem pipeline_type_sound:
  assumes "pipeline_type P scheduler (f # fs) = Some s" and "wait_type P accepts_closure False s = Some v"
    and "\<forall>g \<in> set (f # fs). keeps_type P has_type meaning g"
  shows "let (fut, p, subs, h0) = wait_sender
               (pipeline scheduler (beside (\<lambda>_. meaning f x)) (map beside (map meaning fs))) h;
             (c, (h1, u1)) = snd (hd subs) (h0, u)
    in c = Normal
     \<and> u1 = snd (run_steps (map (guarded P has_type wrong meaning) fs) (guarded P has_type wrong meaning f x u))
     \<and> (\<exists>r h2. future_get moved fut h1 = Result r h2
          \<and> (\<forall>res. r = Inr res \<longrightarrow> (\<exists>y. res = result_of_value y \<and> fits has_type y (handed_on v))))"
proof -
  have "stages_type P [] (f # fs) = Some (handed_on v)" using wait_type_stages [OF assms(1,2)] by blast
  note sound = first_sound [OF this assms(3), of wrong x u]
  obtain fut p subs h0 where wait: "wait_sender
      (pipeline scheduler (beside (\<lambda>_. meaning f x)) (map beside (map meaning fs))) h = (fut, p, subs, h0)"
    by (metis prod_cases4)
  obtain sch task where hd: "hd subs = (sch, task)" by fastforce
  obtain c h1 u1 where task: "task (h0, u) = (c, (h1, u1))" by (metis prod_cases3)
  obtain r u' where r: "run_steps (map meaning fs) (meaning f x u) = (r, u')" by fastforce
  have "c = Normal \<and> u1 = u'
      \<and> (\<exists>h2. future_get moved fut h1 = Result (case r of Inl e \<Rightarrow> Inl e | Inr v \<Rightarrow> Inr (result_of_value v)) h2)"
    using pipeline_run [of scheduler "\<lambda>_. meaning f x" "map meaning fs" h u moved]
    by (simp add: wait hd task r del: map_map)
  with sound r show ?thesis by (cases r) (auto simp: wait hd task simp del: map_map)
qed

text \<open>The functions of the example of theory \<open>PipelineTypes\<close>, on integers and strings.\<close>

fun example_has_type :: "int + string \<Rightarrow> cpp_type \<Rightarrow> bool" where
  "example_has_type (Inl i) t = (t = Arith ''int'')"
| "example_has_type (Inr s) t = (t = Class ''std::string'')"

definition example_meaning :: "cpp_type \<Rightarrow> (int + string, int + string, unit) invocable" where
  "example_meaning f x u = (if f = Class ''f'' then (Inr (Inl 256), u) else (Inr (Inr ''256''), u))"

lemma example_keeps_type:
  "\<forall>f \<in> set [Class ''f'', Class ''g'']. keeps_type example_program example_has_type example_meaning f"
proof -
  have f: "t = Arith ''int''" if "invoke_result example_program (Class ''f'') args = Some t" for args t
    using that by (auto simp: example_simps split: if_splits)
  have g: "t = Class ''std::string''" if "invoke_result example_program (Class ''g'') args = Some t" for args t
    using that by (auto simp: example_simps split: if_splits)
  have "keeps_type example_program example_has_type example_meaning (Class ''f'')"
    unfolding keeps_type_def by (auto dest!: f simp: example_meaning_def fits_def handed_on_def)
  moreover have "keeps_type example_program example_has_type example_meaning (Class ''g'')"
    unfolding keeps_type_def by (auto dest!: g simp: example_meaning_def fits_def handed_on_def)
  ultimately show ?thesis by simp
qed

theorem pipeline_type_sound_witness:
  "let (fut, p, subs, h0) = wait_sender
         (pipeline adapter_type (beside (\<lambda>_. example_meaning (Class ''f'') (Inl 0)))
            (map beside (map example_meaning [Class ''g'']))) [];
       (c, (h1, u1)) = snd (hd subs) (h0, ())
   in c = Normal \<and> (\<exists>r h2. future_get (\<lambda>v. v) fut h1 = Result r h2
        \<and> (\<forall>res. r = Inr res \<longrightarrow> (\<exists>y. res = result_of_value y \<and> example_has_type y (Class ''std::string''))))"
  using pipeline_type_sound [OF example_wait example_keeps_type, of "Inl 0" "[]" "()" BadVariantAccess "\<lambda>v. v"]
  by (simp add: fits_def handed_on_def split_beta)

end
