(* ===== verification/PoolProgress.thy ===== *)
theory PoolProgress
  imports ThreadPool
begin

section \<open>Every task is executed\<close>

text \<open>
  The liveness of the thread pool while it is in use. Every worker draws an index at its first
  call of \<open>scheduled()\<close>, all different, so in a pool whose threads could all be started each queue
  has a worker that ends up in \<open>pop()\<close> of just this queue. When no worker can move any more, every
  queue is therefore empty and everything that was submitted has been executed.
\<close>

subsection \<open>The indices of the workers\<close>

fun drawn_index :: "'t worker \<Rightarrow> nat list" where
  "drawn_index (Scanning idx n) = [unat idx]"
| "drawn_index (Popping idx) = [unat idx]"
| "drawn_index (Running idx t) = [unat idx]"
| "drawn_index _ = []"

abbreviation drawn_indices :: "'t pool \<Rightarrow> nat multiset" where
  "drawn_indices p \<equiv> mset (concat (map drawn_index (m_threads p)))"

definition in_use_inv :: "'t pool \<Rightarrow> bool" where
  "in_use_inv p \<longleftrightarrow>
     (joiner p = NotJoining \<longrightarrow>
        dropped p = {#} \<and> (\<forall>q \<in> set (queues p). \<not> m_is_cancelled q)
        \<and> set (m_threads p) \<inter> {NoThread, Exited} = {}
        \<and> drawn_indices p = mset [0..<unat (m_pop_index (m_scheduler p))])"

lemma drawn_set_worker:
  "worker_is p i w0 \<Longrightarrow>
     mset (concat (map drawn_index ((m_threads p)[i := w]))) + mset (drawn_index w0)
       = drawn_indices p + mset (drawn_index w)"
  using mset_concat_update [of i "m_threads p" drawn_index w] by auto

lemma drawn_length:
  "set ws \<inter> {NoThread, Exited} = {} \<Longrightarrow>
     length (concat (map drawn_index ws)) + count_if (\<lambda>w. w = Started) ws = length ws"
proof (induction ws)
  case (Cons w ws)
  then show ?case by (cases w) auto
qed simp

lemma drawn_bound:
  assumes "in_use_inv p" and "joiner p = NotJoining"
  shows "unat (m_pop_index (m_scheduler p)) + count_if (\<lambda>w. w = Started) (m_threads p) = length (m_threads p)"
proof -
  have "size (drawn_indices p) = unat (m_pop_index (m_scheduler p))"
    using assms by (simp add: in_use_inv_def del: mset_upt mset_concat)
  then have "length (concat (map drawn_index (m_threads p))) = unat (m_pop_index (m_scheduler p))"
    by (simp only: size_mset)
  with drawn_length [of "m_threads p"] assms show ?thesis by (simp add: in_use_inv_def del: mset_upt)
qed

lemma no_bad_worker:
  "set ws \<inter> B = {} \<Longrightarrow> w \<notin> B \<Longrightarrow> set (ws[i := w]) \<inter> B = {}"
  using set_update_subset_insert [of ws i w] by auto

text \<open>A worker that moves keeps its index.\<close>

lemma in_use_move:
  assumes inv: "in_use_inv p" and w0: "worker_is p i w0"
    and w: "drawn_index w = drawn_index w0" "w \<notin> {NoThread, Exited}"
    and s': "m_pop_index s' = m_pop_index (m_scheduler p)"
      "(\<forall>q \<in> set (queues p). \<not> m_is_cancelled q) \<Longrightarrow> (\<forall>q \<in> set (m_task_queue s'). \<not> m_is_cancelled q)"
  shows "in_use_inv (set_worker i w (p\<lparr>m_scheduler := s', executed := e\<rparr>))"
proof -
  have "mset (concat (map drawn_index ((m_threads p)[i := w]))) = drawn_indices p"
    using drawn_set_worker [OF w0, of w] w(1) by simp
  moreover have "set (m_threads p) \<inter> {NoThread, Exited} = {} \<Longrightarrow> set ((m_threads p)[i := w]) \<inter> {NoThread, Exited} = {}"
    using w(2) by (rule no_bad_worker [rotated])
  ultimately show ?thesis using inv s' by (simp add: in_use_inv_def del: mset_upt mset_concat)
qed

lemma in_use_first:
  assumes inv: "in_use_inv p" and shape: "shape_inv p" and w0: "worker_is p i Started"
  shows "in_use_inv (set_worker i (Scanning (m_pop_index (m_scheduler p)) 0)
    (p\<lparr>m_scheduler := m_scheduler p\<lparr>m_pop_index := m_pop_index (m_scheduler p) + 1\<rparr>\<rparr>))"
proof (cases "joiner p = NotJoining")
  case True
  let ?idx = "m_pop_index (m_scheduler p)"
  have "0 < count_if (\<lambda>w. w = Started) (m_threads p)" using w0 by (auto intro: count_if_nthI)
  with drawn_bound [OF inv True] have "unat ?idx < length (m_threads p)" by simp
  moreover have "length (m_threads p) < 2 ^ 30" using shape by (simp add: shape_inv_def)
  ultimately have next_idx: "unat (?idx + 1) = Suc (unat ?idx)" by (intro uint_succ_unat) simp
  have "mset (concat (map drawn_index ((m_threads p)[i := Scanning ?idx 0]))) = add_mset (unat ?idx) (drawn_indices p)"
    using drawn_set_worker [OF w0, of "Scanning ?idx 0"] by simp
  also have "\<dots> = mset [0..<unat (?idx + 1)]"
    using inv True by (simp add: in_use_inv_def next_idx del: mset_upt mset_concat)
  finally show ?thesis
    using inv True no_bad_worker [of "m_threads p" "{NoThread, Exited}" "Scanning ?idx 0" i]
    by (simp add: in_use_inv_def del: mset_upt mset_concat)
qed (simp add: in_use_inv_def)

lemma took_keeps:
  assumes "took t s s'"
  shows "m_pop_index s' = m_pop_index s"
    and "(\<forall>q \<in> set (m_task_queue s). \<not> m_is_cancelled q) \<Longrightarrow> (\<forall>q \<in> set (m_task_queue s'). \<not> m_is_cancelled q)"
proof -
  from assms obtain k q' where k: "k < length (m_task_queue s)" "s' = set_queue k q' s"
      "m_is_cancelled q' = m_is_cancelled (m_task_queue s ! k)"
    by (auto simp: took_def)
  then show "m_pop_index s' = m_pop_index s" by (simp add: set_queue_def)
  show "\<forall>q \<in> set (m_task_queue s'). \<not> m_is_cancelled q" if "\<forall>q \<in> set (m_task_queue s). \<not> m_is_cancelled q"
    using k that set_update_subset_insert [of "m_task_queue s" k q'] by (auto simp: set_queue_def)
qed

lemma in_use_inv_work:
  assumes step: "pool_step (Work i) p p'" and shape: "shape_inv p" and inv: "in_use_inv p"
  shows "in_use_inv p'"
  using step shape
proof (cases rule: work_step_cases)
  case (first idx)
  from step first in_use_first [OF inv shape first(1)] show ?thesis
    by (cases rule: work_stepE) (auto simp: thread_index_of_def)
next
  case (take_task idx n t s')
  from take_task(1) obtain w0 where "worker_is p i w0" "drawn_index w0 = [unat idx]" by auto
  with in_use_move [OF inv this(1), of "Running idx t" s' "executed p"] took_keeps [OF take_task(2)] take_task(3)
  show ?thesis by simp
next
  case (next_queue idx n)
  with in_use_move [OF inv next_queue(1), of "Scanning idx (n + 1)" "m_scheduler p" "executed p"]
  show ?thesis by simp
next
  case (own_queue idx n)
  with in_use_move [OF inv own_queue(1), of "Popping idx" "m_scheduler p" "executed p"] show ?thesis by simp
next
  case (leave idx)
  have "joiner p \<noteq> NotJoining"
    using leave(2) inv nth_mem [OF slot_less [OF shape_rr_ok [OF shape]], of idx 0] by (auto simp: in_use_inv_def)
  with leave(3) show ?thesis by (simp add: in_use_inv_def)
next
  case (finish idx t)
  with in_use_move [OF inv finish(1), of "Scanning idx 0" "m_scheduler p"] show ?thesis by simp
qed

lemma in_use_inv_submit:
  assumes "pool_step (Submit t) p p'" and "shape_inv p" and inv: "in_use_inv p"
  shows "in_use_inv p'"
proof -
  from assms(1,2) obtain k where k: "k < length (queues p)"
    "p' = p\<lparr>m_scheduler := set_queue k (push t (queues p ! k))
              (m_scheduler p\<lparr>m_push_index := m_push_index (m_scheduler p) + 1\<rparr>),
            submitted := add_mset t (submitted p)\<rparr>"
    by (rule submit_effect)
  with inv set_update_subset_insert [of "queues p" k "push t (queues p ! k)"] show ?thesis
    by (auto simp: in_use_inv_def set_queue_def push_def simp del: mset_upt mset_concat)
qed

lemma in_use_inv_join: "pool_step Join p p' \<Longrightarrow> in_use_inv p'"
  by (cases rule: join_stepE) (auto simp: in_use_inv_def)

lemma in_use_inv_start:
  assumes "pool_start p"
  shows "in_use_inv p"
proof -
  from assms obtain spawn r where p: "thread_pool_new spawn r = Inr p" by (auto simp: pool_start_def)
  let ?ws = "spawn_threads spawn 0 (unat (thread_count r)) :: 'a worker list"
  have "NoThread \<notin> set ?ws \<Longrightarrow> set ?ws \<subseteq> {Started}" using spawn_threads_sel(2) by auto
  then have "NoThread \<notin> set ?ws \<Longrightarrow> concat (map drawn_index ?ws) = [] \<and> Exited \<notin> set ?ws"
    by (auto simp: concat_eq_Nil_conv)
  with p show ?thesis
    by (auto simp: thread_pool_new_Inr Let_def in_use_inv_def queue_new_def simp del: mset_concat)
qed

interpretation in_use: invariant_relation pool_step pool_start "\<lambda>p. pool_inv p \<and> in_use_inv p"
proof unfold_locales
  fix p p' :: "'t pool" and a
  show "pool_inv p \<and> in_use_inv p" if "pool_start p" using that pool_inv_start in_use_inv_start by blast
  assume inv: "pool_inv p \<and> in_use_inv p" and step: "pool_step a p p'"
  then have "shape_inv p" by (simp add: pool_inv_def)
  with inv step have "in_use_inv p'"
    by (cases a) (auto intro: in_use_inv_work in_use_inv_submit in_use_inv_join)
  with inv step show "pool_inv p' \<and> in_use_inv p'" using pool.inv_rel by blast
qed

subsection \<open>Idle pools\<close>

definition pool_idle :: "'t pool \<Rightarrow> bool" where
  "pool_idle p \<longleftrightarrow> (\<forall>i p'. \<not> pool_step (Work i) p p')"

lemma idle_worker:
  assumes idle: "pool_idle p" and inv: "in_use_inv p" and "joiner p = NotJoining" and w: "worker_is p i w"
  obtains idx where "w = Popping idx" "pop (queues p ! slot idx 0 (m_scheduler p)) = Blocks"
proof -
  have "w \<notin> {NoThread, Exited}" using inv assms(3) w nth_mem [of i "m_threads p"] by (auto simp: in_use_inv_def)
  moreover have stuck: "\<nexists>p'. pool_step (Work i) p p'" using idle by (simp add: pool_idle_def)
  ultimately obtain idx where idx: "w = Popping idx" using worker_moves [OF w] by blast
  with stuck w have "pop (queues p ! slot idx 0 (m_scheduler p)) = Blocks" using popping_moves by blast
  with idx that show thesis by blast
qed

lemma slot_drawn:
  assumes "rr_ok s" and "unat idx < length (m_task_queue s)"
  shows "slot idx 0 s = unat idx"
  using assms by (simp add: slot_eq)

lemma idle_pool:
  assumes idle: "pool_idle p" and inv: "pool_inv p" "in_use_inv p" and use: "joiner p = NotJoining"
  shows "executed p = submitted p \<and> pending_tasks (m_scheduler p) = {#}
    \<and> drawn_indices p = mset [0..<length (queues p)]"
proof -
  have shape: "shape_inv p" using inv(1) by (simp add: pool_inv_def)
  have popping: "\<exists>idx. w = Popping idx \<and> pop (queues p ! slot idx 0 (m_scheduler p)) = Blocks"
    if "w \<in> set (m_threads p)" for w
    using that idle_worker [OF idle inv(2) use] by (metis in_set_conv_nth)
  then have "count_if (\<lambda>w. w = Started) (m_threads p) = 0" by (fastforce simp: count_if_def filter_empty_conv)
  with drawn_bound [OF inv(2) use] have "unat (m_pop_index (m_scheduler p)) = length (queues p)"
    using shape by (simp add: shape_inv_def)
  with inv(2) use have drawn: "drawn_indices p = mset [0..<length (queues p)]"
    by (simp add: in_use_inv_def del: mset_upt mset_concat)
  have empty: "m_container (queues p ! k) = []" if "k < length (queues p)" for k
  proof -
    have "k \<in> set (concat (map drawn_index (m_threads p)))"
      using that drawn by (metis atLeastLessThan_iff atLeastLessThan_upt bot_nat_0.extremum set_mset_mset)
    then obtain w where w: "w \<in> set (m_threads p)" "k \<in> set (drawn_index w)" by auto
    with popping [OF w(1)] obtain idx where "unat idx = k" "pop (queues p ! slot idx 0 (m_scheduler p)) = Blocks"
      by auto
    with slot_drawn [OF shape_rr_ok [OF shape], of idx] that have "pop (queues p ! k) = Blocks" by simp
    then show ?thesis by (simp add: task_queue.get_blocks)
  qed
  then have "concat (map m_container (queues p)) = []" by (auto simp: in_set_conv_nth)
  moreover have "concat (map running_task (m_threads p)) = []" using popping by fastforce
  ultimately show ?thesis
    using inv use drawn by (simp add: pool_inv_def tasks_inv_def in_use_inv_def del: mset_upt mset_concat)
qed

subsection \<open>Properties\<close>

text \<open>C15: a pool in use executes every task. In a pool whose threads could all be started and that is
  not being shut down, once nobody submits any more the workers run for at most \<open>pool_measure\<close>
  steps, whatever the scheduler of the operating system does; and where none of them can
  continue, every task submitted has been executed, no queue holds a task, and each queue has
  one worker that waits in \<open>pop()\<close> of it.\<close>

theorem pool_executes_all:
  assumes "thread_pool_new spawn requested = Inr p0" and "unat requested < 2 ^ 30"
    and "reaches pool_step p0 p" and "shutdown_run k p p'" and "joiner p' = NotJoining"
  shows "k \<le> pool_measure p
    \<and> (pool_idle p' \<longrightarrow> executed p' = submitted p' \<and> pending_tasks (m_scheduler p') = {#}
         \<and> mset (concat (map drawn_index (m_threads p'))) = mset [0..<length (queues p')])"
proof -
  have start: "pool_start p0" using assms(1,2) by (auto simp: pool_start_def)
  have "pool_inv p" using in_use.inv_reaches [OF assms(3) start] by blast
  moreover have "pool_inv p' \<and> in_use_inv p'"
    using in_use.inv_reaches [OF reaches_trans [OF assms(3) shutdown_run_reaches [OF assms(4)]] start] .
  ultimately show ?thesis using shutdown_run_measure [OF assms(4)] idle_pool [of p'] assms(5) by simp
qed

text \<open>A pool of one worker that executes one task and then waits for the next.\<close>

abbreviation busy_pool :: "nat queue \<Rightarrow> uint \<Rightarrow> nat worker \<Rightarrow> nat multiset \<Rightarrow> nat pool" where
  "busy_pool q i w e \<equiv>
     (one_pool q i w NotJoining)\<lparr>m_scheduler := \<lparr>m_task_queue = [q], m_push_index = 1, m_pop_index = i\<rparr>,
       submitted := {#7#}, executed := e\<rparr>"

lemma busy_pool_submit:
  "pool_step (Submit 7) (one_pool queue_new 0 Started NotJoining) (busy_pool (push 7 queue_new) 0 Started {#})"
  using submit [of "\<lambda>_. True" 7 "one_pool queue_new 0 Started NotJoining"]
  by (simp add: schedule_uncontended rr_ok_def Let_def set_queue_def)

lemma busy_pool_run:
  "shutdown_run 5 (busy_pool (push 7 queue_new) 0 Started {#}) (busy_pool queue_new 1 (Popping 0) {#7#})"
proof -
  let ?q = "push 7 queue_new" and ?p = "busy_pool (push 7 queue_new) 0 Started {#}"
  have 1: "shutdown_run 1 ?p (busy_pool ?q 1 (Scanning 0 0) {#})"
    using run_step [OF run_start first_call [where p = ?p and i = 0]] by (simp add: pool_eval)
  have 2: "shutdown_run 2 ?p (busy_pool queue_new 1 (Running 0 7) {#})"
    using run_step [OF 1 scan_hit, of 0 0 0 "\<lambda>_. True"] by (simp add: pool_eval push_def numeral_2_eq_2)
  have 3: "shutdown_run 3 ?p (busy_pool queue_new 1 (Scanning 0 0) {#7#})"
    using run_step [OF 2 run_task, of 0] by simp
  have 4: "shutdown_run 4 ?p (busy_pool queue_new 1 (Scanning 0 1) {#7#})"
    using run_step [OF 3 scan_miss, of 0 0 0 "\<lambda>_. True"] by (simp add: pool_eval)
  show ?thesis
    using run_step [OF 4 scan_end, of 0 0 1] by (simp add: pool_eval)
qed

lemma busy_pool_idle: "pool_idle (busy_pool queue_new 1 (Popping 0) {#7#})"
  unfolding pool_idle_def by (auto simp: pool_eval elim!: work_stepE)

theorem pool_executes_all_witness:
  "\<exists>p0 p p'. thread_pool_new (\<lambda>_. True) 1 = Inr p0 \<and> reaches pool_step p0 p \<and> shutdown_run 5 p p' \<and> pool_idle p'
     \<and> submitted p' = {#7::nat#} \<and> executed p' = submitted p' \<and> 5 \<le> pool_measure p"
proof -
  let ?p = "busy_pool (push 7 queue_new) 0 Started {#}"
  have r: "reaches pool_step (one_pool queue_new 0 Started NotJoining) ?p"
    by (rule reaches_step [where rel = pool_step, OF reaches_start busy_pool_submit])
  have "5 \<le> pool_measure ?p"
    using pool_executes_all [OF one_pool_new _ r busy_pool_run] by simp
  with one_pool_new r busy_pool_run busy_pool_idle show ?thesis
    by (intro exI [of _ "one_pool queue_new 0 Started NotJoining"] exI [of _ ?p]
        exI [of _ "busy_pool queue_new 1 (Popping 0) {#7#}"] conjI) simp_all
qed

text \<open>The condition that nobody can move is needed: a worker that waits in \<open>pop()\<close> of its own queue is
  not woken for a task that a busy worker's queue holds, here because the waiting worker's queue
  was locked when the task was placed. Should the busy worker's task wait for the queued one,
  neither ever ends.\<close>

abbreviation two_pool :: "nat list \<Rightarrow> uint \<Rightarrow> uint \<Rightarrow> nat worker \<Rightarrow> nat worker \<Rightarrow> nat multiset \<Rightarrow> nat pool" where
  "two_pool ts i j w w' sub \<equiv>
     \<lparr>m_scheduler = \<lparr>m_task_queue = [\<lparr>m_is_cancelled = False, m_container = ts\<rparr>, queue_new], m_push_index = i,
        m_pop_index = j\<rparr>,
      m_threads = [w, w'], joiner = NotJoining, submitted = sub, executed = {#}, dropped = {#}\<rparr>"

lemma schedule_contended:
  "RRScheduler.schedule (\<lambda>n. n = 1) t \<lparr>m_task_queue = [q, q'], m_push_index = 1, m_pop_index = j\<rparr> =
     Some \<lparr>m_task_queue = [push t q, q'], m_push_index = 2, m_pop_index = j\<rparr>"
  by (simp add: RRScheduler.schedule_def try_loop.simps push_body_def pool_eval push_def try_push_def)

theorem idle_worker_not_woken:
  "\<exists>p0 p :: nat pool. thread_pool_new (\<lambda>_. True) 2 = Inr p0 \<and> reaches pool_step p0 p \<and> joiner p = NotJoining
     \<and> m_threads p = [Running 0 1, Popping 1] \<and> pending_tasks (m_scheduler p) = {#2#}
     \<and> (\<nexists>p'. pool_step (Work 1) p p')"
proof -
  let ?start = "two_pool [] 0 0 Started Started {#}"
  have new: "thread_pool_new (\<lambda>_. True) 2 = Inr ?start"
    by (simp add: thread_pool_new_Inr Let_def unat_thread_count spawn_threads_all replicate_two queue_new_def)
  note next_step = reaches_step [where rel = pool_step]
  have 1: "reaches pool_step ?start (two_pool [1] 1 0 Started Started {#1#})"
    using next_step [OF reaches_start submit [of "\<lambda>_. True" 1 ?start]]
    by (simp add: schedule_uncontended rr_ok_def Let_def set_queue_def push_def slot_def queue_size_def)
  have 2: "reaches pool_step ?start (two_pool [1] 1 1 (Scanning 0 0) Started {#1#})"
    using next_step [OF 1 first_call [where i = 0]] by (simp add: pool_eval)
  have 3: "reaches pool_step ?start (two_pool [] 1 1 (Running 0 1) Started {#1#})"
    using next_step [OF 2 scan_hit [where i = 0 and idx = 0 and n = 0 and locked = "\<lambda>_. True"]]
    by (simp add: pool_eval)
  have 4: "reaches pool_step ?start (two_pool [] 1 2 (Running 0 1) (Scanning 1 0) {#1#})"
    using next_step [OF 3 first_call [where i = 1]] by (simp add: pool_eval)
  have 5: "reaches pool_step ?start (two_pool [] 1 2 (Running 0 1) (Scanning 1 1) {#1#})"
    using next_step [OF 4 scan_miss [where i = 1 and idx = 1 and n = 0 and locked = "\<lambda>_. True"]]
    by (simp add: pool_eval)
  have 6: "reaches pool_step ?start (two_pool [] 1 2 (Running 0 1) (Scanning 1 2) {#1#})"
    using next_step [OF 5 scan_miss [where i = 1 and idx = 1 and n = 1 and locked = "\<lambda>_. True"]]
    by (simp add: pool_eval)
  have 7: "reaches pool_step ?start (two_pool [] 1 2 (Running 0 1) (Popping 1) {#1#})"
    using next_step [OF 6 scan_end [where i = 1 and idx = 1 and n = 2]] by (simp add: pool_eval)
  have 8: "reaches pool_step ?start (two_pool [2] 2 2 (Running 0 1) (Popping 1) {#1, 2#})"
    using next_step [OF 7 submit [of "\<lambda>n. n = 1" 2]] by (simp add: schedule_contended push_def add_mset_commute)
  have "\<nexists>p'. pool_step (Work 1) (two_pool [2] 2 2 (Running 0 1) (Popping 1) {#1, 2#}) p'"
    by (auto simp: pool_eval elim!: work_stepE)
  with new 8 show ?thesis by (intro exI [of _ ?start] exI conjI) (assumption | simp add: queue_new_def)+
qed

end
