(* ===== verification/ServiceSpec.thy ===== *)
theory ServiceSpec
  imports PoolFutures PoolProgress
begin

section \<open>Pool, scheduler, senders and futures refine an executor\<close>

text \<open>
  What the concurrency library promises as a whole: an executor. Its state is the status of each
  call of \<open>wait\<close>, the state that the functions of the pipelines act on, the calls that are in
  execution and which are still open. The functions of different pipelines may alternate in any
  order, but each gets the result of the one before it in its own pipeline. A call is settled by the
  first of its end, a cancellation and the loss of its task. The refinement shows that the
  service of theory \<open>PoolFutures\<close>, with its queues, workers, receivers and shared states, is such an
  executor, and that its futures give what the executor says.
\<close>

subsection \<open>The executor\<close>

record ('v, 'u) executor =
  x_status :: "'v settlement option list"
  x_rest :: 'u
  x_calls :: "nat \<Rightarrow> ('v, 'u) call_state option"
  x_open :: "nat multiset"
  x_run :: "nat multiset"
  x_lost :: "nat multiset"

definition executor_new :: "'u \<Rightarrow> ('v, 'u) executor" where
  "executor_new u =
     \<lparr>x_status = [], x_rest = u, x_calls = (\<lambda>_. None), x_open = {#}, x_run = {#}, x_lost = {#}\<rparr>"

datatype executor_act = XInvoke | XCancel nat | XCall nat | XEnd nat | XLose nat

definition settle_status :: "nat \<Rightarrow> 'v settlement \<Rightarrow> ('v, 'u) executor \<Rightarrow> ('v, 'u) executor" where
  "settle_status a c x = (if x_status x ! a = None then x\<lparr>x_status := (x_status x)[a := Some c]\<rparr> else x)"

text \<open>The next function of a call, and whether there is none.\<close>

fun call_next :: "('v, 'u) body \<Rightarrow> nat \<Rightarrow> ('v, 'u) call_state option \<Rightarrow> 'u \<Rightarrow> ('v result \<times> 'u) \<times> ('v, 'v, 'u) invocable list" where
  "call_next body a (Some (Inr v, f # fs)) u = (f v u, fs)"
| "call_next body a _ u = (fst (body a) () u, snd (body a))"

fun call_final :: "('v, 'u) call_state \<Rightarrow> bool" where
  "call_final (Inr v, fs) = (fs = [])"
| "call_final (Inl e, fs) = True"

text \<open>A call begins only if it has no status; if it has one, being cancelled, it ends without having called
  a function.\<close>

definition may_call :: "nat \<Rightarrow> ('v, 'u) executor \<Rightarrow> bool" where
  "may_call a x \<longleftrightarrow>
     (case x_calls x a of None \<Rightarrow> x_status x ! a = None | Some st \<Rightarrow> \<not> call_final st)"

definition leave :: "nat \<Rightarrow> ('v, 'u) executor \<Rightarrow> ('v, 'u) executor" where
  "leave a x = x\<lparr>x_calls := (x_calls x)(a := None), x_open := x_open x - {#a#}, x_run := add_mset a (x_run x)\<rparr>"

fun executor_step :: "('v, 'u) body \<Rightarrow> executor_act \<Rightarrow> ('v, 'u) executor \<Rightarrow> ('v, 'u) executor option" where
  "executor_step body XInvoke x =
     Some (x\<lparr>x_status := x_status x @ [None], x_open := add_mset (length (x_status x)) (x_open x)\<rparr>)"
| "executor_step body (XCancel a) x =
     (if a < length (x_status x) then Some (settle_status a Cancel x) else None)"
| "executor_step body (XCall a) x =
     (if a \<in># x_open x \<and> may_call a x
      then (let ((r, u'), fs) = call_next body a (x_calls x a) (x_rest x)
            in Some (x\<lparr>x_rest := u', x_calls := (x_calls x)(a \<mapsto> (r, fs))\<rparr>))
      else None)"
| "executor_step body (XEnd a) x =
     (if a \<in># x_open x \<and> \<not> may_call a x
      then Some (case x_calls x a of
                   None \<Rightarrow> leave a x
                 | Some (r, fs) \<Rightarrow> settle_status a (result_settlement r) (leave a x))
      else None)"
| "executor_step body (XLose a) x =
     (if a \<in># x_open x \<and> x_calls x a = None
      then Some (settle_status a Break (x\<lparr>x_open := x_open x - {#a#}, x_lost := add_mset a (x_lost x)\<rparr>))
      else None)"

subsection \<open>What the executor sees of the service\<close>

definition status_of :: "'v shared_state \<Rightarrow> 'v settlement option" where
  "status_of c =
     (case shared_state.m_state c of
        Init \<Rightarrow> None
      | Value \<Rightarrow> (case m_data c of ResultData r \<Rightarrow> Some (SetValue r) | _ \<Rightarrow> None)
      | Error \<Rightarrow> (case m_data c of ExceptionPtr e \<Rightarrow> Some (SetException e) | _ \<Rightarrow> None)
      | Canceled \<Rightarrow> Some Cancel
      | Broken \<Rightarrow> Some Break)"

text \<open>A shared state that only settlements have touched.\<close>

definition faithful :: "'v shared_state \<Rightarrow> bool" where
  "faithful c \<longleftrightarrow>
     (case status_of c of None \<Rightarrow> c = shared_state_new | Some x \<Rightarrow> c = settle x shared_state_new)"

definition executor_of :: "('v, 'u) service \<Rightarrow> ('v, 'u) executor" where
  "executor_of s =
     \<lparr>x_status = map status_of (the_store s), x_rest = the_rest s, x_calls = the_calls s,
      x_open = outstanding (the_pool s), x_run = executed (the_pool s), x_lost = dropped (the_pool s)\<rparr>"

definition executor_inv :: "('v, 'u) service \<Rightarrow> bool" where
  "executor_inv s \<longleftrightarrow> service_inv s \<and> (\<forall>c \<in> set (the_store s). faithful c)
     \<and> (\<forall>a. the_calls s a \<noteq> None \<longrightarrow> a \<in># running_tasks (the_pool s))"

subsection \<open>Settling a faithful state\<close>

lemma status_new [simp]: "status_of shared_state_new = None" "faithful shared_state_new"
  by (simp_all add: faithful_def status_of_def shared_state_new_def)

lemma status_settled [simp]: "status_of (settle c shared_state_new) = Some c"
  by (cases c) (simp_all add: status_of_def settle_eq is_ready_def shared_state_new_def del: settle.simps)

lemma faithful_cases:
  assumes "faithful c"
  obtains (fresh) "c = shared_state_new" "status_of c = None" "\<not> is_ready c"
    | (settled) x where "c = settle x shared_state_new" "status_of c = Some x" "is_ready c"
  using assms new_not_ready settle_ready by (auto simp: faithful_def split: option.splits)

lemma settle_faithful:
  assumes "faithful c"
  shows "faithful (settle x c)
    \<and> status_of (settle x c) = (if status_of c = None then Some x else status_of c)"
  using assms
proof (cases rule: faithful_cases)
  case fresh
  then show ?thesis by (simp add: faithful_def del: settle.simps)
next
  case (settled y)
  then have "settle x c = c" by (simp add: settle_eq)
  with settled assms show ?thesis by simp
qed

lemma faithful_get:
  assumes "faithful (h ! a)" and "a < length h"
  shows "case status_of (h ! a) of
      None \<Rightarrow> future_get moved (get_future (promise_at a)) h = Blocked
    | Some c \<Rightarrow> \<exists>h'. future_get moved (get_future (promise_at a)) h = Result (settled_get c) h'"
  using assms(1)
proof (cases rule: faithful_cases)
  case fresh
  with assms(2) show ?thesis by (simp add: future_get_def get_future_eq promise_at_def get_def)
next
  case (settled x)
  have "map_option fst (get moved (h ! a)) = Some (settled_get x)"
    unfolding settled(1) by (rule get_settle [OF new_not_ready])
  with settled assms(2) show ?thesis
    by (auto simp: future_get_def get_future_eq promise_at_def)
qed

subsection \<open>Simulation\<close>

abbreviation executor_at ::
  "'v store \<Rightarrow> 'u \<Rightarrow> (nat \<Rightarrow> ('v, 'u) call_state option) \<Rightarrow> nat multiset \<Rightarrow> nat multiset \<Rightarrow> nat multiset \<Rightarrow>
     ('v, 'u) executor" where
  "executor_at h u cs op ru lo \<equiv>
     \<lparr>x_status = map status_of h, x_rest = u, x_calls = cs, x_open = op, x_run = ru, x_lost = lo\<rparr>"

lemma executor_of_eq:
  "executor_of s = executor_at (the_store s) (the_rest s) (the_calls s) (outstanding (the_pool s))
     (executed (the_pool s)) (dropped (the_pool s))"
  by (simp add: executor_of_def)

lemma settle_store:
  assumes "\<forall>c \<in> set h. faithful c" and "a < length h"
  shows "\<forall>c \<in> set (h[a := settle x (h ! a)]). faithful c"
    and "settle_status a x (executor_at h u cs op ru lo) = executor_at (h[a := settle x (h ! a)]) u cs op ru lo"
proof -
  have f: "faithful (h ! a)" using assms by simp
  show "\<forall>c \<in> set (h[a := settle x (h ! a)]). faithful c"
    using assms(1) settle_faithful [OF f] by (intro ball_update) auto
  show "settle_status a x (executor_at h u cs op ru lo) = executor_at (h[a := settle x (h ! a)]) u cs op ru lo"
  proof -
    have "map status_of h = (map status_of h)[a := status_of (h ! a)]" by (metis list_update_id map_update)
    with settle_faithful [OF f, of x] assms(2) show ?thesis
      by (simp add: settle_status_def map_update del: settle.simps)
  qed
qed

lemma drop_task_settle: "a < length h \<Longrightarrow> drop_task (promise_at a) h = Some (h[a := settle Break (h ! a)])"
  by (simp add: drop_task_eq)

lemma drop_all_settles:
  assumes "\<forall>c \<in> set h. faithful c" and "\<forall>a \<in> set as. a < length h \<and> cs a = None"
  shows "(\<forall>c \<in> set (drop_all as h). faithful c)
    \<and> run (executor_step body) (map XLose as) (executor_at h u cs (op + mset as) ru lo) =
        Some (executor_at (drop_all as h) u cs op ru (lo + mset as))"
  using assms
proof (induction as arbitrary: h lo)
  case Nil
  then show ?case by (simp add: drop_all_def)
next
  case (Cons a as)
  let ?h = "h[a := settle Break (h ! a)]"
  have a: "a < length h" using Cons.prems(2) by simp
  note settled = settle_store [OF Cons.prems(1) a, of Break]
  have "drop_all (a # as) h = drop_all as ?h" using a by (simp add: drop_all_def drop_task_settle del: settle.simps)
  with Cons.IH [OF settled(1), of "add_mset a lo"] Cons.prems(2)
    settled(2) [of u cs "op + mset as" ru "add_mset a lo"] show ?case
    by (simp del: settle.simps)
qed

lemma executor_submit:
  assumes "pool_step (Submit t) p p'" and "pool_inv p"
  shows "outstanding p' = add_mset t (outstanding p) \<and> executed p' = executed p \<and> dropped p' = dropped p"
proof -
  have "executed p' = executed p \<and> dropped p' = dropped p" using assms(1) by (cases rule: submit_stepE) auto
  moreover have "outstanding p' + finished p = add_mset t (outstanding p) + finished p"
    using submit_history [OF assms(1)] conservation [OF assms(2)] conservation [OF pool_inv_keep [OF assms]]
    by (metis union_mset_add_mset_left)
  ultimately show ?thesis by (simp only: add_right_cancel)
qed

lemma executor_work:
  assumes "pool_step (Work i) p p'" and "pool_inv p"
  shows "dropped p' = dropped p"
    and "\<not> is_running p i \<Longrightarrow> outstanding p' = outstanding p \<and> executed p' = executed p"
    and "worker_is p i (Running idx t) \<Longrightarrow>
      outstanding p = add_mset t (outstanding p') \<and> executed p' = add_mset t (executed p)"
proof -
  show d: "dropped p' = dropped p" using assms(1) by (cases rule: work_stepE) auto
  note facts = work_history [OF assms(1), of idx t] conservation [OF assms(2)] conservation [OF pool_inv_keep [OF assms]]
  show "outstanding p' = outstanding p \<and> executed p' = executed p" if "\<not> is_running p i"
    using facts d that by (auto simp: finished_def)
  show "outstanding p = add_mset t (outstanding p') \<and> executed p' = add_mset t (executed p)"
    if "worker_is p i (Running idx t)"
    using facts d that by (auto simp: finished_def)
qed

lemma executor_join:
  assumes "pool_step Join p p'" and "pool_inv p"
  shows "outstanding p = outstanding p' + mset (drops p) \<and> executed p' = executed p
    \<and> dropped p' = dropped p + mset (drops p)"
proof -
  have e: "executed p' = executed p" using assms(1) by (cases rule: join_stepE) auto
  note hist = join_history [OF assms(1)]
  from hist e have d: "dropped p' = dropped p + mset (drops p)" by (simp add: finished_def ac_simps)
  have "outstanding p + finished p = (outstanding p' + mset (drops p)) + finished p"
    using hist conservation [OF assms(2)] conservation [OF pool_inv_keep [OF assms]]
    by (metis union_commute union_assoc)
  then have "outstanding p = outstanding p' + mset (drops p)" by (simp only: add_right_cancel)
  with e d show ?thesis by simp
qed

text \<open>Steps of a call.\<close>

lemma executor_call:
  assumes a: "a < length h" and "unsettled (h ! a)" and f: "faithful (h ! a)" and "a \<in># op"
    and call: "call_step body a (cs a) (h, u) = (Continues st, (h1, u1))"
  shows "h1 = h \<and> executor_step body (XCall a) (executor_at h u cs op ru lo) =
    Some (executor_at h u1 (cs(a \<mapsto> st)) op ru lo)"
proof (cases "cs a")
  case None
  note call' = call [unfolded call_step_effect [OF a] None, simplified]
  then have "Canceled \<noteq> shared_state.m_state (h ! a)" by (auto split: if_splits)
  with assms(2) have "\<not> is_ready (h ! a)" by (auto simp: unsettled_def is_ready_def)
  with f have "status_of (h ! a) = None" by (auto elim: faithful_cases)
  with call' a assms(4) None show ?thesis by (auto simp: may_call_def split: if_splits prod.splits)
next
  case (Some c)
  with call [unfolded call_step_effect [OF a]] assms(4) show ?thesis
    by (cases c; cases "fst c"; cases "snd c") (auto simp: may_call_def split: prod.splits)
qed

lemma executor_end:
  assumes f: "\<forall>c \<in> set h. faithful c" and a: "a < length h"
    and call: "call_step body a (cs a) (h, u) = (Ends Normal, (h1, u1))" and drop: "drop_task (promise_at a) h1 = Some h2"
  shows "(\<forall>c \<in> set h2. faithful c)
    \<and> executor_step body (XEnd a) (executor_at h u cs (add_mset a op) ru lo) =
        Some (executor_at h2 u1 (cs(a := None)) op (add_mset a ru) lo)"
proof -
  obtain cell where "h1 = h[a := cell]" "is_ready cell" using call_step_ends [OF a call] by blast
  then have h2: "h2 = h1" using drop a by (simp add: drop_task_eq broken_ready)
  note call' = call [unfolded call_step_effect [OF a]]
  show ?thesis
  proof (cases "cs a")
    case None
    with call' have "Canceled = shared_state.m_state (h ! a)" "h1 = h" "u1 = u" by (auto split: if_splits prod.splits)
    moreover from this(1) have "status_of (h ! a) = Some Cancel" by (simp add: status_of_def flip: \<open>Canceled = _\<close>)
    ultimately show ?thesis using None f a by (simp add: h2 may_call_def leave_def)
  next
    case (Some c)
    obtain r fs where c: "c = (r, fs)" by fastforce
    from Some c call' have h1: "h1 = h[a := settle (result_settlement r) (h ! a)]" "u1 = u" and "call_final (r, fs)"
      by (cases r; cases fs; auto split: prod.splits simp del: settle.simps)+
    with Some c have "\<not> may_call a (executor_at h u cs (add_mset a op) ru lo)" by (simp add: may_call_def)
    with settle_store [OF f a, of "result_settlement r"] Some c show ?thesis
      unfolding h2 h1 by (simp add: leave_def del: settle.simps)
  qed
qed

text \<open>The tasks that the workers execute.\<close>

lemma running_submit: "pool_step (Submit t) p p' \<Longrightarrow> running_tasks p' = running_tasks p"
  by (cases rule: submit_stepE) auto

lemma running_join: "pool_step Join p p' \<Longrightarrow> running_tasks p' = running_tasks p"
  by (cases rule: join_stepE) auto

lemma running_update:
  assumes "worker_is p i w0" and "m_threads p' = (m_threads p)[i := w]"
  shows "running_tasks p' + mset (running_task w0) = running_tasks p + mset (running_task w)"
  using running_set_worker [OF assms(1), of w] by (simp only: assms(2))

lemma running_other:
  assumes "pool_step (Work i) p p'" and "\<not> is_running p i"
  shows "running_tasks p \<subseteq># running_tasks p'"
proof -
  obtain w0 w where w: "worker_is p i w0" "m_threads p' = (m_threads p)[i := w]"
    using assms(1) by (cases rule: work_stepE) auto
  moreover have "running_task w0 = []" using w(1) assms(2) by (cases w0) auto
  ultimately show ?thesis using running_update [OF w] by simp
qed

lemma running_end:
  assumes "pool_step (Work i) p p'" and "worker_is p i (Running idx b)"
  shows "running_tasks p = add_mset b (running_tasks p')"
proof -
  have "m_threads p' = (m_threads p)[i := Scanning idx 0]"
    using assms by (cases rule: work_stepE) auto
  from running_update [OF assms(2) this] show ?thesis by simp
qed

lemma running_mem: "worker_is p i (Running idx b) \<Longrightarrow> b \<in># running_tasks p"
  using nth_mem [of i "m_threads p"] by force

text \<open>A task that the shutdown drops was never begun.\<close>

lemma dropped_not_running:
  assumes inv: "service_inv s" and step: "pool_step Join (the_pool s) p'" and a: "a \<in> set (drops (the_pool s))"
  shows "a \<notin># running_tasks (the_pool s)"
proof
  assume run: "a \<in># running_tasks (the_pool s)"
  have pinv: "pool_inv (the_pool s)" using inv by (simp add: service_inv_def)
  have "a \<in># outstanding p'" using run running_join [OF step] by (simp add: outstanding_def)
  then have "count (outstanding p') a \<ge> 1" by (simp add: Suc_le_eq)
  moreover have "count (outstanding (the_pool s)) a = count (outstanding p') a + count (mset (drops (the_pool s))) a"
    using executor_join [OF step pinv] by simp
  moreover have "count (mset (drops (the_pool s))) a \<ge> 1" using a by (simp add: Suc_le_eq)
  ultimately have "count (outstanding (the_pool s)) a \<ge> 2" by linarith
  moreover have "count (outstanding (the_pool s)) a \<le> count (submitted (the_pool s)) a"
    using conservation [OF pinv] by simp
  moreover have "count (submitted (the_pool s)) a \<le> 1" using inv by (simp add: service_inv_def count_mset_set')
  ultimately show False by linarith
qed

text \<open>What the executor may do for a step of the service: it invokes, cancels and loses calls only where
  a client calls \<open>wait\<close>, cancels, or the pool is shut down; for a step of a worker it calls one
  function or ends one call, or does nothing.\<close>

fun done_for :: "service_act \<Rightarrow> executor_act list \<Rightarrow> bool" where
  "done_for ClientWait xs = (xs = [XInvoke])"
| "done_for (ClientCancel a) xs = (xs = [XCancel a])"
| "done_for (Worker i) xs = (xs = [] \<or> (\<exists>a. xs = [XCall a] \<or> xs = [XEnd a]))"
| "done_for Shutdown xs = (\<exists>as. xs = map XLose as)"

lemma service_simulated:
  assumes inv: "executor_inv s" and step: "service_step body act s s'"
  shows "executor_inv s'
    \<and> (\<exists>bs. done_for act bs \<and> run (executor_step body) bs (executor_of s) = Some (executor_of s'))"
proof -
  have sinv: "service_inv s" and f: "\<forall>c \<in> set (the_store s). faithful c"
    and calls: "\<And>a. the_calls s a \<noteq> None \<Longrightarrow> a \<in># running_tasks (the_pool s)"
    using inv by (simp_all add: executor_inv_def)
  then have pinv: "pool_inv (the_pool s)" by (simp add: service_inv_def)
  have "(\<forall>c \<in> set (the_store s'). faithful c) \<and> (\<forall>a. the_calls s' a \<noteq> None \<longrightarrow> a \<in># running_tasks (the_pool s'))
      \<and> (\<exists>bs. done_for act bs \<and> run (executor_step body) bs (executor_of s) = Some (executor_of s'))"
    using step
  proof (cases rule: service_step.cases)
    case (client_wait fut prom subs h0 p')
    then have h0: "h0 = the_store s @ [shared_state_new]" by (auto simp: wait_sender_eq Let_def)
    with executor_submit [OF client_wait(4) pinv] have
      "run (executor_step body) [XInvoke] (executor_of s) = Some (executor_of s')"
      by (simp add: client_wait(2) executor_of_eq)
    moreover have "\<forall>c \<in> set (the_store s'). faithful c" using f client_wait(2) h0 by auto
    moreover have "\<forall>a. the_calls s' a \<noteq> None \<longrightarrow> a \<in># running_tasks (the_pool s')"
      using calls running_submit [OF client_wait(4)] by (simp add: client_wait(2))
    moreover have "done_for act ([XInvoke])" by (auto simp: client_wait(1))
    ultimately show ?thesis by blast
  next
    case (client_cancel b h')
    then have b: "b < length (the_store s)" and h': "h' = (the_store s)[b := settle Cancel (the_store s ! b)]"
      by (auto simp: future_cancel_def get_future_eq promise_at_def modify_def split: if_splits)
    note settled = settle_store [OF f b, of Cancel]
    have "run (executor_step body) [XCancel b] (executor_of s) = Some (executor_of s')"
      using b settled(2) by (simp add: client_cancel(2) executor_of_eq h' del: settle.simps)
    moreover have "\<forall>c \<in> set (the_store s'). faithful c"
      using settled(1) by (simp add: client_cancel(2) h' del: settle.simps)
    moreover have "\<forall>a. the_calls s' a \<noteq> None \<longrightarrow> a \<in># running_tasks (the_pool s')"
      using calls by (simp add: client_cancel(2))
    moreover have "done_for act ([XCancel b])" by (auto simp: client_cancel(1))
    ultimately show ?thesis by blast
  next
    case (worker_calls i idx b st h1 u1)
    have b: "b < length (the_store s)" using sinv worker_calls(3) by (rule running_bound)
    have run: "b \<in># running_tasks (the_pool s)" by (rule running_mem [OF worker_calls(3)])
    then have open_b: "b \<in># outstanding (the_pool s)" by (simp add: outstanding_def)
    then have "unsettled (the_store s ! b)" using sinv by (simp add: service_inv_def)
    from executor_call [where cs = "the_calls s", OF b this _ open_b worker_calls(4)] f b
    have h1: "h1 = the_store s" and "run (executor_step body) [XCall b] (executor_of s) = Some (executor_of s')"
      by (auto simp: worker_calls(2) executor_of_eq simp del: executor_step.simps)
    moreover have "\<forall>a. the_calls s' a \<noteq> None \<longrightarrow> a \<in># running_tasks (the_pool s')"
      using calls run by (simp add: worker_calls(2))
    moreover have "\<forall>c \<in> set (the_store s'). faithful c" using f h1 by (simp add: worker_calls(2))
    moreover have "done_for act ([XCall b])" by (auto simp: worker_calls(1))
    ultimately show ?thesis by blast
  next
    case (worker_ends i idx b p' h1 u1 h2)
    note work = executor_work(1) [OF worker_ends(4) pinv] executor_work(3) [OF worker_ends(4) pinv worker_ends(3)]
    have b: "b < length (the_store s)" using sinv worker_ends(3) by (rule running_bound)
    from executor_end [where cs = "the_calls s", OF f b worker_ends(5,6), of "outstanding p'" "executed (the_pool s)" "dropped (the_pool s)"]
    have "\<forall>c \<in> set (the_store s'). faithful c" and "run (executor_step body) [XEnd b] (executor_of s) = Some (executor_of s')"
      using work by (auto simp: worker_ends(2) executor_of_eq simp del: executor_step.simps)
    moreover have "a \<in># running_tasks p'" if "the_calls s a \<noteq> None" "a \<noteq> b" for a
      using calls [OF that(1)] that(2) running_end [OF worker_ends(4,3)] by simp
    then have "\<forall>a. the_calls s' a \<noteq> None \<longrightarrow> a \<in># running_tasks (the_pool s')"
      by (simp add: worker_ends(2))
    moreover have "done_for act ([XEnd b])" by (auto simp: worker_ends(1))
    ultimately show ?thesis by blast
  next
    case (worker_other i p')
    have "executor_of s' = executor_of s"
      using executor_work(1,2) [OF worker_other(4) pinv] worker_other(3) by (simp add: worker_other(2) executor_of_eq)
    moreover have "a \<in># running_tasks p'" if "the_calls s a \<noteq> None" for a
      using calls [OF that] running_other [OF worker_other(4,3)] by (rule mset_subset_eqD [rotated])
    then have "\<forall>a. the_calls s' a \<noteq> None \<longrightarrow> a \<in># running_tasks (the_pool s')" by (simp add: worker_other(2))
    moreover have "run (executor_step body) [] (executor_of s) = Some (executor_of s')"
      using \<open>executor_of s' = executor_of s\<close> by simp
    moreover have "\<forall>c \<in> set (the_store s'). faithful c" using f by (simp add: worker_other(2))
    moreover have "done_for act ([])" by (auto simp: worker_other(1))
    ultimately show ?thesis by blast
  next
    case (shutdown p')
    let ?as = "drops (the_pool s)"
    note join = executor_join [OF shutdown(3) pinv]
    have "\<forall>a \<in> set ?as. a < length (the_store s) \<and> the_calls s a = None"
      using outstanding_bound [OF sinv] join dropped_not_running [OF sinv shutdown(3)] calls by fastforce
    from drop_all_settles [OF f this, of body "the_rest s" "outstanding p'" "executed (the_pool s)" "dropped (the_pool s)"]
    have "\<forall>c \<in> set (the_store s'). faithful c" and
      "run (executor_step body) (map XLose ?as) (executor_of s) = Some (executor_of s')"
      using join by (auto simp: shutdown(2) executor_of_eq simp del: executor_step.simps)
    moreover have "\<forall>a. the_calls s' a \<noteq> None \<longrightarrow> a \<in># running_tasks (the_pool s')"
      using calls running_join [OF shutdown(3)] by (simp add: shutdown(2))
    moreover have "done_for act (map XLose ?as)" by (auto simp: shutdown(1))
    ultimately show ?thesis by blast
  qed
  moreover have "service_inv s'" using sinv step by (rule service_inv_step)
  ultimately show ?thesis by (simp add: executor_inv_def)
qed

interpretation executor_sim: relational_simulation "service_step body" service_start executor_inv
  "executor_step body" done_for executor_of for body
  by unfold_locales (use service_inv_start service_simulated in
    \<open>fastforce simp: executor_inv_def service_start_def\<close>, use service_simulated in blast, use service_simulated in blast)

subsection \<open>What an executor does\<close>

text \<open>What the call of a pipeline can come to: its functions one after the other, each with the result of
  the one before, at whatever states the other pipelines leave.\<close>

inductive call_value :: "('v, 'u) body \<Rightarrow> nat \<Rightarrow> ('v, 'u) call_state \<Rightarrow> bool" for body a where
  first_function: "fst (body a) () u = (r, u') \<Longrightarrow> call_value body a (r, snd (body a))"
| next_function: "call_value body a (Inr v, f # fs) \<Longrightarrow> f v u = (r, u') \<Longrightarrow> call_value body a (r, fs)"

definition run_settlement :: "('v, 'u) body \<Rightarrow> nat \<Rightarrow> 'v settlement \<Rightarrow> bool" where
  "run_settlement body a c \<longleftrightarrow>
     (\<exists>r fs. call_value body a (r, fs) \<and> call_final (r, fs) \<and> c = result_settlement r)"

text \<open>Every call is open, has been run or was lost, once; one that is no longer open has a status; and
  the status is that of a run of its pipeline, of a cancellation, if there was one (\<open>C\<close> are the calls
  that may be cancelled), or, for a lost one, of its loss.\<close>

fun status_ok :: "nat set \<Rightarrow> ('v, 'u) body \<Rightarrow> nat \<Rightarrow> bool \<Rightarrow> bool \<Rightarrow> 'v settlement option \<Rightarrow> bool" where
  "status_ok C body a is_open is_lost None = is_open"
| "status_ok C body a is_open is_lost (Some c) =
     (c = Cancel \<and> a \<in> C \<or> (c = Break \<and> is_lost) \<or> run_settlement body a c)"

definition executor_ok :: "nat set \<Rightarrow> ('v, 'u) body \<Rightarrow> ('v, 'u) executor \<Rightarrow> bool" where
  "executor_ok C body x \<longleftrightarrow>
     mset [0..<length (x_status x)] = x_open x + x_run x + x_lost x
     \<and> (\<forall>a < length (x_status x). status_ok C body a (a \<in># x_open x) (a \<in># x_lost x) (x_status x ! a))
     \<and> (\<forall>a st. x_calls x a = Some st \<longrightarrow> call_value body a st)"

lemma call_next_value:
  assumes "\<And>st. c = Some st \<Longrightarrow> call_value body a st \<and> \<not> call_final st" and "call_next body a c u = ((r, u'), fs)"
  shows "call_value body a (r, fs)"
  using assms
  by (cases "(body, a, c, u)" rule: call_next.cases) (auto intro: first_function next_function)

lemma executor_bound:
  assumes "executor_ok C body x" and "a \<in># x_open x"
  shows "a < length (x_status x)" and "a \<notin># x_open x - {#a#}"
proof -
  have all: "mset [0..<length (x_status x)] = x_open x + x_run x + x_lost x"
    using assms(1) by (simp add: executor_ok_def)
  with assms(2) have "a \<in># mset [0..<length (x_status x)]" by simp
  then show "a < length (x_status x)" by simp
  have "count (x_open x) a \<le> count (mset [0..<length (x_status x)]) a" by (simp only: all) simp
  also have "\<dots> \<le> 1" by (simp add: count_mset_set')
  finally show "a \<notin># x_open x - {#a#}" by (simp add: not_in_iff)
qed

lemma executor_leave:
  assumes "a \<in># x_open x" and "mset [0..<length (x_status x)] = x_open x + x_run x + x_lost x"
  shows "mset [0..<length (x_status x)] = x_open x - {#a#} + add_mset a (x_run x) + x_lost x"
    and "mset [0..<length (x_status x)] = x_open x - {#a#} + x_run x + add_mset a (x_lost x)"
  using assms by (metis insert_DiffM union_mset_add_mset_left union_mset_add_mset_right)+

lemma status_ok_other:
  "status_ok C body b op lo st \<Longrightarrow> (op \<Longrightarrow> op') \<Longrightarrow> (lo \<Longrightarrow> lo') \<Longrightarrow> status_ok C body b op' lo' st"
  by (cases st) auto

lemma settle_status_eq:
  "settle_status a c x = x\<lparr>x_status := (x_status x)[a := Some (case x_status x ! a of None \<Rightarrow> c | Some d \<Rightarrow> d)]\<rparr>"
proof (cases "x_status x ! a")
  case (Some d)
  then have "(x_status x)[a := Some d] = x_status x" by (metis list_update_id)
  with Some show ?thesis by (simp add: settle_status_def)
qed (simp add: settle_status_def)

text \<open>A call that leaves, with a status that it had or gets now.\<close>

lemma executor_ok_leave:
  assumes ok: "executor_ok C body x" and a: "a \<in># x_open x"
    and st: "status_ok C body a True (a \<in># lost) (Some d)" and lost: "set_mset (x_lost x) \<subseteq> set_mset lost"
    and all: "mset [0..<length (x_status x)] = x_open x - {#a#} + ru + lost"
    and cs: "\<And>b st. cs b = Some st \<Longrightarrow> x_calls x b = Some st"
  shows "executor_ok C body \<lparr>x_status = (x_status x)[a := Some d], x_rest = u, x_calls = cs, x_open = x_open x - {#a#},
    x_run = ru, x_lost = lost\<rparr>"
proof -
  have "status_ok C body b (b \<in># x_open x - {#a#}) (b \<in># lost) ((x_status x)[a := Some d] ! b)"
    if b: "b < length (x_status x)" for b
  proof (cases "b = a")
    case True
    with b st show ?thesis by simp
  next
    case False
    have "status_ok C body b (b \<in># x_open x) (b \<in># x_lost x) (x_status x ! b)" using ok b by (simp add: executor_ok_def)
    then have "status_ok C body b (b \<in># x_open x - {#a#}) (b \<in># lost) (x_status x ! b)"
      by (rule status_ok_other) (use False lost in \<open>auto simp: in_diff_count\<close>)
    with False show ?thesis by simp
  qed
  with all ok cs show ?thesis by (simp add: executor_ok_def del: mset_upt)
qed

lemma executor_ok_status:
  assumes "executor_ok C body x" and "a \<in># x_open x"
  shows "status_ok C body a True (a \<in># x_lost x) (x_status x ! a)"
proof -
  have "status_ok C body a (a \<in># x_open x) (a \<in># x_lost x) (x_status x ! a)"
    using assms(1) executor_bound(1) [OF assms] by (simp add: executor_ok_def)
  with assms(2) show ?thesis by simp
qed

lemma executor_ok_invoke:
  assumes "executor_ok C body x"
  shows "executor_ok C body (x\<lparr>x_status := x_status x @ [None], x_open := add_mset (length (x_status x)) (x_open x)\<rparr>)"
  using assms unfolding executor_ok_def
  by (auto simp: nth_append less_Suc_eq intro: status_ok_other simp del: mset_upt)

lemma executor_ok_cancel:
  assumes ok: "executor_ok C body x" and a: "a < length (x_status x)" and c: "a \<in> C"
  shows "executor_ok C body (settle_status a Cancel x)"
proof -
  have "status_ok C body b (b \<in># x_open x) (b \<in># x_lost x)
      ((x_status x)[a := Some (case x_status x ! a of None \<Rightarrow> Cancel | Some d \<Rightarrow> d)] ! b)"
    if "b < length (x_status x)" for b
  proof -
    have st: "status_ok C body b (b \<in># x_open x) (b \<in># x_lost x) (x_status x ! b)" using ok that by (simp add: executor_ok_def)
    with a c show ?thesis by (cases "b = a"; cases "x_status x ! a") auto
  qed
  with ok show ?thesis by (simp add: settle_status_eq executor_ok_def del: mset_upt)
qed

lemma executor_ok_call:
  assumes ok: "executor_ok C body x" and step: "executor_step body (XCall a) x = Some x'"
  shows "executor_ok C body x'"
proof -
  obtain r u' fs where next_call: "call_next body a (x_calls x a) (x_rest x) = ((r, u'), fs)" by (metis surj_pair)
  have "call_value body a (r, fs)"
    using next_call
    by (rule call_next_value [rotated]) (use ok step in \<open>auto simp: executor_ok_def may_call_def split: if_splits\<close>)
  with ok step next_call show ?thesis by (auto simp: executor_ok_def split: if_splits simp del: mset_upt)
qed

lemma executor_ok_end:
  assumes ok: "executor_ok C body x" and step: "executor_step body (XEnd a) x = Some x'"
  shows "executor_ok C body x'"
proof -
  have a: "a \<in># x_open x" and ended: "\<not> may_call a x" using step by (simp_all split: if_splits)
  have all: "mset [0..<length (x_status x)] = x_open x + x_run x + x_lost x" using ok by (simp add: executor_ok_def)
  obtain d where d: "status_ok C body a True (a \<in># x_lost x) (Some d)"
    and x': "x' = \<lparr>x_status = (x_status x)[a := Some d], x_rest = x_rest x, x_calls = (x_calls x)(a := None),
        x_open = x_open x - {#a#}, x_run = add_mset a (x_run x), x_lost = x_lost x\<rparr>"
  proof (cases "x_calls x a")
    case None
    with ended obtain d where d: "x_status x ! a = Some d" by (auto simp: may_call_def)
    then have "(x_status x)[a := Some d] = x_status x" by (metis list_update_id)
    with None step a ended show ?thesis
      by (intro that [of d]) (use executor_ok_status [OF ok a] d in \<open>simp, cases x, simp add: leave_def\<close>)
  next
    case (Some st)
    obtain r fs where st: "st = (r, fs)" by fastforce
    with Some ended ok have "call_value body a (r, fs)" "call_final (r, fs)"
      by (auto simp: may_call_def executor_ok_def)
    then have "run_settlement body a (result_settlement r)" unfolding run_settlement_def by blast
    with executor_ok_status [OF ok a] show ?thesis
      by (intro that [of "case x_status x ! a of None \<Rightarrow> result_settlement r | Some d \<Rightarrow> d"])
         (use Some st step a ended in \<open>auto simp: settle_status_eq leave_def split: option.splits\<close>)
  qed
  show ?thesis unfolding x'
    by (rule executor_ok_leave [OF ok a d subset_refl executor_leave(1) [OF a all]]) (simp split: if_splits)
qed

lemma executor_ok_lose:
  assumes ok: "executor_ok C body x" and step: "executor_step body (XLose a) x = Some x'"
  shows "executor_ok C body x'"
proof -
  have a: "a \<in># x_open x" using step by (simp split: if_splits)
  have all: "mset [0..<length (x_status x)] = x_open x + x_run x + x_lost x" using ok by (simp add: executor_ok_def)
  let ?d = "case x_status x ! a of None \<Rightarrow> Break | Some d \<Rightarrow> d"
  have d: "status_ok C body a True (a \<in># add_mset a (x_lost x)) (Some ?d)"
    using executor_ok_status [OF ok a] by (cases "x_status x ! a") auto
  have "x' = \<lparr>x_status = (x_status x)[a := Some ?d], x_rest = x_rest x, x_calls = x_calls x,
      x_open = x_open x - {#a#}, x_run = x_run x, x_lost = add_mset a (x_lost x)\<rparr>"
    using step a by (cases x) (auto simp: settle_status_eq split: if_splits)
  with executor_ok_leave [OF ok a d _ executor_leave(2) [OF a all]] show ?thesis by auto
qed

lemma executor_ok_step:
  assumes "executor_ok C body x" and "executor_step body act x = Some x'" and "\<And>a. act = XCancel a \<Longrightarrow> a \<in> C"
  shows "executor_ok C body x'"
proof (cases act)
  case XInvoke
  from executor_ok_invoke [OF assms(1)] show ?thesis using assms(2) unfolding XInvoke by simp
next
  case (XCancel a)
  with assms(2) have "a < length (x_status x)" "x' = settle_status a Cancel x" by (simp_all split: if_splits)
  with executor_ok_cancel [OF assms(1)] assms(3) XCancel show ?thesis by simp
next
  case (XCall a)
  from executor_ok_call [OF assms(1) assms(2) [unfolded XCall]] show ?thesis .
next
  case (XEnd a)
  from executor_ok_end [OF assms(1) assms(2) [unfolded XEnd]] show ?thesis .
next
  case (XLose a)
  from executor_ok_lose [OF assms(1) assms(2) [unfolded XLose]] show ?thesis .
qed

lemma executor_ok_new: "executor_ok C body (executor_new u)"
  by (simp add: executor_ok_def executor_new_def)

text \<open>An executor in which only the calls of \<open>C\<close> are cancelled.\<close>

definition cancelling :: "nat set \<Rightarrow> ('v, 'u) body \<Rightarrow> executor_act \<Rightarrow> ('v, 'u) executor \<Rightarrow> ('v, 'u) executor option" where
  "cancelling C body act x =
     (if (case act of XCancel a \<Rightarrow> a \<in> C | _ \<Rightarrow> True) then executor_step body act x else None)"

lemma cancellingD:
  assumes "cancelling C body act x = Some x'"
  shows "executor_step body act x = Some x' \<and> (\<forall>a. act = XCancel a \<longrightarrow> a \<in> C)"
  using assms by (cases act) (simp_all add: cancelling_def del: executor_step.simps split: if_splits)

interpretation executor: invariant_system "cancelling C body" "\<lambda>x. \<exists>u. x = executor_new u" "executor_ok C body"
  for C body
  by unfold_locales (elim exE, simp only: executor_ok_new, blast dest: cancellingD intro: executor_ok_step)

lemma cancelling_run:
  assumes "\<And>a. XCancel a \<in> set xs \<Longrightarrow> a \<in> C"
  shows "run (cancelling C body) xs x = run (executor_step body) xs x"
  using assms
proof (induction xs arbitrary: x)
  case (Cons act xs)
  have "cancelling C body act x = executor_step body act x" using Cons.prems by (auto simp: cancelling_def split: executor_act.splits)
  with Cons show ?case by (auto split: option.splits)
qed simp

lemma done_cancels:
  assumes "list_all2 done_for as xss" and "XCancel a \<in> set (concat xss)"
  shows "ClientCancel a \<in> set as"
  using assms
proof (induction rule: list_all2_induct)
  case (Cons act as xs xss)
  then show ?case by (cases act) auto
qed simp

subsection \<open>The pool inside the service\<close>

lemma service_step_pool:
  "service_step body a s s' \<Longrightarrow> the_pool s' = the_pool s \<or> (\<exists>b. pool_step b (the_pool s) (the_pool s'))"
  by (cases rule: service_step.cases) auto

lemma service_reaches_pool:
  "reaches (service_step body) s0 s \<Longrightarrow> reaches pool_step (the_pool s0) (the_pool s)"
proof (induction rule: reaches.induct)
  case (reaches_step s a s')
  from service_step_pool [OF reaches_step(2)] reaches_step(3) show ?case
    by (metis reaches.reaches_step)
qed (rule reaches_start)

text \<open>The functions of the pipelines do not stop a worker.\<close>

lemma service_worker_moves:
  assumes inv: "service_inv s" and step: "pool_step (Work i) (the_pool s) p'"
  shows "\<exists>s'. service_step body (Worker i) s s'"
proof (cases "is_running (the_pool s) i")
  case True
  then obtain idx a where w: "worker_is (the_pool s) i (Running idx a)" by blast
  have a: "a < length (the_store s)" by (rule running_bound [OF inv w])
  obtain o1 h1 u1 where call: "call_step body a (the_calls s a) (the_store s, the_rest s) = (o1, (h1, u1))"
    by (metis surj_pair)
  show ?thesis
  proof (cases o1)
    case (Continues st)
    with worker_calls [OF w] call show ?thesis by blast
  next
    case (Ends c)
    from call_step_ends [OF a call [unfolded Ends]] obtain cell where "c = Normal" "h1 = (the_store s)[a := cell]" by blast
    then have "drop_task (promise_at a) h1 = Some (h1[a := broken (h1 ! a)])" using a by (simp add: drop_task_eq)
    from worker_ends [OF w step _ this] call Ends \<open>c = Normal\<close> show ?thesis by blast
  qed
next
  case False
  with worker_other [OF False step] show ?thesis by blast
qed

text \<open>What the calls in execution have left.\<close>

definition calls_left :: "('v, 'u) body \<Rightarrow> ('v, 'u) service \<Rightarrow> nat" where
  "calls_left body s = (\<Sum>a \<in># running_tasks (the_pool s). call_left body a (the_calls s a))"

lemma service_work_measure:
  assumes "pool_inv (the_pool s)" and "service_step body (Worker i) s s'"
  shows "pool_measure (the_pool s') < pool_measure (the_pool s)
    \<or> the_pool s' = the_pool s \<and> calls_left body s' < calls_left body s"
  using assms(2)
proof (cases rule: service_step.cases)
  case (worker_calls idx a st h1 u1)
  obtain M where M: "running_tasks (the_pool s) = add_mset a M"
    using running_mem [OF worker_calls(2)] by (metis mset_add)
  have less: "call_left body a (Some st) < call_left body a (the_calls s a)"
    using worker_calls(3) by (rule call_step_left)
  have "call_left body b (((the_calls s)(a \<mapsto> st)) b) \<le> call_left body b (the_calls s b)" for b
    using less by simp
  then have "(\<Sum>b \<in># M. call_left body b (((the_calls s)(a \<mapsto> st)) b)) \<le> (\<Sum>b \<in># M. call_left body b (the_calls s b))"
    by (intro sum_mset_mono)
  with less have "calls_left body s' < calls_left body s"
    by (simp add: calls_left_def worker_calls(1) M del: mset_concat fun_upd_apply) simp
  then show ?thesis by (simp add: worker_calls(1))
qed (use assms(1) measure_step [of "Work i" "the_pool s"] in auto)

text \<open>A future of a faithful store gets what the executor says.\<close>

lemma executor_get:
  assumes "executor_inv s" and "a < length (the_store s)"
  shows "case x_status (executor_of s) ! a of
      None \<Rightarrow> future_get moved (get_future (promise_at a)) (the_store s) = Blocked
    | Some c \<Rightarrow> \<exists>h'. future_get moved (get_future (promise_at a)) (the_store s) = Result (settled_get c) h'"
  using faithful_get [of "the_store s" a moved] assms by (simp add: executor_of_def executor_inv_def)

lemma executor_of_start:
  assumes "service_start s"
  shows "executor_of s = executor_new (the_rest s)"
proof -
  have inv: "service_inv s" by (rule service_inv_start [OF assms])
  then have "outstanding (the_pool s) + finished (the_pool s) = {#}"
    using assms conservation [of "the_pool s"] by (simp add: service_inv_def service_start_def)
  with assms show ?thesis by (auto simp: executor_of_def executor_new_def service_start_def finished_def)
qed

text \<open>The calls cancelled in a run of the service.\<close>

abbreviation cancels :: "service_act list \<Rightarrow> nat set" where
  "cancels as \<equiv> {a. ClientCancel a \<in> set as}"

lemma service_executor:
  assumes "trace (service_step body) s0 as s" and "service_start s0"
  shows "executor_inv s"
    and "\<exists>xss. list_all2 done_for as xss
      \<and> run (executor_step body) (concat xss) (executor_new (the_rest s0)) = Some (executor_of s)"
    and "executor_ok (cancels as) body (executor_of s)"
proof -
  show "executor_inv s" by (rule executor_sim.inv_reaches [OF trace_reaches [OF assms(1)] assms(2)])
  from executor_sim.sim_trace [OF assms] obtain xss where xss: "list_all2 done_for as xss"
      "run (executor_step body) (concat xss) (executor_new (the_rest s0)) = Some (executor_of s)"
    by (auto simp: executor_of_start [OF assms(2)])
  then show "\<exists>xss. list_all2 done_for as xss
      \<and> run (executor_step body) (concat xss) (executor_new (the_rest s0)) = Some (executor_of s)" by blast
  have "run (cancelling (cancels as) body) (concat xss) (executor_new (the_rest s0)) = Some (executor_of s)"
    using xss done_cancels [OF xss(1)] by (subst cancelling_run) auto
  then show "executor_ok (cancels as) body (executor_of s)" by (rule executor.inv_run) blast
qed

text \<open>Until its task has ended nothing but a client's cancellation settles a future.\<close>

lemma outstanding_state:
  assumes inv: "executor_inv s" and ok: "executor_ok C body (executor_of s)" and out: "a \<in># outstanding (the_pool s)"
  shows "shared_state.m_state (the_store s ! a) = Init \<or> shared_state.m_state (the_store s ! a) = Canceled \<and> a \<in> C"
proof -
  have sinv: "service_inv s" using inv by (simp add: executor_inv_def)
  then have a: "a < length (the_store s)" using out by (intro outstanding_bound [OF sinv]) simp
  have "a \<in> C" if "shared_state.m_state (the_store s ! a) = Canceled"
  proof -
    have "status_of (the_store s ! a) = Some Cancel" using that by (simp add: status_of_def)
    moreover have "result_settlement r \<noteq> Cancel" for r :: "'a result" by (cases r) simp_all
    then have "\<not> run_settlement body a Cancel" unfolding run_settlement_def by metis
    ultimately show ?thesis using ok a by (auto simp: executor_ok_def executor_of_def)
  qed
  moreover have "unsettled (the_store s ! a)" using sinv out by (simp add: service_inv_def)
  ultimately show ?thesis by (auto simp: unsettled_def)
qed

text \<open>When no worker can move and nothing was lost, everything has been run, once.\<close>

lemma executor_all_run:
  assumes "executor_ok C body x" and "x_open x = {#}" and "x_lost x = {#}" and a: "a < length (x_status x)"
  shows "count (x_run x) a = 1 \<and> (\<exists>c. x_status x ! a = Some c \<and> (c = Cancel \<and> a \<in> C \<or> run_settlement body a c))"
proof -
  have "count (x_run x) a = count (mset [0..<length (x_status x)]) a"
    using assms(1-3) by (simp add: executor_ok_def del: mset_upt)
  moreover have "status_ok C body a False False (x_status x ! a)" using assms by (simp add: executor_ok_def)
  ultimately show ?thesis using a by (cases "x_status x ! a") (auto simp: count_mset_set')
qed

end
