(* ===== verification/SpecialMembers.thy ===== *)
theory SpecialMembers
  imports PipelineTypes
begin

section \<open>Copying and moving the library's classes\<close>

text \<open>
  Which of the library's objects can be copied and moved is decided by what each class declares
  and by its bases and members. A class is what it declares for its special member functions and
  the list of its subobjects; template parameters are parameters here too. The rules of the
  language give what can be copied, moved and assigned. What the operations do is modelled with
  the components; here it is shown that no owner of a resource can be duplicated, and that the
  copyability that theory \<open>PipelineTypes\<close> relies on is that of the declarations.
\<close>

subsection \<open>Declarations and the rules of the language\<close>

text \<open>\<open>Broken\<close> is a member function of a class template that is declared, and so is found, but whose body
  does not compile when it is used.\<close>

datatype declared = Implicit | Default | Delete | Provided | Broken

record special =
  copy_ctor :: declared
  move_ctor :: declared
  copy_assign :: declared
  move_assign :: declared
  destructor :: bool   \<comment> \<open>whether the class declares one\<close>

text \<open>A class of the library, or a type known by what can be done with it: copy construction, move
  construction, copy and move assignment.\<close>

datatype cls = Known bool bool bool bool | Declares special "cls list"

fun copies :: "cls \<Rightarrow> bool" where
  "copies (Known c m ca ma) = c"
| "copies (Declares d subs) =
     (case copy_ctor d of
        Provided \<Rightarrow> True
      | Broken \<Rightarrow> False
      | Delete \<Rightarrow> False
      | Default \<Rightarrow> \<forall>x \<in> set subs. copies x
      | Implicit \<Rightarrow> move_ctor d = Implicit \<and> move_assign d = Implicit \<and> (\<forall>x \<in> set subs. copies x))"

text \<open>Move construction falls back on copying when there is no move constructor, or a defaulted one
  that cannot be generated.\<close>

fun moves :: "cls \<Rightarrow> bool" where
  "moves (Known c m ca ma) = m"
| "moves (Declares d subs) =
     (case move_ctor d of
        Provided \<Rightarrow> True
      | Broken \<Rightarrow> False
      | Delete \<Rightarrow> False
      | Default \<Rightarrow> (\<forall>x \<in> set subs. moves x) \<or> copies (Declares d subs)
      | Implicit \<Rightarrow>
          copies (Declares d subs)
          \<or> copy_ctor d = Implicit \<and> copy_assign d = Implicit \<and> move_assign d = Implicit \<and> \<not> destructor d
            \<and> (\<forall>x \<in> set subs. moves x))"

fun copy_assigns :: "cls \<Rightarrow> bool" where
  "copy_assigns (Known c m ca ma) = ca"
| "copy_assigns (Declares d subs) =
     (case copy_assign d of
        Provided \<Rightarrow> True
      | Broken \<Rightarrow> False
      | Delete \<Rightarrow> False
      | Default \<Rightarrow> \<forall>x \<in> set subs. copy_assigns x
      | Implicit \<Rightarrow> move_ctor d = Implicit \<and> move_assign d = Implicit \<and> (\<forall>x \<in> set subs. copy_assigns x))"

fun move_assigns :: "cls \<Rightarrow> bool" where
  "move_assigns (Known c m ca ma) = ma"
| "move_assigns (Declares d subs) =
     (case move_assign d of
        Provided \<Rightarrow> True
      | Broken \<Rightarrow> False
      | Delete \<Rightarrow> False
      | Default \<Rightarrow> (\<forall>x \<in> set subs. move_assigns x) \<or> copy_assigns (Declares d subs)
      | Implicit \<Rightarrow>
          copy_assigns (Declares d subs)
          \<or> copy_ctor d = Implicit \<and> copy_assign d = Implicit \<and> move_ctor d = Implicit \<and> \<not> destructor d
            \<and> (\<forall>x \<in> set subs. move_assigns x))"

definition plain :: special where
  "plain = \<lparr>copy_ctor = Implicit, move_ctor = Implicit, copy_assign = Implicit, move_assign = Implicit,
            destructor = False\<rparr>"

subsection \<open>Types of the standard library and built-in types\<close>

abbreviation value_type :: cls where   \<comment> \<open>integers, pointers, enumerations, \<open>sockaddr_un\<close>\<close>
  "value_type \<equiv> Known True True True True"

abbreviation const_member :: cls where   \<comment> \<open>a \<open>const\<close> data member\<close>
  "const_member \<equiv> Known True True False False"

abbreviation pinned :: cls where   \<comment> \<open>\<open>std::mutex\<close>, \<open>std::condition_variable\<close>, \<open>std::atomic\<close>\<close>
  "pinned \<equiv> Known False False False False"

abbreviation std_shared_ptr :: cls where
  "std_shared_ptr \<equiv> Known True True True True"

text \<open>\<open>std::vector\<close> moves by exchanging its buffer, and copies its elements.\<close>

definition std_vector :: "cls \<Rightarrow> cls" where
  "std_vector x = Known (copies x) True (copies x \<and> copy_assigns x) True"

definition std_optional :: "cls \<Rightarrow> cls" where
  "std_optional x =
     Known (copies x) (moves x) (copies x \<and> copy_assigns x) (moves x \<and> move_assigns x)"

subsection \<open>Handles, addresses and sockets\<close>

text \<open>The move assignment of \<open>basic_handle\<close> compares a pointer with an object, which has no \<open>!=\<close>, and
  returns nothing.\<close>

definition basic_handle_class :: "cls \<Rightarrow> cls" where
  "basic_handle_class native =
     Declares \<lparr>copy_ctor = Delete, move_ctor = Provided, copy_assign = Delete, move_assign = Broken,
               destructor = True\<rparr> [native]"

text \<open>What the socket classes declare: no copies, defaulted moves.\<close>

definition move_only :: special where
  "move_only = \<lparr>copy_ctor = Delete, move_ctor = Default, copy_assign = Delete, move_assign = Default,
                destructor = True\<rparr>"

definition basic_socket_class :: "cls \<Rightarrow> cls" where
  "basic_socket_class native = Declares move_only [basic_handle_class native, Declares plain []]"

definition basic_stream_socket_class :: "cls \<Rightarrow> cls" where
  "basic_stream_socket_class native = Declares move_only [basic_socket_class native]"

definition stream_socket_class :: "cls \<Rightarrow> cls" where
  "stream_socket_class native = Declares move_only [basic_stream_socket_class native]"

definition stream_server_socket_class :: "cls \<Rightarrow> cls" where
  "stream_server_socket_class native = Declares move_only [basic_stream_socket_class native]"

definition datagram_socket_class :: "cls \<Rightarrow> cls" where
  "datagram_socket_class native = Declares move_only [basic_socket_class native]"

definition basic_address_class :: "cls \<Rightarrow> cls" where
  "basic_address_class native =
     Declares \<lparr>copy_ctor = Default, move_ctor = Default, copy_assign = Default, move_assign = Default,
               destructor = True\<rparr> [native]"

definition basic_ipc_address_class :: "cls \<Rightarrow> cls" where
  "basic_ipc_address_class native = Declares plain [basic_address_class native]"

subsection \<open>Concurrency\<close>

definition future_result_class :: "cls \<Rightarrow> cls" where
  "future_result_class v = Declares plain [std_optional v]"

definition shared_state_class :: "cls \<Rightarrow> cls" where
  "shared_state_class v =
     Declares plain [pinned, pinned, Known (copies v) (moves v) (copy_assigns v) (move_assigns v), pinned]"

definition future_class :: cls where
  "future_class = Declares move_only [std_shared_ptr]"

definition promise_class :: cls where
  "promise_class = Declares move_only [std_shared_ptr]"

definition no_copy_no_move :: special where
  "no_copy_no_move = \<lparr>copy_ctor = Delete, move_ctor = Delete, copy_assign = Delete, move_assign = Delete,
                      destructor = False\<rparr>"

definition latch_class :: cls where
  "latch_class = Declares no_copy_no_move [pinned, pinned, pinned]"

definition queue_class :: "cls \<Rightarrow> cls" where
  "queue_class container = Declares plain [value_type, container, pinned, pinned]"

definition rr_scheduler_class :: "cls \<Rightarrow> cls" where
  "rr_scheduler_class container =
     Declares plain [std_vector (queue_class container), pinned, pinned]"

definition adapter_class :: cls where
  "adapter_class = Declares plain [const_member]"

definition thread_pool_class :: "cls \<Rightarrow> cls" where
  "thread_pool_class scheduler =
     Declares (no_copy_no_move\<lparr>destructor := True\<rparr>) [const_member, Known False True False True, scheduler]"

definition callback_receiver_class :: "cls \<Rightarrow> cls \<Rightarrow> cls \<Rightarrow> cls" where
  "callback_receiver_class c e x =
     Declares (plain\<lparr>move_ctor := Provided, destructor := True\<rparr>) [pinned, c, e, x]"

definition value_receiver_class :: cls where
  "value_receiver_class = Declares (plain\<lparr>copy_ctor := Provided, destructor := True\<rparr>) [std_shared_ptr]"

definition receiver_adapter_class :: "cls \<Rightarrow> cls \<Rightarrow> cls" where
  "receiver_adapter_class r f = Declares plain [r, f]"

definition sender_adapter_class :: "cls \<Rightarrow> cls \<Rightarrow> cls" where
  "sender_adapter_class s f = Declares plain [s, f]"

definition composite_state_class :: "cls \<Rightarrow> cls" where
  "composite_state_class state = Declares plain [state]"

definition schedule_state_class :: "cls \<Rightarrow> cls \<Rightarrow> cls" where
  "schedule_state_class r scheduler = Declares plain [r, scheduler]"

definition schedule_sender_class :: "cls \<Rightarrow> cls" where
  "schedule_sender_class scheduler = Declares plain [scheduler]"

lemmas class_defs =
  basic_handle_class_def move_only_def basic_socket_class_def basic_stream_socket_class_def
  stream_socket_class_def stream_server_socket_class_def datagram_socket_class_def basic_address_class_def
  basic_ipc_address_class_def future_result_class_def shared_state_class_def future_class_def
  promise_class_def no_copy_no_move_def latch_class_def queue_class_def rr_scheduler_class_def
  adapter_class_def thread_pool_class_def callback_receiver_class_def value_receiver_class_def
  receiver_adapter_class_def sender_adapter_class_def composite_state_class_def schedule_state_class_def
  schedule_sender_class_def plain_def std_vector_def std_optional_def

subsection \<open>The classes of a receiver and of its task\<close>

definition function_class :: "program \<Rightarrow> cpp_type \<Rightarrow> cls" where
  "function_class P f = Known (type_copyable P f) True (type_copyable P f) True"

fun receiver_class :: "program \<Rightarrow> receiver_type \<Rightarrow> cls" where
  "receiver_class P (CallbackReceiver v c e x) =
     callback_receiver_class (function_class P c) (function_class P e) (function_class P x)"
| "receiver_class P (ValueReceiver v) = value_receiver_class"
| "receiver_class P (ReceiverAdapter r f) = receiver_adapter_class (receiver_class P r) (function_class P f)"

lemma receiver_class_copies: "copies (receiver_class P r) = receiver_copyable P r"
  by (induction r) (simp_all add: class_defs function_class_def)

lemma receiver_class_moves: "moves (receiver_class P r)"
  by (induction r) (simp_all add: class_defs function_class_def)

subsection \<open>Properties\<close>

text \<open>What can be duplicated. Promises and futures can be moved and move-assigned but not copied; handles
  and all sockets can be moved, but neither copied nor, as the assignment of \<open>basic_handle\<close> does
  not compile, assigned; latches, queues, schedulers, pools and shared states can
  be neither copied nor moved; addresses, the scheduler's adapter and value receivers can be
  copied; and the task of a pipeline, which holds its receivers and the scheduler, can always
  be moved, and copied exactly when the receiver, its functions and the scheduler can.\<close>

lemma ownership_types:
  "list_all (\<lambda>c. moves c \<and> move_assigns c \<and> \<not> copies c \<and> \<not> copy_assigns c) [promise_class, future_class]
   \<and> list_all (\<lambda>c. moves c \<and> \<not> move_assigns c \<and> \<not> copies c \<and> \<not> copy_assigns c)
     [basic_handle_class native, basic_socket_class native, basic_stream_socket_class native,
      stream_socket_class native, stream_server_socket_class native, datagram_socket_class native]
   \<and> list_all (\<lambda>c. \<not> moves c \<and> \<not> move_assigns c \<and> \<not> copies c \<and> \<not> copy_assigns c)
     [latch_class, queue_class container, rr_scheduler_class container, thread_pool_class scheduler,
      shared_state_class v]
   \<and> list_all (\<lambda>c. moves c \<and> copies c)
     [basic_address_class value_type, basic_ipc_address_class value_type, adapter_class, value_receiver_class]
   \<and> moves (schedule_state_class (receiver_class P r) (function_class P s))
   \<and> copies (schedule_state_class (receiver_class P r) (function_class P s)) =
       (receiver_copyable P r \<and> type_copyable P s)"
  using receiver_class_moves [of P r] receiver_class_copies [of P r]
  by (simp add: class_defs function_class_def)

end
