(* ===== verification/SocketEnums.thy ===== *)
theory SocketEnums
  imports Prelude
begin

section \<open>Socket enumerations (\<open>socket_family\<close>, \<open>socket_type\<close>, \<open>socket_protocol\<close>, \<open>shutdown_mode\<close>)\<close>

text \<open>
  The scoped enumerations of \<open>jar::com\<close> have the underlying type \<open>int\<close>, so an object can also hold a
  value that is none of the enumerators; that is the last constructor of each datatype. The
  output operators write to a stream, which is its text and its \<open>failbit\<close>; writing to a stream
  that has failed has no effect.
\<close>

datatype socket_family = ipc | ipv4 | ipv6 | OtherFamily int

datatype socket_type = stream | datagram | OtherType int

datatype socket_protocol = unspecified | OtherProtocol int

datatype shutdown_mode = receive | send | both | OtherMode int

subsection \<open>\<open>to_integral\<close>\<close>

fun family_to_integral :: "socket_family \<Rightarrow> int" where
  "family_to_integral ipc = 1"
| "family_to_integral ipv4 = 2"
| "family_to_integral ipv6 = 10"
| "family_to_integral (OtherFamily i) = i"

fun type_to_integral :: "socket_type \<Rightarrow> int" where
  "type_to_integral stream = 1"
| "type_to_integral datagram = 2"
| "type_to_integral (OtherType i) = i"

fun protocol_to_integral :: "socket_protocol \<Rightarrow> int" where
  "protocol_to_integral unspecified = 0"
| "protocol_to_integral (OtherProtocol i) = i"

fun mode_to_integral :: "shutdown_mode \<Rightarrow> int" where
  "mode_to_integral receive = 0"
| "mode_to_integral send = 1"
| "mode_to_integral both = 2"
| "mode_to_integral (OtherMode i) = i"

subsection \<open>Output\<close>

record ostream =
  contents :: string
  failbit :: bool

definition put :: "ostream \<Rightarrow> string \<Rightarrow> ostream" where
  "put os s = (if failbit os then os else os\<lparr>contents := contents os @ s\<rparr>)"

definition set_failbit :: "ostream \<Rightarrow> ostream" where
  "set_failbit os = os\<lparr>failbit := True\<rparr>"

fun print_family :: "ostream \<Rightarrow> socket_family \<Rightarrow> ostream" where
  "print_family os ipc = put os ''IPC''"
| "print_family os ipv4 = put os ''IPv4''"
| "print_family os ipv6 = put os ''IPv6''"
| "print_family os (OtherFamily i) = set_failbit os"

fun print_type :: "ostream \<Rightarrow> socket_type \<Rightarrow> ostream" where
  "print_type os stream = put os ''stream''"
| "print_type os datagram = put os ''datagram''"
| "print_type os (OtherType i) = set_failbit os"

fun print_protocol :: "ostream \<Rightarrow> socket_protocol \<Rightarrow> ostream" where
  "print_protocol os unspecified = put os ''unspecified''"
| "print_protocol os (OtherProtocol i) = set_failbit os"

fun print_mode :: "ostream \<Rightarrow> shutdown_mode \<Rightarrow> ostream" where
  "print_mode os receive = put os ''receive''"
| "print_mode os send = put os ''send''"
| "print_mode os both = put os ''both''"
| "print_mode os (OtherMode i) = set_failbit os"

subsection \<open>Printing and reading back\<close>

text \<open>The names are unambiguous: what a good stream holds after printing determines the
  enumerator.\<close>

definition read_back :: "(ostream \<Rightarrow> 'e \<Rightarrow> ostream) \<Rightarrow> 'e list \<Rightarrow> ostream \<Rightarrow> ostream \<Rightarrow> 'e option" where
  "read_back print_e enumerators os os' = find (\<lambda>e. print_e os e = os') enumerators"

lemma put_eq_iff: "\<not> failbit os \<Longrightarrow> put os s = put os t \<longleftrightarrow> s = t"
  by (cases os) (auto simp: put_def)

lemma put_not_fail: "\<not> failbit os \<Longrightarrow> put os s \<noteq> set_failbit os" "\<not> failbit os \<Longrightarrow> set_failbit os \<noteq> put os s"
  by (cases os; simp add: put_def set_failbit_def)+

lemma put_failbit [simp]: "failbit (put os s) = failbit os"
  by (simp add: put_def)

text \<open>Printing is faithful. On a good stream an enumerator prints a name from which it can be
  read back, and the stream stays good; a value that is no enumerator prints nothing and sets
  \<open>failbit\<close>; \<open>to_integral\<close> tells enumerators apart.\<close>

theorem enums_print_roundtrip:
  assumes "\<not> failbit os"
  shows "(if f \<in> {ipc, ipv4, ipv6}
          then read_back print_family [ipc, ipv4, ipv6] os (print_family os f) = Some f \<and> \<not> failbit (print_family os f)
          else print_family os f = os\<lparr>failbit := True\<rparr>)
    \<and> (if t \<in> {stream, datagram}
       then read_back print_type [stream, datagram] os (print_type os t) = Some t \<and> \<not> failbit (print_type os t)
       else print_type os t = os\<lparr>failbit := True\<rparr>)
    \<and> (if p = unspecified
       then read_back print_protocol [unspecified] os (print_protocol os p) = Some p \<and> \<not> failbit (print_protocol os p)
       else print_protocol os p = os\<lparr>failbit := True\<rparr>)
    \<and> (if m \<in> {receive, send, both}
       then read_back print_mode [receive, send, both] os (print_mode os m) = Some m \<and> \<not> failbit (print_mode os m)
       else print_mode os m = os\<lparr>failbit := True\<rparr>)
    \<and> inj_on family_to_integral {ipc, ipv4, ipv6} \<and> inj_on type_to_integral {stream, datagram}
    \<and> inj_on mode_to_integral {receive, send, both}"
  using assms
  by (cases f; cases t; cases p; cases m)
     (simp_all add: read_back_def put_eq_iff put_not_fail set_failbit_def)

theorem enums_print_roundtrip_witness:
  "read_back print_family [ipc, ipv4, ipv6] \<lparr>contents = [], failbit = False\<rparr>
     (print_family \<lparr>contents = [], failbit = False\<rparr> ipv6) = Some ipv6"
  using enums_print_roundtrip [of "\<lparr>contents = [], failbit = False\<rparr>" ipv6 stream unspecified both] by simp

end
