(* ===== verification/IpcAddress.thy ===== *)
theory IpcAddress
  imports Contract
begin

section \<open>IPC addresses (\<open>posix/ipc_address.hpp\<close>, \<open>basic_address.hpp\<close>, \<open>basic_ipc_address.hpp\<close>)\<close>

text \<open>
  The address of a local socket: a \<open>sockaddr_un\<close>, whose \<open>sun_path\<close> is a fixed array of characters
  that holds a C string. The size of the array, \<open>AF_LOCAL\<close> and \<open>ENOENT\<close> belong to the platform
  and are arguments, in the record \<open>platform\<close>. \<open>basic_address\<close> and \<open>basic_ipc_address\<close> hold a
  \<open>sockaddr_un\<close> and forward to these functions, so an address is modelled by its \<open>m_address\<close>.
\<close>

subsection \<open>The native address\<close>

record platform =
  af_local :: int
  sun_path_size :: nat
  sizeof_sockaddr_un :: size_t
  enoent :: int
  o_nonblock :: int
  somaxconn :: int
  msg_nosignal :: int

record sockaddr_un =
  sun_family :: int
  sun_path :: string

abbreviation NUL :: char where
  "NUL \<equiv> CHR 0x00"

definition max_length :: "platform \<Rightarrow> nat" where
  "max_length pf = sun_path_size pf - 1"

text \<open>The loop \<open>for (i = 0; i < socket_path.size(); ++i)\<close>.\<close>

function copy_path :: "string \<Rightarrow> nat \<Rightarrow> string \<Rightarrow> string" where
  "copy_path socket_path i path =
     (if i < length socket_path then copy_path socket_path (i + 1) (path[i := socket_path ! i]) else path)"
  by auto
termination by (relation "measure (\<lambda>(socket_path, i, path). length socket_path - i)") auto

definition zero_address :: "platform \<Rightarrow> sockaddr_un" where
  "zero_address pf = \<lparr>sun_family = 0, sun_path = replicate (sun_path_size pf) NUL\<rparr>"

definition construct :: "platform \<Rightarrow> string \<Rightarrow> sockaddr_un result" where
  "construct pf socket_path =
     result_bind (not_greater (length socket_path) (max_length pf) ''socket path is too long'')
       (\<lambda>_. let ipc_address = zero_address pf;
                ipc_address = ipc_address\<lparr>sun_path := copy_path socket_path 0 (sun_path ipc_address)\<rparr>
            in Inr (ipc_address\<lparr>sun_family := af_local pf\<rparr>))"

text \<open>\<open>std::string_view{const char*}\<close> reads up to the first NUL; without one it reads past the array,
  which is undefined (\<open>None\<close>).\<close>

definition c_string :: "string \<Rightarrow> string option" where
  "c_string cs = (if NUL \<in> set cs then Some (takeWhile (\<lambda>c. c \<noteq> NUL) cs) else None)"

text \<open>\<open>to_string_view\<close> takes the address by value, so the view it returns points into a parameter that
  no longer exists. Its size was computed before and is right; reading its characters gives
  whatever is in that storage: \<open>stale\<close> says what, the language does not. \<open>length\<close> uses the size only.\<close>

record string_view =
  view_size :: nat
  view_data :: string

definition to_string_view :: "(string \<Rightarrow> string) \<Rightarrow> sockaddr_un \<Rightarrow> string_view option" where
  "to_string_view stale address =
     map_option (\<lambda>path. \<lparr>view_size = length path, view_data = stale path\<rparr>) (c_string (sun_path address))"

definition address_length :: "sockaddr_un \<Rightarrow> nat option" where
  "address_length address = map_option view_size (to_string_view (\<lambda>path. path) address)"

text \<open>\<open>equal\<close> takes its arguments by reference.\<close>

definition equal :: "sockaddr_un \<Rightarrow> sockaddr_un \<Rightarrow> bool option" where
  "equal lh rh =
     (case (c_string (sun_path lh), c_string (sun_path rh)) of
        (Some l, Some r) \<Rightarrow> Some (l = r)
      | _ \<Rightarrow> None)"

text \<open>\<open>unlink\<close> of the address's view: the system call, with its return value and \<open>errno\<close>, gets the data.\<close>

definition unlink_address ::
  "platform \<Rightarrow> (string \<Rightarrow> string) \<Rightarrow> (string \<Rightarrow> 'k \<Rightarrow> (int \<times> int) \<times> 'k) \<Rightarrow> sockaddr_un \<Rightarrow> 'k \<Rightarrow> unit result \<times> 'k" where
  "unlink_address pf stale unlink address k =
     (case to_string_view stale address of
        None \<Rightarrow> (Inl (RuntimeError ''undefined behaviour''), k)
      | Some socket_path \<Rightarrow>
          (case not_zero (view_size socket_path) ''address cannot be empty'' of
             Inl e \<Rightarrow> (Inl e, k)
           | Inr _ \<Rightarrow>
               (let ((ret, errno), k') = unlink (view_data socket_path) k
                in (no_system_error_other_than (-1) errno ret [enoent pf], k'))))"

subsection \<open>\<open>basic_address\<close> and \<open>basic_ipc_address\<close>\<close>

definition basic_address_default :: "platform \<Rightarrow> sockaddr_un" where
  "basic_address_default pf = zero_address pf"

definition basic_address_equal :: "sockaddr_un \<Rightarrow> sockaddr_un \<Rightarrow> bool option" where
  "basic_address_equal lh rh = equal lh rh"

definition basic_address_not_equal :: "sockaddr_un \<Rightarrow> sockaddr_un \<Rightarrow> bool option" where
  "basic_address_not_equal lh rh = map_option Not (basic_address_equal lh rh)"

text \<open>The forwarding constructor, the defaulted copy, \<open>max_length\<close> and the destructor, which hands the
  address to \<open>ipc_address::destroy\<close>, a function that does nothing with it.\<close>

definition basic_address_new :: "platform \<Rightarrow> string \<Rightarrow> sockaddr_un result" where
  "basic_address_new pf args = construct pf args"

definition basic_address_copy :: "sockaddr_un \<Rightarrow> sockaddr_un" where
  "basic_address_copy other = other"

definition basic_address_max_length :: "platform \<Rightarrow> nat" where
  "basic_address_max_length pf = max_length pf"

definition address_destroy :: "sockaddr_un \<Rightarrow> 'k \<Rightarrow> 'k" where
  "address_destroy address k = k"

definition basic_address_destroy :: "sockaddr_un \<Rightarrow> 'k \<Rightarrow> 'k" where
  "basic_address_destroy address k = address_destroy address k"

definition basic_ipc_address_default :: "platform \<Rightarrow> sockaddr_un" where
  "basic_ipc_address_default pf = basic_address_default pf"

definition basic_ipc_address_new :: "platform \<Rightarrow> string \<Rightarrow> sockaddr_un result" where
  "basic_ipc_address_new pf socket_path = basic_address_new pf socket_path"

subsection \<open>The copied path\<close>

declare copy_path.simps [simp del]

lemma copy_path_eq:
  assumes "i \<le> length p" and "length p \<le> length a" and "take i a = take i p"
  shows "copy_path p i a = p @ drop (length p) a"
  using assms
proof (induction p i a rule: copy_path.induct)
  case (1 p i a)
  show ?case
  proof (cases "i < length p")
    case True
    with 1 have "take (i + 1) (a[i := p ! i]) = take (i + 1) p"
      by (simp add: take_Suc_conv_app_nth)
    with 1 True show ?thesis by (simp add: copy_path.simps [of p i a])
  next
    case False
    with 1 have "i = length p" by simp
    with 1 have "take (length p) a = p" by simp
    with False append_take_drop_id [of "length p" a] show ?thesis
      by (simp add: copy_path.simps [of p i a])
  qed
qed

lemma construct_eq:
  assumes "0 < sun_path_size pf"
  shows "construct pf p =
    (if length p < sun_path_size pf
     then Inr \<lparr>sun_family = af_local pf, sun_path = p @ replicate (sun_path_size pf - length p) NUL\<rparr>
     else Inl (InvalidArgument ''socket path is too long''))"
  using assms copy_path_eq [of 0 p "replicate (sun_path_size pf) NUL"]
  by (auto simp: construct_def not_greater_def max_length_def zero_address_def Let_def)

lemma takeWhile_padded:
  "takeWhile (\<lambda>c. c \<noteq> NUL) (p @ replicate n NUL) = takeWhile (\<lambda>c. c \<noteq> NUL) p"
  by (induction p) (simp_all add: takeWhile_replicate)

lemma c_string_padded: "0 < n \<Longrightarrow> c_string (p @ replicate n NUL) = Some (takeWhile (\<lambda>c. c \<noteq> NUL) p)"
  by (simp add: c_string_def takeWhile_padded)

lemma construct_view:
  assumes "0 < sun_path_size pf" and "construct pf p = Inr a"
  shows "c_string (sun_path a) = Some (takeWhile (\<lambda>c. c \<noteq> NUL) p)"
  using assms by (auto simp: construct_eq c_string_padded split: if_splits)

lemma address_length_eq: "address_length a = map_option length (c_string (sun_path a))"
  by (cases "c_string (sun_path a)") (simp_all add: address_length_def to_string_view_def)

lemma takeWhile_no_nul: "NUL \<notin> set p \<Longrightarrow> takeWhile (\<lambda>c. c \<noteq> NUL) p = p"
  by (induction p) auto

lemma address_equality:
  assumes "0 < sun_path_size pf"
    and "basic_ipc_address_new pf p = Inr a" and "basic_ipc_address_new pf q = Inr b"
  shows "basic_address_equal a b = Some (takeWhile (\<lambda>c. c \<noteq> NUL) p = takeWhile (\<lambda>c. c \<noteq> NUL) q)"
  using construct_view [OF assms(1), of p a] construct_view [OF assms(1), of q b] assms(2,3)
  by (simp add: basic_ipc_address_new_def basic_address_new_def basic_address_equal_def equal_def)

subsection \<open>Properties\<close>

text \<open>C33: round trip of an address. A path that does not fit, terminator included, is refused with
  \<open>invalid_argument\<close>; the bound is what \<open>max_length\<close> says. Any other gives an address of the local
  family whose array holds the path and is NUL from there to its end, so that the C string that a
  system call reads in it is the path up to its first NUL, the path itself when it has none; the length is
  the length of that, and it equals another address exactly when their paths agree up to the
  first NUL. The view has the right size, but its characters are whatever \<open>stale\<close> says is left of the
  parameter it points into. A default-constructed address holds the empty path.\<close>

theorem ipc_address_roundtrip:
  assumes "0 < sun_path_size pf"
  shows "(basic_address_max_length pf < length p \<longrightarrow>
            basic_ipc_address_new pf p = Inl (InvalidArgument ''socket path is too long''))
    \<and> (length p \<le> basic_address_max_length pf \<longrightarrow>
         (\<exists>a. let path = takeWhile (\<lambda>c. c \<noteq> NUL) p
              in basic_ipc_address_new pf p = Inr a
               \<and> sun_family a = af_local pf \<and> length (sun_path a) = sun_path_size pf
               \<and> sun_path a = p @ replicate (sun_path_size pf - length p) NUL
               \<and> c_string (sun_path a) = Some path \<and> (NUL \<notin> set p \<longrightarrow> path = p)
               \<and> address_length a = Some (length path)
               \<and> to_string_view stale a = Some \<lparr>view_size = length path, view_data = stale path\<rparr>
               \<and> (\<forall>q b. basic_ipc_address_new pf q = Inr b \<longrightarrow>
                    basic_address_equal a b = Some (path = takeWhile (\<lambda>c. c \<noteq> NUL) q))))
    \<and> c_string (sun_path (basic_ipc_address_default pf)) = Some []
    \<and> address_length (basic_ipc_address_default pf) = Some 0"
proof -
  have default: "c_string (sun_path (basic_address_default pf)) = Some []"
    using assms c_string_padded [of "sun_path_size pf" "[]"]
    by (simp add: basic_address_default_def zero_address_def)
  have "basic_ipc_address_new pf p = Inl (InvalidArgument ''socket path is too long'')"
    if "basic_address_max_length pf < length p"
    using that assms
    by (auto simp: basic_ipc_address_new_def basic_address_new_def basic_address_max_length_def construct_eq
        max_length_def)
  moreover have "\<exists>a. basic_ipc_address_new pf p = Inr a \<and> sun_family a = af_local pf
      \<and> sun_path a = p @ replicate (sun_path_size pf - length p) NUL
      \<and> length (sun_path a) = sun_path_size pf \<and> c_string (sun_path a) = Some (takeWhile (\<lambda>c. c \<noteq> NUL) p)"
    if "length p \<le> basic_address_max_length pf"
    using that assms
    by (auto simp: basic_ipc_address_new_def basic_address_new_def basic_address_max_length_def construct_eq
        max_length_def c_string_padded)
  ultimately show ?thesis
    using default address_equality [OF assms]
    unfolding Let_def basic_ipc_address_default_def address_length_eq to_string_view_def
    by (fastforce simp: takeWhile_no_nul)
qed

theorem ipc_address_roundtrip_witness:
  "\<exists>a. basic_ipc_address_new \<lparr>af_local = 1, sun_path_size = 108, sizeof_sockaddr_un = 110, enoent = 2, o_nonblock = 2048,
          somaxconn = 4096, msg_nosignal = 16384\<rparr> ''/tmp/s'' = Inr a
     \<and> c_string (sun_path a) = Some ''/tmp/s'' \<and> basic_address_equal a a = Some True"
  using ipc_address_roundtrip [of "\<lparr>af_local = 1, sun_path_size = 108, sizeof_sockaddr_un = 110, enoent = 2, o_nonblock = 2048,
      somaxconn = 4096, msg_nosignal = 16384\<rparr>" "''/tmp/s''" "\<lambda>p. p"]
  by (auto simp: max_length_def basic_address_max_length_def Let_def)

text \<open>Equality of addresses is equality of paths: two constructed addresses compare equal
  exactly when their paths agree up to the first NUL, \<open>!=\<close> is its negation, the comparison never
  reads past the arrays, and a copy is equal to its original, also after that is destroyed.\<close>

theorem ipc_address_equality:
  assumes "0 < sun_path_size pf"
    and "basic_ipc_address_new pf p = Inr a" and "basic_ipc_address_new pf q = Inr b"
  shows "basic_address_equal a b = Some (takeWhile (\<lambda>c. c \<noteq> NUL) p = takeWhile (\<lambda>c. c \<noteq> NUL) q)
    \<and> basic_address_not_equal a b = Some (takeWhile (\<lambda>c. c \<noteq> NUL) p \<noteq> takeWhile (\<lambda>c. c \<noteq> NUL) q)
    \<and> basic_address_equal (basic_address_copy a) a = Some True \<and> basic_address_destroy a k = k"
  using address_equality [OF assms] address_equality [OF assms(1,2,2)]
  by (simp add: basic_address_not_equal_def basic_address_copy_def basic_address_destroy_def address_destroy_def)

theorem ipc_address_equality_witness:
  "\<exists>a b. basic_ipc_address_new \<lparr>af_local = 1, sun_path_size = 4, sizeof_sockaddr_un = 6, enoent = 2, o_nonblock = 2048,
            somaxconn = 4096, msg_nosignal = 16384\<rparr> ''abc'' = Inr a
       \<and> basic_ipc_address_new \<lparr>af_local = 1, sun_path_size = 4, sizeof_sockaddr_un = 6, enoent = 2, o_nonblock = 2048,
            somaxconn = 4096, msg_nosignal = 16384\<rparr> ''ab'' = Inr b
       \<and> basic_address_equal a b = Some False"
proof -
  let ?pf = "\<lparr>af_local = 1, sun_path_size = 4, sizeof_sockaddr_un = 6, enoent = 2, o_nonblock = 2048,
    somaxconn = 4096, msg_nosignal = 16384\<rparr>"
  obtain a b where ab: "basic_ipc_address_new ?pf ''abc'' = Inr a" "basic_ipc_address_new ?pf ''ab'' = Inr b"
    by (simp add: basic_ipc_address_new_def basic_address_new_def construct_eq)
  from ipc_address_equality [OF _ ab, of "()"] have "basic_address_equal a b = Some False" by simp
  with ab show ?thesis by blast
qed

end
