(* ===== verification/BasicHandle.thy ===== *)
theory BasicHandle
  imports Prelude
begin

section \<open>Owning handles (\<open>basic_handle.hpp\<close>)\<close>

text \<open>
  \<open>basic_handle<Resource>\<close> owns one native handle (a file descriptor, say) or the invalid value.
  The first part is the member functions. The second part is the life of any number of handle
  objects in a program: they are constructed, moved and destroyed in any order, and the
  history records which native handles were obtained and which were given back.
\<close>

subsection \<open>Member functions\<close>

record 'n handle =
  m_value :: 'n

text \<open>\<open>invalid\<close> is \<open>Resource::invalid_value()\<close>.\<close>

definition handle_is_valid :: "'n \<Rightarrow> 'n handle \<Rightarrow> bool" where
  "handle_is_valid invalid h \<longleftrightarrow> invalid \<noteq> m_value h"

definition handle_not_equal :: "'n handle \<Rightarrow> 'n handle \<Rightarrow> bool" where
  "handle_not_equal lh rh \<longleftrightarrow> \<not> (m_value lh = m_value rh)"

definition handle_equal :: "'n handle \<Rightarrow> 'n handle \<Rightarrow> bool" where
  "handle_equal lh rh \<longleftrightarrow> m_value lh = m_value rh"

text \<open>The constructor wraps what \<open>Resource::construct\<close> gives; its exceptions pass through.\<close>

definition handle_construct :: "('k \<Rightarrow> 'n result \<times> 'k) \<Rightarrow> 'k \<Rightarrow> 'n handle result \<times> 'k" where
  "handle_construct resource_construct k =
     (case resource_construct k of
        (Inl e, k') \<Rightarrow> (Inl e, k')
      | (Inr n, k') \<Rightarrow> (Inr \<lparr>m_value = n\<rparr>, k'))"

definition handle_from_native :: "'n \<Rightarrow> 'n handle" where
  "handle_from_native native = \<lparr>m_value = native\<rparr>"

text \<open>Moves give the new object and the object moved from.\<close>

definition handle_move :: "'n \<Rightarrow> 'n handle \<Rightarrow> 'n handle \<times> 'n handle" where
  "handle_move invalid other = (\<lparr>m_value = m_value other\<rparr>, other\<lparr>m_value := invalid\<rparr>)"

text \<open>\<open>operator=(basic_handle&&)\<close>: its guard \<open>this != other\<close> compares a pointer with an object and
  does not compile when the operator is used; \<open>distinct_objects\<close> is what it means to test. The old
  value of the target is overwritten.\<close>

definition handle_move_assign :: "'n \<Rightarrow> bool \<Rightarrow> 'n handle \<Rightarrow> 'n handle \<Rightarrow> 'n handle \<times> 'n handle" where
  "handle_move_assign invalid distinct_objects this other =
     (if distinct_objects then (this\<lparr>m_value := m_value other\<rparr>, other\<lparr>m_value := invalid\<rparr>)
      else (this, other))"

text \<open>The destructor: the native handle it passes to \<open>Resource::destroy\<close>, if any.\<close>

definition handle_destroy :: "'n \<Rightarrow> 'n handle \<Rightarrow> 'n option" where
  "handle_destroy invalid h = (if handle_is_valid invalid h then Some (m_value h) else None)"

definition handle_native :: "'n handle \<Rightarrow> 'n" where
  "handle_native h = m_value h"

subsection \<open>The life of handles\<close>

text \<open>The handle objects that exist, by position (\<open>None\<close> once destroyed), and the history of native
  handles obtained from and given back to the system.\<close>

record 'n handles =
  objects :: "'n handle option list"
  opened :: "'n multiset"
  closed :: "'n multiset"

datatype 'n handle_act =
    Construct "'n result"       \<comment> \<open>what \<open>Resource::construct\<close> does\<close>
  | MoveConstruct nat           \<comment> \<open>a new handle from the one at this position\<close>
  | MoveAssign nat nat          \<comment> \<open>target, source\<close>
  | Destroy nat

fun handle_step :: "'n \<Rightarrow> 'n handle_act \<Rightarrow> 'n handles \<Rightarrow> 'n handles option" where
  "handle_step invalid (Construct r) s =
     (case fst (handle_construct (\<lambda>k. (r, k)) ()) of
        Inl e \<Rightarrow> Some s
      | Inr h \<Rightarrow> Some (s\<lparr>objects := objects s @ [Some h], opened := add_mset (m_value h) (opened s)\<rparr>))"
| "handle_step invalid (MoveConstruct i) s =
     (if i < length (objects s) then
        (case objects s ! i of
           None \<Rightarrow> None
         | Some other \<Rightarrow>
             (let (h, other') = handle_move invalid other
              in Some (s\<lparr>objects := (objects s)[i := Some other'] @ [Some h]\<rparr>)))
      else None)"
| "handle_step invalid (MoveAssign i j) s =
     (if i < length (objects s) \<and> j < length (objects s) then
        (case (objects s ! i, objects s ! j) of
           (Some this, Some other) \<Rightarrow>
             (let (this', other') = handle_move_assign invalid (i \<noteq> j) this other
              in Some (s\<lparr>objects := (objects s)[j := Some other', i := Some this']\<rparr>))
         | _ \<Rightarrow> None)
      else None)"
| "handle_step invalid (Destroy i) s =
     (if i < length (objects s) then
        (case objects s ! i of
           None \<Rightarrow> None
         | Some h \<Rightarrow>
             Some (s\<lparr>objects := (objects s)[i := None],
                     closed := (case handle_destroy invalid h of None \<Rightarrow> closed s | Some n \<Rightarrow> add_mset n (closed s))\<rparr>))
      else None)"

definition no_handles :: "'n handles" where
  "no_handles = \<lparr>objects = [], opened = {#}, closed = {#}\<rparr>"

text \<open>The native handles owned by the objects that exist.\<close>

definition owned :: "'n \<Rightarrow> 'n handle option list \<Rightarrow> 'n multiset" where
  "owned invalid hs =
     mset (concat (map (\<lambda>h. case h of None \<Rightarrow> [] | Some h \<Rightarrow>
       (case handle_destroy invalid h of None \<Rightarrow> [] | Some n \<Rightarrow> [n])) hs))"

text \<open>What programs do: everything but the move assignment, which does not compile; and
  \<open>Resource::construct\<close> throws rather than return the invalid value.\<close>

fun used_act :: "'n \<Rightarrow> 'n handle_act \<Rightarrow> bool" where
  "used_act invalid (Construct (Inr n)) = (n \<noteq> invalid)"
| "used_act invalid (MoveAssign i j) = False"
| "used_act invalid _ = True"

definition used_step :: "'n \<Rightarrow> 'n handle_act \<Rightarrow> 'n handles \<Rightarrow> 'n handles option" where
  "used_step invalid a s = (if used_act invalid a then handle_step invalid a s else None)"

definition handles_inv :: "'n \<Rightarrow> 'n handles \<Rightarrow> bool" where
  "handles_inv invalid s \<longleftrightarrow> opened s = closed s + owned invalid (objects s)"

subsection \<open>Ownership\<close>

definition owned_by :: "'n \<Rightarrow> 'n handle option \<Rightarrow> 'n list" where
  "owned_by invalid h =
     (case h of None \<Rightarrow> []
      | Some h \<Rightarrow> (case handle_destroy invalid h of None \<Rightarrow> [] | Some n \<Rightarrow> [n]))"

lemma owned_eq: "owned invalid hs = mset (concat (map (owned_by invalid) hs))"
  unfolding owned_def owned_by_def ..

lemma owned_by_simps [simp]:
  "owned_by invalid None = []"
  "owned_by invalid (Some h) = (if m_value h = invalid then [] else [m_value h])"
  by (auto simp: owned_by_def handle_destroy_def handle_is_valid_def)

lemma owned_append [simp]: "owned invalid (hs @ [h]) = owned invalid hs + mset (owned_by invalid h)"
  by (simp add: owned_eq)

lemma owned_update:
  "i < length hs \<Longrightarrow> owned invalid (hs[i := h]) + mset (owned_by invalid (hs ! i))
     = owned invalid hs + mset (owned_by invalid h)"
  unfolding owned_eq by (rule mset_concat_update)

lemma owned_invalidate:
  "i < length hs \<Longrightarrow> owned_by invalid h = [] \<Longrightarrow>
     owned invalid (hs[i := h]) + mset (owned_by invalid (hs ! i)) = owned invalid hs"
  using owned_update [of i hs invalid h] by simp

lemma destroy_owned:
  "(case handle_destroy invalid h of None \<Rightarrow> M | Some n \<Rightarrow> add_mset n M) =
     M + mset (owned_by invalid (Some h))"
  by (auto simp: handle_destroy_def handle_is_valid_def)

lemma handles_inv_step:
  assumes inv: "handles_inv invalid s" and step: "used_step invalid a s = Some s'"
  shows "handles_inv invalid s'"
proof (cases a)
  case (Construct r)
  then show ?thesis
    using assms by (cases r) (auto simp: used_step_def handles_inv_def handle_construct_def split: if_splits)
next
  case (MoveConstruct i)
  with step obtain other where o: "i < length (objects s)" "objects s ! i = Some other"
      "s' = s\<lparr>objects := (objects s)[i := Some (other\<lparr>m_value := invalid\<rparr>)] @ [Some \<lparr>m_value = m_value other\<rparr>]\<rparr>"
    by (auto simp: used_step_def handle_move_def split: if_splits option.splits)
  from owned_invalidate [OF o(1), of invalid "Some (other\<lparr>m_value := invalid\<rparr>)"] o inv show ?thesis
    by (auto simp: handles_inv_def)
next
  case (Destroy i)
  with step obtain h where h: "i < length (objects s)" "objects s ! i = Some h"
      "s' = s\<lparr>objects := (objects s)[i := None], closed := closed s + mset (owned_by invalid (Some h))\<rparr>"
    by (auto simp: used_step_def destroy_owned split: if_splits option.splits)
  from owned_invalidate [OF h(1), of invalid None] h inv show ?thesis
    by (auto simp: handles_inv_def)
qed (use step in \<open>auto simp: used_step_def\<close>)

interpretation handles: invariant_system "used_step invalid" "\<lambda>s. s = no_handles" "handles_inv invalid"
  for invalid
  by unfold_locales (simp add: handles_inv_def no_handles_def owned_def, rule handles_inv_step)

lemma owned_none: "\<forall>h \<in> set hs. h = None \<Longrightarrow> owned invalid hs = {#}"
  by (induction hs) (auto simp: owned_eq)

subsection \<open>Properties\<close>

text \<open>C32: no leak and no double close. However handles are constructed, moved and destroyed, each
  native handle that was obtained is either owned by exactly one handle object or has been
  given back, once; and when all objects are destroyed, exactly what was obtained has been
  given back.\<close>

theorem handle_ownership:
  assumes "reachable (used_step invalid) no_handles s"
  shows "opened s = closed s + owned invalid (objects s)
    \<and> ((\<forall>h \<in> set (objects s). h = None) \<longrightarrow> closed s = opened s)"
  using handles.inv_reachable [OF assms refl] by (auto simp: handles_inv_def owned_none)

theorem handle_ownership_witness:
  "let s = the (run (used_step (-1)) [Construct (Inr (3::int)), MoveConstruct 0, Destroy 0, Destroy 1] no_handles)
   in objects s = [None, None] \<and> closed s = {#3#} \<and> closed s = opened s"
  (is "let s = the (run _ ?as _) in _")
proof -
  let ?s = "the (run (used_step (-1)) ?as no_handles)"
  have eval: "run (used_step (-1)) ?as no_handles \<noteq> None" "objects ?s = [None, None]" "opened ?s = {#3#}"
    by (simp_all add: used_step_def no_handles_def handle_construct_def handle_move_def)
  have "closed ?s = opened ?s"
    by (rule handle_ownership [OF reachable_the_run [OF eval(1)], THEN conjunct2, THEN mp])
       (simp only: eval(2), simp)
  with eval(2,3) show ?thesis by (simp only: Let_def simp_thms)
qed

text \<open>The move assignment leaks. Were its guard corrected, assigning to a handle that owns a
  native handle would overwrite it without giving it back: afterwards no object owns it and
  nothing ever closes it.\<close>

theorem handle_move_assign_leaks:
  assumes "m \<noteq> n" and "m \<noteq> invalid" and "n \<noteq> invalid"
  shows "\<exists>s. run (handle_step invalid)
      [Construct (Inr m), Construct (Inr n), MoveAssign 0 1, Destroy 0, Destroy 1] no_handles = Some s
    \<and> objects s = [None, None] \<and> opened s = {#n, m#} \<and> closed s = {#n#}"
  using assms
  by (auto simp: no_handles_def handle_construct_def handle_move_assign_def handle_destroy_def
      handle_is_valid_def)

theorem handle_move_assign_leaks_witness:
  "\<exists>s. run (handle_step (-1))
      [Construct (Inr 3), Construct (Inr 4), MoveAssign 0 1, Destroy 0, Destroy 1] no_handles = Some s
    \<and> closed s = {#4::int#}"
  using handle_move_assign_leaks [of 3 4 "-1::int"] by auto

end
