(* ===== verification/PosixSocket.thy ===== *)
theory PosixSocket
  imports Contract SocketEnums IpcAddress BasicHandle
begin

section \<open>System calls (\<open>posix/socket.hpp\<close>, \<open>posix/socket.cpp\<close>)\<close>

text \<open>
  \<open>system::posix::socket\<close>: one function per socket system call, which turns the C convention (a
  return value of -1 and \<open>errno\<close>) into exceptions. The operating system is a parameter: a function
  from a system call to what the call returns, on a kernel state \<open>'k\<close>. A function of the source is
  then a function on the kernel state that gives a result or an exception. C++ \<open>int\<close>s that are only
  passed through are HOL integers; sizes are 64-bit words.
\<close>

unbundle bit_operations_syntax

subsection \<open>The operating system\<close>

type_synonym byte = "8 word"

datatype sockopt = SO_SNDBUF | SO_SNDTIMEO | SO_RCVTIMEO

record timeval =
  tv_sec :: int
  tv_usec :: int

datatype syscall =
    SysSocket int int int
  | SysClose int
  | SysGetFl int                               \<comment> \<open>\<open>fcntl(fd, F_GETFL)\<close>\<close>
  | SysSetFl int int                           \<comment> \<open>\<open>fcntl(fd, F_SETFL, flags)\<close>\<close>
  | SysShutdown int int
  | SysGetSockOpt int sockopt nat              \<comment> \<open>size of the buffer\<close>
  | SysSetSockOpt int sockopt timeval
  | SysListen int int
  | SysAccept int
  | SysBind int sockaddr_un "32 word"          \<comment> \<open>address and its \<open>socklen_t\<close>\<close>
  | SysConnect int sockaddr_un "32 word"
  | SysRecv int size_t int                     \<comment> \<open>length, flags\<close>
  | SysSend int "byte list" size_t int         \<comment> \<open>buffer, length, flags\<close>
  | SysSendTo int "byte list" size_t int sockaddr_un "32 word"
  | SysRecvFrom int size_t int "32 word"
  | SysUnlink string

text \<open>What a call returns: its value, \<open>errno\<close>, and what it writes through its pointer arguments: bytes of
  a buffer; the family and the first characters of the path of an address, or nothing.\<close>

record sysret =
  ret :: int
  errno :: int
  written :: "byte list"
  peer :: "sockaddr_un option"

type_synonym 'k os = "syscall \<Rightarrow> 'k \<Rightarrow> sysret \<times> 'k"

type_synonym ('a, 'k) io = "'k \<Rightarrow> 'a result \<times> 'k"

definition io_return :: "'a \<Rightarrow> ('a, 'k) io" where
  "io_return x k = (Inr x, k)"

definition io_bind :: "('a, 'k) io \<Rightarrow> ('a \<Rightarrow> ('b, 'k) io) \<Rightarrow> ('b, 'k) io" where
  "io_bind m f k = (case m k of (Inl e, k') \<Rightarrow> (Inl e, k') | (Inr x, k') \<Rightarrow> f x k')"

text \<open>A contract check: no effect on the kernel.\<close>

definition require :: "unit result \<Rightarrow> (unit, 'k) io" where
  "require r k = (r, k)"

text \<open>A system call followed by \<open>contract::no_system_error\<close>.\<close>

definition checked :: "'k os \<Rightarrow> syscall \<Rightarrow> (sysret, 'k) io" where
  "checked os c k =
     (let (r, k') = os c k
      in (result_bind (no_system_error (-1) (errno r) (ret r)) (\<lambda>_. Inr r), k'))"

subsection \<open>The functions of \<open>posix::socket\<close>\<close>

definition invalid_value :: int where
  "invalid_value = -1"

definition max_listen_que :: "platform \<Rightarrow> size_t" where
  "max_listen_que pf = of_int (somaxconn pf)"

definition socket_construct :: "'k os \<Rightarrow> socket_family \<Rightarrow> socket_type \<Rightarrow> socket_protocol \<Rightarrow> (int, 'k) io" where
  "socket_construct os family type protocol =
     io_bind (checked os (SysSocket (family_to_integral family) (type_to_integral type) (protocol_to_integral protocol)))
       (\<lambda>r. io_return (ret r))"

text \<open>\<open>destroy\<close> ends the program when \<open>close\<close> fails: the flag.\<close>

definition socket_destroy :: "'k os \<Rightarrow> int \<Rightarrow> 'k \<Rightarrow> bool \<times> 'k" where
  "socket_destroy os handle k =
     (let (r, k') = os (SysClose handle) k in (is_system_error (-1) (ret r), k'))"

definition get_descriptor_flags :: "'k os \<Rightarrow> int \<Rightarrow> (int, 'k) io" where
  "get_descriptor_flags os handle = io_bind (checked os (SysGetFl handle)) (\<lambda>r. io_return (ret r))"

definition is_non_blocking :: "platform \<Rightarrow> 'k os \<Rightarrow> int \<Rightarrow> (bool, 'k) io" where
  "is_non_blocking pf os handle =
     io_bind (get_descriptor_flags os handle)
       (\<lambda>flags. io_return ((flags AND o_nonblock pf) = o_nonblock pf))"

definition non_blocking :: "platform \<Rightarrow> 'k os \<Rightarrow> int \<Rightarrow> bool \<Rightarrow> (unit, 'k) io" where
  "non_blocking pf os handle mode =
     io_bind (get_descriptor_flags os handle)
       (\<lambda>flags. let new_flags = (if mode then flags OR o_nonblock pf else flags AND NOT (o_nonblock pf))
                in io_bind (checked os (SysSetFl handle new_flags)) (\<lambda>_. io_return ()))"

definition socket_shutdown :: "'k os \<Rightarrow> int \<Rightarrow> shutdown_mode \<Rightarrow> (unit, 'k) io" where
  "socket_shutdown os handle mode =
     io_bind (checked os (SysShutdown handle (mode_to_integral mode))) (\<lambda>_. io_return ())"

text \<open>\<open>getsockopt\<close> writes into the zeroed eight bytes of a \<open>size_t\<close>, little-endian.\<close>

definition overlay :: "'a list \<Rightarrow> 'a list \<Rightarrow> 'a list" where
  "overlay new old = take (length old) new @ drop (length new) old"

definition le_value :: "byte list \<Rightarrow> nat" where
  "le_value bs = foldr (\<lambda>b acc. unat b + 256 * acc) bs 0"

definition get_send_buffer_size :: "'k os \<Rightarrow> int \<Rightarrow> (size_t, 'k) io" where
  "get_send_buffer_size os handle =
     io_bind (checked os (SysGetSockOpt handle SO_SNDBUF 8))
       (\<lambda>r. io_return (of_nat (le_value (overlay (written r) (replicate 8 0)))))"

text \<open>\<open>static_cast<int>\<close> of a \<open>size_t\<close>.\<close>

definition to_int :: "size_t \<Rightarrow> int" where
  "to_int n = sint (ucast n :: 32 word)"

definition socket_listen :: "'k os \<Rightarrow> int \<Rightarrow> size_t \<Rightarrow> (unit, 'k) io" where
  "socket_listen os handle que_size =
     io_bind (checked os (SysListen handle (to_int que_size))) (\<lambda>_. io_return ())"

definition socket_accept :: "'k os \<Rightarrow> int \<Rightarrow> (int, 'k) io" where
  "socket_accept os handle = io_bind (checked os (SysAccept handle)) (\<lambda>r. io_return (ret r))"

text \<open>The overloads with an explicit size convert it to \<open>socklen_t\<close>, a 32-bit integer; the templates
  pass \<open>sizeof\<close> of the address type.\<close>

definition bind_sized :: "'k os \<Rightarrow> int \<Rightarrow> sockaddr_un \<Rightarrow> size_t \<Rightarrow> (unit, 'k) io" where
  "bind_sized os handle local_address address_size =
     io_bind (checked os (SysBind handle local_address (ucast address_size))) (\<lambda>_. io_return ())"

definition connect_sized :: "'k os \<Rightarrow> int \<Rightarrow> sockaddr_un \<Rightarrow> size_t \<Rightarrow> (unit, 'k) io" where
  "connect_sized os handle remote_address address_size =
     io_bind (checked os (SysConnect handle remote_address (ucast address_size))) (\<lambda>_. io_return ())"

definition socket_bind :: "platform \<Rightarrow> 'k os \<Rightarrow> int \<Rightarrow> sockaddr_un \<Rightarrow> (unit, 'k) io" where
  "socket_bind pf os handle local_address = bind_sized os handle local_address (sizeof_sockaddr_un pf)"

definition socket_connect :: "platform \<Rightarrow> 'k os \<Rightarrow> int \<Rightarrow> sockaddr_un \<Rightarrow> (unit, 'k) io" where
  "socket_connect pf os handle remote_address = connect_sized os handle remote_address (sizeof_sockaddr_un pf)"

text \<open>Receiving gives the number of bytes and the buffer afterwards.\<close>

definition socket_receive :: "'k os \<Rightarrow> int \<Rightarrow> byte list \<Rightarrow> size_t \<Rightarrow> (size_t \<times> byte list, 'k) io" where
  "socket_receive os handle buffer len =
     io_bind (checked os (SysRecv handle len 0))
       (\<lambda>r. io_return (of_int (ret r), overlay (written r) buffer))"

definition socket_send :: "platform \<Rightarrow> 'k os \<Rightarrow> int \<Rightarrow> byte list \<Rightarrow> size_t \<Rightarrow> (size_t, 'k) io" where
  "socket_send pf os handle buffer len =
     io_bind (checked os (SysSend handle buffer len (msg_nosignal pf))) (\<lambda>r. io_return (of_int (ret r)))"

definition send_to_sized ::
  "'k os \<Rightarrow> int \<Rightarrow> byte list \<Rightarrow> size_t \<Rightarrow> sockaddr_un \<Rightarrow> size_t \<Rightarrow> (size_t, 'k) io" where
  "send_to_sized os handle buffer len remote_address address_size =
     io_bind (checked os (SysSendTo handle buffer len 0 remote_address (ucast address_size)))
       (\<lambda>r. io_return (of_int (ret r)))"

text \<open>The system writes over what the caller has in \<open>remote_address\<close>, no further than its end.\<close>

definition write_address :: "sockaddr_un option \<Rightarrow> sockaddr_un \<Rightarrow> sockaddr_un" where
  "write_address new old =
     (case new of
        None \<Rightarrow> old
      | Some a \<Rightarrow> \<lparr>sun_family = sun_family a, sun_path = overlay (sun_path a) (sun_path old)\<rparr>)"

definition receive_from_sized ::
  "'k os \<Rightarrow> int \<Rightarrow> byte list \<Rightarrow> size_t \<Rightarrow> sockaddr_un \<Rightarrow> size_t \<Rightarrow> (size_t \<times> byte list \<times> sockaddr_un, 'k) io" where
  "receive_from_sized os handle buffer len remote_address address_size =
     io_bind (checked os (SysRecvFrom handle len 0 (ucast address_size)))
       (\<lambda>r. io_return (of_int (ret r), overlay (written r) buffer, write_address (peer r) remote_address))"

definition socket_send_to ::
  "platform \<Rightarrow> 'k os \<Rightarrow> int \<Rightarrow> sockaddr_un \<Rightarrow> byte list \<Rightarrow> size_t \<Rightarrow> (size_t, 'k) io" where
  "socket_send_to pf os handle remote_address buffer len =
     send_to_sized os handle buffer len remote_address (sizeof_sockaddr_un pf)"

definition socket_receive_from ::
  "platform \<Rightarrow> 'k os \<Rightarrow> int \<Rightarrow> sockaddr_un \<Rightarrow> byte list \<Rightarrow> size_t \<Rightarrow>
     (size_t \<times> byte list \<times> sockaddr_un, 'k) io" where
  "socket_receive_from pf os handle remote_address buffer len =
     receive_from_sized os handle buffer len remote_address (sizeof_sockaddr_un pf)"

definition set_send_timeout :: "'k os \<Rightarrow> int \<Rightarrow> int \<Rightarrow> (unit, 'k) io" where
  "set_send_timeout os handle microseconds =
     io_bind (checked os (SysSetSockOpt handle SO_SNDTIMEO \<lparr>tv_sec = 0, tv_usec = microseconds\<rparr>))
       (\<lambda>_. io_return ())"

definition set_receive_timeout :: "'k os \<Rightarrow> int \<Rightarrow> int \<Rightarrow> (unit, 'k) io" where
  "set_receive_timeout os handle microseconds =
     io_bind (checked os (SysSetSockOpt handle SO_RCVTIMEO \<lparr>tv_sec = 0, tv_usec = microseconds\<rparr>))
       (\<lambda>_. io_return ())"

subsection \<open>Results of calls\<close>

lemma io_simps [simp]:
  "io_return x k = (Inr x, k)"
  "require r k = (r, k)"
  by (simp_all add: io_return_def require_def)

lemma checked_eq:
  "checked os c k =
     (let (r, k') = os c k in (if ret r = -1 then Inl (SystemError (errno r)) else Inr r, k'))"
  by (simp add: checked_def no_system_error_def Let_def split: prod.splits)

text \<open>A checked call with its result mapped: the shape of nearly every function above.\<close>

lemma io_bind_checked:
  "io_bind (checked os c) f k =
     (let (r, k') = os c k in if ret r = -1 then (Inl (SystemError (errno r)), k') else f r k')"
  by (simp add: io_bind_def checked_eq Let_def split: prod.splits)

lemma io_bind_require:
  "io_bind (require r) f k = (case r of Inl e \<Rightarrow> (Inl e, k) | Inr x \<Rightarrow> f x k)"
  by (simp add: io_bind_def require_def)

lemma io_bind_assoc: "io_bind (io_bind m f) g = io_bind m (\<lambda>x. io_bind (f x) g)"
  by (rule ext) (auto simp: io_bind_def split: prod.splits sum.splits)

text \<open>The documented behaviour of \<open>fcntl\<close> on the status flags of a descriptor, which \<open>status\<close> observes.
  \<open>F_GETFL\<close> returns them and leaves them alone. \<open>F_SETFL\<close> changes the flags in \<open>settable\<close> only (the
  access mode and the creation flags are ignored) and, when it fails, nothing; where it succeeded the
  descriptor is open, so that \<open>F_GETFL\<close> does not fail.\<close>

definition fcntl_laws :: "'k os \<Rightarrow> int \<Rightarrow> int \<Rightarrow> ('k \<Rightarrow> int) \<Rightarrow> bool" where
  "fcntl_laws os fd settable status \<longleftrightarrow>
     (\<forall>k r k'. os (SysGetFl fd) k = (r, k') \<longrightarrow> status k' = status k \<and> (ret r \<noteq> -1 \<longrightarrow> ret r = status k))
     \<and> (\<forall>f k r k'. os (SysSetFl fd f) k = (r, k') \<longrightarrow>
          (if ret r = -1 then status k' = status k
           else status k' = (status k AND NOT settable) OR (f AND settable) \<and> ret (fst (os (SysGetFl fd) k')) \<noteq> -1))"

text \<open>The documented behaviour of the socket timeouts: a \<open>tv_usec\<close> of a second or more is an error.\<close>

definition rejects_long_usec :: "'k os \<Rightarrow> int \<Rightarrow> bool" where
  "rejects_long_usec os edom \<longleftrightarrow>
     (\<forall>fd opt tv k. 1000000 \<le> tv_usec tv \<longrightarrow>
        (\<exists>r. os (SysSetSockOpt fd opt tv) k = (r, k) \<and> ret r = -1 \<and> errno r = edom))"

lemma to_int_small:
  assumes "unat n < 2 ^ 31"
  shows "to_int n = int (unat n)"
proof -
  have small: "signed_take_bit 31 (int m) = int m" if "m < 2 ^ 31" for m
    by (rule signed_take_bit_int_eq_self) (use that in simp_all)
  have "unat (ucast n :: 32 word) = unat n"
    using assms by (simp add: unsigned_ucast_eq take_bit_nat_eq_self)
  then have u: "uint (ucast n :: 32 word) = int (unat n)"
    using uint_nat [of "ucast n :: 32 word"] by (simp only:)
  have "sint (ucast n :: 32 word) = signed_take_bit 31 (uint (ucast n :: 32 word))"
    by (simp add: sint_uint)
  also have "\<dots> = int (unat n)"
    unfolding u by (rule small [OF assms])
  finally show ?thesis by (simp only: to_int_def)
qed

end
