(* ===== verification/Sockets.thy ===== *)
theory Sockets
  imports PosixSocket
begin

section \<open>Sockets (\<open>basic_socket.hpp\<close> and the socket classes of \<open>jar::com\<close>)\<close>

text \<open>
  The socket classes over \<open>posix::socket\<close>, as \<open>ipc.hpp\<close> instantiates them. A socket object is a
  \<open>basic_handle\<close> on a file descriptor; \<open>Socket::f(*this, ...)\<close> converts it to the descriptor. The
  member functions check their arguments, in the order of the source, before any system call.
  Buffers and handlers that may be null are options; a \<open>std::function\<close> given to \<open>accept\<close> gets the
  new socket and may move it away, so it returns the handle that it leaves.
\<close>

type_synonym socket = "int handle"

subsection \<open>Protocol\<close>

text \<open>\<open>basic_protocol<Address, Family, Protocol>\<close> and its instance \<open>ipc::protocol\<close>.\<close>

record protocol =
  family :: socket_family
  protocol :: socket_protocol

definition ipc_protocol :: protocol where
  "ipc_protocol = \<lparr>family = ipc, protocol = unspecified\<rparr>"

subsection \<open>\<open>basic_socket\<close>\<close>

definition basic_socket_new :: "'k os \<Rightarrow> protocol \<Rightarrow> socket_type \<Rightarrow> (socket, 'k) io" where
  "basic_socket_new os pr type = handle_construct (socket_construct os (family pr) type (protocol.protocol pr))"

definition basic_socket_from :: "int \<Rightarrow> socket" where
  "basic_socket_from native = handle_from_native native"

definition basic_socket_destroy :: "'k os \<Rightarrow> socket \<Rightarrow> 'k \<Rightarrow> bool \<times> 'k" where
  "basic_socket_destroy os s k =
     (case handle_destroy invalid_value s of None \<Rightarrow> (False, k) | Some fd \<Rightarrow> socket_destroy os fd k)"

text \<open>The defaulted moves are those of the handle; they give the new object and the one moved from.\<close>

definition basic_socket_move :: "socket \<Rightarrow> socket \<times> socket" where
  "basic_socket_move other = handle_move invalid_value other"

definition basic_socket_move_assign :: "bool \<Rightarrow> socket \<Rightarrow> socket \<Rightarrow> socket \<times> socket" where
  "basic_socket_move_assign distinct_objects this other =
     handle_move_assign invalid_value distinct_objects this other"

definition basic_non_blocking :: "platform \<Rightarrow> 'k os \<Rightarrow> socket \<Rightarrow> bool \<Rightarrow> (unit, 'k) io" where
  "basic_non_blocking pf os s mode = non_blocking pf os (handle_native s) mode"

definition basic_is_non_blocking :: "platform \<Rightarrow> 'k os \<Rightarrow> socket \<Rightarrow> (bool, 'k) io" where
  "basic_is_non_blocking pf os s = is_non_blocking pf os (handle_native s)"

definition basic_shutdown :: "'k os \<Rightarrow> socket \<Rightarrow> shutdown_mode \<Rightarrow> (unit, 'k) io" where
  "basic_shutdown os s mode = socket_shutdown os (handle_native s) mode"

definition basic_get_send_buffer_size :: "'k os \<Rightarrow> socket \<Rightarrow> (size_t, 'k) io" where
  "basic_get_send_buffer_size os s = get_send_buffer_size os (handle_native s)"

text \<open>A \<open>std::chrono::duration\<close>: a count of periods of \<open>num/den\<close> seconds. \<open>duration_cast\<close> to microseconds
  truncates towards zero.\<close>

record duration =
  ticks :: int
  num :: nat
  den :: nat

definition duration_cast_us :: "duration \<Rightarrow> int" where
  "duration_cast_us d = sgn (ticks d) * ((\<bar>ticks d\<bar> * int (num d) * 1000000) div int (den d))"

definition basic_set_send_timeout :: "'k os \<Rightarrow> socket \<Rightarrow> duration \<Rightarrow> (unit, 'k) io" where
  "basic_set_send_timeout os s timeout = set_send_timeout os (handle_native s) (duration_cast_us timeout)"

definition basic_set_receive_timeout :: "'k os \<Rightarrow> socket \<Rightarrow> duration \<Rightarrow> (unit, 'k) io" where
  "basic_set_receive_timeout os s timeout = set_receive_timeout os (handle_native s) (duration_cast_us timeout)"

definition basic_set_timeout :: "'k os \<Rightarrow> socket \<Rightarrow> duration \<Rightarrow> (unit, 'k) io" where
  "basic_set_timeout os s timeout =
     io_bind (set_send_timeout os (handle_native s) (duration_cast_us timeout))
       (\<lambda>_. set_receive_timeout os (handle_native s) (duration_cast_us timeout))"

subsection \<open>Stream sockets\<close>

definition stream_new :: "'k os \<Rightarrow> protocol \<Rightarrow> (socket, 'k) io" where
  "stream_new os pr = basic_socket_new os pr stream"

definition stream_from :: "int \<Rightarrow> socket" where
  "stream_from native = basic_socket_from native"

definition stream_move :: "socket \<Rightarrow> socket \<times> socket" where
  "stream_move other = basic_socket_move other"

definition stream_destroy :: "'k os \<Rightarrow> socket \<Rightarrow> 'k \<Rightarrow> bool \<times> 'k" where
  "stream_destroy os s = basic_socket_destroy os s"

definition stream_receive ::
  "'k os \<Rightarrow> socket \<Rightarrow> byte list option \<Rightarrow> size_t \<Rightarrow> (size_t \<times> byte list, 'k) io" where
  "stream_receive os s buffer len =
     io_bind (require (not_null buffer ''buffer cannot be nullptr''))
       (\<lambda>_. io_bind (require (not_zero len ''length cannot be zero''))
         (\<lambda>_. socket_receive os (handle_native s) (the buffer) len))"

definition stream_send :: "platform \<Rightarrow> 'k os \<Rightarrow> socket \<Rightarrow> byte list option \<Rightarrow> size_t \<Rightarrow> (size_t, 'k) io" where
  "stream_send pf os s buffer len =
     io_bind (require (not_null buffer ''buffer cannot be nullptr''))
       (\<lambda>_. io_bind (require (not_zero len ''length cannot be zero''))
         (\<lambda>_. socket_send pf os (handle_native s) (the buffer) len))"

text \<open>\<open>length()\<close> of an address that holds no terminator is undefined behaviour.\<close>

definition length_of :: "sockaddr_un \<Rightarrow> (nat, 'k) io" where
  "length_of address k =
     (case address_length address of
        None \<Rightarrow> (Inl (RuntimeError ''undefined behaviour''), k)
      | Some n \<Rightarrow> (Inr n, k))"

text \<open>\<open>stream_socket\<close>: its public and its private constructor, moves and destructor.\<close>

definition stream_socket_new :: "'k os \<Rightarrow> protocol \<Rightarrow> (socket, 'k) io" where
  "stream_socket_new os pr = stream_new os pr"

definition stream_socket_from :: "int \<Rightarrow> socket" where
  "stream_socket_from native = stream_from native"

definition stream_socket_move :: "socket \<Rightarrow> socket \<times> socket" where
  "stream_socket_move other = stream_move other"

definition stream_socket_destroy :: "'k os \<Rightarrow> socket \<Rightarrow> 'k \<Rightarrow> bool \<times> 'k" where
  "stream_socket_destroy os s = stream_destroy os s"

definition stream_connect :: "platform \<Rightarrow> 'k os \<Rightarrow> socket \<Rightarrow> sockaddr_un \<Rightarrow> (unit, 'k) io" where
  "stream_connect pf os s remote_address =
     io_bind (length_of remote_address)
       (\<lambda>n. io_bind (require (not_zero n ''remote_address cannot be empty''))
         (\<lambda>_. socket_connect pf os (handle_native s) remote_address))"

subsection \<open>Server sockets\<close>

definition server_new :: "'k os \<Rightarrow> protocol \<Rightarrow> (socket, 'k) io" where
  "server_new os pr = stream_new os pr"

definition server_move :: "socket \<Rightarrow> socket \<times> socket" where
  "server_move other = stream_move other"

definition server_destroy :: "'k os \<Rightarrow> socket \<Rightarrow> 'k \<Rightarrow> bool \<times> 'k" where
  "server_destroy os s = stream_destroy os s"

definition max_que :: "platform \<Rightarrow> size_t" where
  "max_que pf = max_listen_que pf"

text \<open>\<open>local_address.unlink()\<close>, as a system call of this model.\<close>

definition unlink_first :: "platform \<Rightarrow> (string \<Rightarrow> string) \<Rightarrow> 'k os \<Rightarrow> sockaddr_un \<Rightarrow> (unit, 'k) io" where
  "unlink_first pf stale os address =
     unlink_address pf stale (\<lambda>path k. let (r, k') = os (SysUnlink path) k in ((ret r, errno r), k')) address"

definition server_bind ::
  "platform \<Rightarrow> (string \<Rightarrow> string) \<Rightarrow> 'k os \<Rightarrow> protocol \<Rightarrow> socket \<Rightarrow> sockaddr_un \<Rightarrow> (unit, 'k) io" where
  "server_bind pf stale os pr s local_address =
     io_bind (length_of local_address)
       (\<lambda>n. io_bind (require (not_zero n ''address cannot be empty''))
         (\<lambda>_. io_bind (if ipc = family pr then unlink_first pf stale os local_address else io_return ())
           (\<lambda>_. socket_bind pf os (handle_native s) local_address)))"

definition server_listen :: "platform \<Rightarrow> 'k os \<Rightarrow> socket \<Rightarrow> size_t \<Rightarrow> (unit, 'k) io" where
  "server_listen pf os s queue_size = socket_listen os (handle_native s) (min queue_size (max_que pf))"

text \<open>\<open>accept\<close>: the new socket is a temporary, destroyed when the handler returns or throws. The flag
  says that closing it failed, which ends the program.\<close>

definition server_accept ::
  "'k os \<Rightarrow> socket \<Rightarrow> (socket \<Rightarrow> 'k \<Rightarrow> (unit result \<times> socket) \<times> 'k) option \<Rightarrow> 'k \<Rightarrow> (unit result \<times> bool) \<times> 'k" where
  "server_accept os s handler k =
     (case not_null handler ''handler cannot be nullptr'' of
        Inl e \<Rightarrow> ((Inl e, False), k)
      | Inr _ \<Rightarrow>
          (case socket_accept os (handle_native s) k of
             (Inl e, k1) \<Rightarrow> ((Inl e, False), k1)
           | (Inr fd, k1) \<Rightarrow>
               (let ((r, left), k2) = the handler (stream_socket_from fd) k1;
                    (terminated, k3) = stream_socket_destroy os left k2
                in ((r, terminated), k3))))"

subsection \<open>Datagram sockets\<close>

definition datagram_new :: "'k os \<Rightarrow> protocol \<Rightarrow> (socket, 'k) io" where
  "datagram_new os pr = basic_socket_new os pr datagram"

definition datagram_move :: "socket \<Rightarrow> socket \<times> socket" where
  "datagram_move other = basic_socket_move other"

definition datagram_destroy :: "'k os \<Rightarrow> socket \<Rightarrow> 'k \<Rightarrow> bool \<times> 'k" where
  "datagram_destroy os s = basic_socket_destroy os s"

definition datagram_bind ::
  "platform \<Rightarrow> (string \<Rightarrow> string) \<Rightarrow> 'k os \<Rightarrow> protocol \<Rightarrow> socket \<Rightarrow> sockaddr_un \<Rightarrow> (unit, 'k) io" where
  "datagram_bind pf stale os pr s local_address =
     io_bind (length_of local_address)
       (\<lambda>n. io_bind (require (not_zero n ''local_address cannot be empty''))
         (\<lambda>_. io_bind (if ipc = family pr then unlink_first pf stale os local_address else io_return ())
           (\<lambda>_. socket_bind pf os (handle_native s) local_address)))"

definition datagram_send_to ::
  "platform \<Rightarrow> 'k os \<Rightarrow> socket \<Rightarrow> sockaddr_un \<Rightarrow> byte list option \<Rightarrow> size_t \<Rightarrow> (size_t, 'k) io" where
  "datagram_send_to pf os s remote_address buffer len =
     io_bind (length_of remote_address)
       (\<lambda>n. io_bind (require (not_zero n ''remote_address cannot be empty''))
         (\<lambda>_. io_bind (require (not_null buffer ''buffer cannot be nullptr''))
           (\<lambda>_. io_bind (require (not_zero len ''length cannot be zero''))
             (\<lambda>_. socket_send_to pf os (handle_native s) remote_address (the buffer) len))))"

definition datagram_receive_from ::
  "platform \<Rightarrow> 'k os \<Rightarrow> socket \<Rightarrow> sockaddr_un \<Rightarrow> byte list option \<Rightarrow> size_t \<Rightarrow>
     (size_t \<times> byte list \<times> sockaddr_un, 'k) io" where
  "datagram_receive_from pf os s remote_address buffer len =
     io_bind (require (not_null buffer ''buffer cannot be nullptr''))
       (\<lambda>_. io_bind (require (not_zero len ''length cannot be zero''))
         (\<lambda>_. socket_receive_from pf os (handle_native s) remote_address (the buffer) len))"

subsection \<open>The life of a socket\<close>

lemmas socket_destroy_eqs = stream_destroy_def stream_socket_destroy_def server_destroy_def datagram_destroy_def

lemmas socket_move_eqs =
  basic_socket_move_def stream_move_def stream_socket_move_def server_move_def datagram_move_def handle_move_def

text \<open>A socket of any class is opened by one system call and, moved or not, closed by one: destroying
  the object it was moved from does nothing.\<close>

lemma socket_opened:
  assumes "os (SysSocket (family_to_integral (family pr)) (type_to_integral t) (protocol_to_integral (protocol.protocol pr))) k
    = (r, k1)"
  shows "basic_socket_new os pr t k = (if ret r = -1 then (Inl (SystemError (errno r)), k1) else (Inr \<lparr>m_value = ret r\<rparr>, k1))"
  using assms
  by (simp add: basic_socket_new_def handle_construct_def socket_construct_def io_bind_checked Let_def io_return_def)

lemma socket_closed_once:
  assumes "move \<in> {basic_socket_move, stream_move, stream_socket_move, server_move, datagram_move}"
    and "destroy \<in> {basic_socket_destroy os, stream_destroy os, stream_socket_destroy os, server_destroy os,
      datagram_destroy os}"
    and "move s = (t, old)"
  shows "destroy old k = (False, k) \<and> destroy t k = basic_socket_destroy os s k"
  using assms
  by (auto simp: socket_move_eqs socket_destroy_eqs basic_socket_destroy_def handle_destroy_def handle_is_valid_def
      invalid_value_def)

subsection \<open>Properties\<close>

lemma and_or_mask: "((flags OR m) AND m) = (m :: int)"
  by (rule bit_eqI) (auto simp: bit_simps)

lemma and_not_mask: "(flags AND NOT m) AND m = (0 :: int)"
  by (rule bit_eqI) (auto simp: bit_simps)

lemma masked_bits:
  assumes "m AND n = (m :: int)"
  shows "((x AND NOT n) OR ((x OR m) AND n)) AND m = m" and "((x AND NOT n) OR ((x AND NOT m) AND n)) AND m = 0"
    and "\<not> bit m i \<Longrightarrow> bit ((x AND NOT n) OR ((x OR m) AND n)) i = bit x i"
    and "\<not> bit m i \<Longrightarrow> bit ((x AND NOT n) OR ((x AND NOT m) AND n)) i = bit x i"
proof -
  have sub: "bit m i \<Longrightarrow> bit n i" for i using assms by (metis bit_and_iff)
  then show "((x AND NOT n) OR ((x OR m) AND n)) AND m = m" "((x AND NOT n) OR ((x AND NOT m) AND n)) AND m = 0"
    by (auto intro!: bit_eqI simp: bit_simps)
  show "\<not> bit m i \<Longrightarrow> bit ((x AND NOT n) OR ((x OR m) AND n)) i = bit x i"
    "\<not> bit m i \<Longrightarrow> bit ((x AND NOT n) OR ((x AND NOT m) AND n)) i = bit x i"
    by (auto simp: bit_simps)
qed

lemma fcntl_lawsD:
  assumes "fcntl_laws os fd settable status"
  shows "os (SysGetFl fd) k = (r, k') \<Longrightarrow> status k' = status k"
    and "os (SysGetFl fd) k = (r, k') \<Longrightarrow> ret r \<noteq> -1 \<Longrightarrow> ret r = status k"
    and "os (SysSetFl fd f) k = (r, k') \<Longrightarrow> ret r \<noteq> -1 \<Longrightarrow> status k' = (status k AND NOT settable) OR (f AND settable)"
    and "os (SysSetFl fd f) k = (r, k') \<Longrightarrow> ret r \<noteq> -1 \<Longrightarrow> ret (fst (os (SysGetFl fd) k')) \<noteq> -1"
  using assms unfolding fcntl_laws_def by metis+

text \<open>C36: the blocking mode round trip. On a system that keeps the documented behaviour of \<open>fcntl\<close>, where
  \<open>O_NONBLOCK\<close> is one of the flags that can be set and others, as the access mode, may not be: when
  \<open>non_blocking(mode)\<close> succeeds, \<open>is_non_blocking()\<close> returns \<open>mode\<close>, and the flags of the descriptor differ
  from those it had in the bits of \<open>O_NONBLOCK\<close> only.\<close>

theorem non_blocking_roundtrip:
  assumes "fcntl_laws os (handle_native s) settable status" and "o_nonblock pf \<noteq> 0"
    and "o_nonblock pf AND settable = o_nonblock pf" and "basic_non_blocking pf os s mode k = (Inr (), k')"
  shows "fst (basic_is_non_blocking pf os s k') = Inr mode
    \<and> ret (fst (os (SysGetFl (handle_native s)) k')) = status k'
    \<and> (\<forall>i. \<not> bit (o_nonblock pf) i \<longrightarrow> bit (status k') i = bit (status k) i)"
proof -
  let ?fd = "handle_native s" and ?m = "o_nonblock pf"
  obtain r0 k0 where g: "os (SysGetFl ?fd) k = (r0, k0)" by fastforce
  define flags where "flags = (if mode then ret r0 OR ?m else ret r0 AND NOT ?m)"
  have set: "io_bind (checked os (SysSetFl ?fd flags)) (\<lambda>_. io_return ()) k0 = (Inr (), k')" and ok: "ret r0 \<noteq> -1"
    using assms(4) g
    by (simp_all add: basic_non_blocking_def non_blocking_def get_descriptor_flags_def io_bind_assoc io_bind_checked
        io_bind_def [of "io_return _"] Let_def flags_def split: if_splits)
  note laws = fcntl_lawsD [OF assms(1)]
  from laws(1,2) [OF g] ok have r0: "ret r0 = status k" "status k0 = status k" by simp_all
  from set obtain r1 where r1: "os (SysSetFl ?fd flags) k0 = (r1, k')" "ret r1 \<noteq> -1"
    by (auto simp: io_bind_checked Let_def split: prod.splits if_splits)
  obtain r2 k2 where g': "os (SysGetFl ?fd) k' = (r2, k2)" by fastforce
  have st: "status k' = (status k AND NOT settable) OR (flags AND settable)" "ret r2 \<noteq> -1"
    using laws(3,4) [OF r1] r0(2) g' by simp_all
  with laws(2) [OF g'] have "ret r2 = status k'" by simp
  note st = st this
  have "((status k' AND ?m) = ?m) = mode" "\<not> bit ?m i \<Longrightarrow> bit (status k') i = bit (status k) i" for i
    using masked_bits [OF assms(3), where x = "status k"] assms(2) by (cases mode; simp add: st(1) flags_def r0)+
  with g' st(2,3) show ?thesis
    by (simp add: basic_is_non_blocking_def is_non_blocking_def get_descriptor_flags_def io_bind_assoc
        io_bind_checked io_bind_def [of "io_return _"] Let_def)
qed

text \<open>A kernel of one descriptor with twelve flags, of which those in \<open>settable\<close> can be set.\<close>

definition flag_os :: "int \<Rightarrow> int os" where
  "flag_os settable c k =
     (case c of
        SysGetFl fd \<Rightarrow> (\<lparr>ret = take_bit 12 k, errno = 0, written = [], peer = None\<rparr>, k)
      | SysSetFl fd f \<Rightarrow>
          (\<lparr>ret = 0, errno = 0, written = [], peer = None\<rparr>, (take_bit 12 k AND NOT settable) OR (f AND settable))
      | _ \<Rightarrow> (\<lparr>ret = 0, errno = 0, written = [], peer = None\<rparr>, k))"

lemma take_bit_masked:
  assumes "take_bit n m = (m :: int)"
  shows "take_bit n ((take_bit n x AND NOT m) OR (f AND m)) = (take_bit n x AND NOT m) OR (f AND m)"
proof -
  have "bit m i \<Longrightarrow> i < n" for i using assms by (metis bit_take_bit_iff)
  then show ?thesis by (auto intro!: bit_eqI simp: bit_simps)
qed

lemma flag_os_laws:
  assumes "take_bit 12 settable = settable"
  shows "fcntl_laws (flag_os settable) fd settable (take_bit 12)"
proof -
  have pos: "take_bit 12 k \<noteq> (-1 :: int)" for k
    by (metis take_bit_nonnegative neg_0_le_iff_le not_one_le_zero)
  have "(take_bit 12 k AND NOT settable) OR (f AND settable) \<noteq> -1" for k f
    using pos take_bit_masked [OF assms, of k f] by metis
  then show ?thesis
    by (simp add: fcntl_laws_def flag_os_def take_bit_masked [OF assms] pos del: take_bit_or take_bit_and)
qed

abbreviation linux :: platform where
  "linux \<equiv> \<lparr>af_local = 1, sun_path_size = 108, sizeof_sockaddr_un = 110, enoent = 2, o_nonblock = 2048, somaxconn = 4096,
     msg_nosignal = 16384\<rparr>"

theorem non_blocking_roundtrip_witness:
  "\<exists>k'. basic_non_blocking linux (flag_os 3072) \<lparr>m_value = 3\<rparr> True 2 = (Inr (), k')
     \<and> fst (basic_is_non_blocking linux (flag_os 3072) \<lparr>m_value = 3\<rparr> k') = Inr True"
proof -
  let ?s = "\<lparr>m_value = 3\<rparr> :: socket"
  obtain k' where nb: "basic_non_blocking linux (flag_os 3072) ?s True 2 = (Inr (), k')"
    by (simp add: basic_non_blocking_def non_blocking_def get_descriptor_flags_def io_bind_assoc
        io_bind_checked io_bind_def [of "io_return _"] Let_def flag_os_def)
  from non_blocking_roundtrip [OF flag_os_laws _ _ nb] nb show ?thesis by auto
qed

text \<open>C37: arguments are checked before the system is touched. With a null buffer or a zero length no
  socket function makes a system call: the kernel state is unchanged, whatever the system, and
  the caller gets \<open>invalid_argument\<close>, for the buffer first. So it is with an empty address, and
  with a null handler given to \<open>accept\<close>.\<close>

theorem arguments_checked_first:
  assumes "buffer = None \<or> len = 0" and "address_length a = Some 0" and "address_length b = Some (Suc n)"
  shows "let e = (if buffer = None then ''buffer cannot be nullptr'' else ''length cannot be zero'')
    in stream_receive os s buffer len k = (Inl (InvalidArgument e), k)
     \<and> stream_send pf os s buffer len k = (Inl (InvalidArgument e), k)
     \<and> datagram_receive_from pf os s c buffer len k = (Inl (InvalidArgument e), k)
     \<and> datagram_send_to pf os s b buffer len k = (Inl (InvalidArgument e), k)
     \<and> datagram_send_to pf os s a buf' len' k = (Inl (InvalidArgument ''remote_address cannot be empty''), k)
     \<and> stream_connect pf os s a k = (Inl (InvalidArgument ''remote_address cannot be empty''), k)
     \<and> server_bind pf stale os pr s a k = (Inl (InvalidArgument ''address cannot be empty''), k)
     \<and> datagram_bind pf stale os pr s a k = (Inl (InvalidArgument ''local_address cannot be empty''), k)
     \<and> server_accept os s None k = ((Inl (InvalidArgument ''handler cannot be nullptr''), False), k)"
  using assms
  by (auto simp: Let_def stream_receive_def stream_send_def datagram_receive_from_def datagram_send_to_def
      stream_connect_def server_bind_def datagram_bind_def server_accept_def io_bind_require
      io_bind_def [of "length_of _"] length_of_def not_null_def not_zero_def)

theorem arguments_checked_first_witness:
  "stream_send linux (flag_os 3072) \<lparr>m_value = 3\<rparr> (Some [1]) 0 7 =
     (Inl (InvalidArgument ''length cannot be zero''), 7)"
proof -
  have "address_length \<lparr>sun_family = 1, sun_path = [NUL]\<rparr> = Some 0"
    "address_length \<lparr>sun_family = 1, sun_path = [CHR ''x'', NUL]\<rparr> = Some (Suc 0)"
    by (simp_all add: address_length_eq c_string_def)
  from arguments_checked_first [OF _ this, of "Some [1]" 0 "flag_os 3072" "\<lparr>m_value = 3\<rparr>" 7 linux]
  show ?thesis by (simp add: Let_def)
qed

lemma unlink_first_eq:
  "c_string (sun_path a) = Some path \<Longrightarrow> path \<noteq> [] \<Longrightarrow>
     unlink_first pf stale os a k =
       (let (r, k1) = os (SysUnlink (stale path)) k
        in (if ret r = -1 \<and> errno r \<noteq> enoent pf then Inl (SystemError (errno r)) else Inr (), k1))"
  by (simp add: unlink_first_def unlink_address_def to_string_view_def not_zero_def no_system_error_other_than_eq Let_def
      split: prod.splits)

text \<open>Binding a local socket. For an address with a nonempty path \<open>bind\<close>, of a server and of a
  datagram socket, first unlinks the path as read through the dangling view; an error of it
  other than \<open>ENOENT\<close> is thrown and nothing is bound; otherwise the address is bound, and an
  error of that is thrown. For another family there is no unlinking.\<close>

theorem bind_unlinks_first:
  assumes "c_string (sun_path a) = Some path" and "path \<noteq> []"
  shows "server_bind pf stale os pr s a k =
      (if family pr = ipc then
         (let (r, k1) = os (SysUnlink (stale path)) k
          in if ret r = -1 \<and> errno r \<noteq> enoent pf then (Inl (SystemError (errno r)), k1)
             else socket_bind pf os (handle_native s) a k1)
       else socket_bind pf os (handle_native s) a k)
    \<and> datagram_bind pf stale os pr s a k = server_bind pf stale os pr s a k"
  using assms
  by (auto simp: server_bind_def datagram_bind_def io_bind_require io_bind_def [of "length_of _"] length_of_def
      address_length_eq not_zero_def io_bind_def [of "unlink_first _ _ _ _"] io_bind_def [of "io_return _"]
      unlink_first_eq Let_def split: prod.splits)

text \<open>A kernel that logs its calls; paths do not exist.\<close>

definition log_os :: "syscall list os" where
  "log_os c k =
     ((case c of
         SysUnlink path \<Rightarrow> \<lparr>ret = -1, errno = 2, written = [], peer = None\<rparr>
       | _ \<Rightarrow> \<lparr>ret = 5, errno = 0, written = [], peer = None\<rparr>), k @ [c])"

theorem bind_unlinks_first_witness:
  "let a = \<lparr>sun_family = 1, sun_path = [CHR ''x'', NUL]\<rparr>
   in server_bind linux (\<lambda>p. p) log_os ipc_protocol \<lparr>m_value = 3\<rparr> a [] =
        (Inr (), [SysUnlink ''x'', SysBind 3 a 110])"
proof -
  let ?a = "\<lparr>sun_family = 1, sun_path = [CHR ''x'', NUL]\<rparr>"
  have "c_string (sun_path ?a) = Some ''x''" by (simp add: c_string_def)
  from bind_unlinks_first [OF this, of linux "\<lambda>p. p" log_os ipc_protocol "\<lparr>m_value = 3\<rparr>" "[]"]
  show ?thesis
    by (simp add: Let_def ipc_protocol_def log_os_def socket_bind_def bind_sized_def io_bind_checked handle_native_def)
qed

text \<open>C39: the listen queue. Whatever 64-bit size the caller asks for, \<open>listen\<close> makes one system call,
  with the smaller of it and \<open>SOMAXCONN\<close>; the conversion to \<open>int\<close> loses nothing.\<close>

theorem listen_clamped:
  assumes "0 \<le> somaxconn pf" and "somaxconn pf < 2 ^ 31"
  shows "server_listen pf os s queue_size k =
    (let (r, k') = os (SysListen (handle_native s) (min (int (unat queue_size)) (somaxconn pf))) k
     in (if ret r = -1 then Inl (SystemError (errno r)) else Inr (), k'))"
proof -
  from assms(1) obtain n where n: "somaxconn pf = int n" by (rule nonneg_int_cases)
  with assms(2) have m: "unat (max_que pf) = n"
    by (simp add: max_que_def max_listen_que_def unat_of_nat)
  have u: "unat (min queue_size (max_que pf)) = min (unat queue_size) n"
    by (simp add: min_def word_le_nat_alt m)
  have "to_int (min queue_size (max_que pf)) = int (min (unat queue_size) n)"
    using assms(2) n by (subst to_int_small) (simp_all only: u, simp)
  also have "\<dots> = min (int (unat queue_size)) (somaxconn pf)"
    by (simp only: n of_nat_min)
  finally have "to_int (min queue_size (max_que pf)) = min (int (unat queue_size)) (somaxconn pf)" .
  then show ?thesis
    by (simp add: server_listen_def socket_listen_def io_bind_checked Let_def split: prod.splits)
qed

theorem listen_clamped_witness:
  "server_listen linux log_os \<lparr>m_value = 3\<rparr> (2 ^ 32) [] = (Inr (), [SysListen 3 4096])"
  using listen_clamped [of linux log_os "\<lparr>m_value = 3\<rparr>" "2 ^ 32" "[]"]
  by (simp add: log_os_def handle_native_def)

text \<open>Timeouts of a second or more cannot be set. \<open>set_timeout\<close> puts the whole duration into
  \<open>tv_usec\<close> and leaves \<open>tv_sec\<close> zero, so on a system that refuses a \<open>tv_usec\<close> of a second or more it
  throws for every timeout from one second up, and changes nothing.\<close>

theorem long_timeouts_rejected:
  assumes "rejects_long_usec os edom" and "1000000 \<le> duration_cast_us d"
  shows "basic_set_timeout os s d k = (Inl (SystemError edom), k)
    \<and> basic_set_send_timeout os s d k = (Inl (SystemError edom), k)
    \<and> basic_set_receive_timeout os s d k = (Inl (SystemError edom), k)"
proof -
  have call: "io_bind (checked os (SysSetSockOpt fd opt \<lparr>tv_sec = 0, tv_usec = duration_cast_us d\<rparr>)) f k
      = (Inl (SystemError edom), k)" for fd opt and f :: "sysret \<Rightarrow> (unit, 'a) io"
  proof -
    from assms obtain r where "os (SysSetSockOpt fd opt \<lparr>tv_sec = 0, tv_usec = duration_cast_us d\<rparr>) k = (r, k)"
      "ret r = -1" "errno r = edom"
      unfolding rejects_long_usec_def by (metis timeval.select_convs(2))
    then show ?thesis by (simp add: io_bind_checked)
  qed
  show ?thesis
    by (simp add: call basic_set_timeout_def basic_set_send_timeout_def basic_set_receive_timeout_def
        set_send_timeout_def set_receive_timeout_def io_bind_assoc)
qed

definition timeout_os :: "nat os" where
  "timeout_os c k =
     (case c of
        SysSetSockOpt fd opt tv \<Rightarrow>
          if 1000000 \<le> tv_usec tv
          then (\<lparr>ret = -1, errno = 33, written = [], peer = None\<rparr>, k)
          else (\<lparr>ret = 0, errno = 0, written = [], peer = None\<rparr>, Suc k)
      | _ \<Rightarrow> (\<lparr>ret = 0, errno = 0, written = [], peer = None\<rparr>, k))"

theorem long_timeouts_rejected_witness:
  "basic_set_timeout timeout_os \<lparr>m_value = 3\<rparr> \<lparr>ticks = 2, num = 1, den = 1\<rparr> 0 = (Inl (SystemError 33), 0)"
proof -
  have "rejects_long_usec timeout_os 33" by (simp add: rejects_long_usec_def timeout_os_def)
  from long_timeouts_rejected [OF this, of "\<lparr>ticks = 2, num = 1, den = 1\<rparr>" "\<lparr>m_value = 3\<rparr>" 0]
  show ?thesis by (simp add: duration_cast_us_def)
qed

text \<open>C40: an accepted connection is not leaked. When the system call fails its error is thrown and the
  handler is not called. Otherwise the handler gets the new descriptor, and when it returns or
  throws the descriptor is closed unless the handler moved the socket away.\<close>

theorem accept_ownership:
  assumes "os (SysAccept (handle_native s)) k = (r, k1)"
  shows "server_accept os s (Some handler) k =
    (if ret r = -1 then ((Inl (SystemError (errno r)), False), k1)
     else (let ((x, left), k2) = handler \<lparr>m_value = ret r\<rparr> k1
           in if m_value left = -1 then ((x, False), k2)
              else (let (c, k3) = os (SysClose (m_value left)) k2 in ((x, ret c = -1), k3))))"
  using assms
  by (auto simp: server_accept_def not_null_def socket_accept_def io_bind_checked Let_def
      stream_socket_from_def stream_from_def basic_socket_from_def handle_from_native_def socket_destroy_eqs
      basic_socket_destroy_def handle_destroy_def
      handle_is_valid_def invalid_value_def socket_destroy_def is_system_error_def split: prod.splits)

theorem accept_ownership_witness:
  "server_accept log_os \<lparr>m_value = 3\<rparr> (Some (\<lambda>s k. ((Inr (), s), k))) [] =
     ((Inr (), False), [SysAccept 3, SysClose 5])"
proof -
  have "log_os (SysAccept (handle_native \<lparr>m_value = 3\<rparr>)) [] =
      (\<lparr>ret = 5, errno = 0, written = [], peer = None\<rparr>, [SysAccept 3])"
    by (simp add: log_os_def handle_native_def)
  from accept_ownership [where os = log_os and s = "\<lparr>m_value = 3\<rparr>" and k = "[]", OF this,
      of "\<lambda>s k. ((Inr (), s), k)"]
  show ?thesis by (simp add: log_os_def)
qed

end
