(* ===== verification/SocketExchange.thy ===== *)
theory SocketExchange
  imports Sockets
begin

section \<open>What two connected sockets exchange\<close>

text \<open>
  The member functions of the socket classes seen from both ends of a connection. The operating
  system stays a parameter: \<open>stream_laws\<close> and \<open>datagram_laws\<close> state what is documented of \<open>send\<close>,
  \<open>recv\<close>, \<open>sendto\<close> and \<open>recvfrom\<close>, with an observation of the kernel state, the bytes or the
  messages on their way. What is shown is that the code between the system calls and the callers
  (the argument checks, the conversions of the sizes, the buffers that are written to) loses and
  invents nothing, whatever sequence of calls the two ends make.
\<close>

subsection \<open>Calls at both ends\<close>

text \<open>A call at the near end (\<open>True\<close>) or the far end of the connection.\<close>

datatype stream_call =
    CallSend bool "byte list option" size_t
  | CallReceive bool "byte list option" size_t

text \<open>Passing a length beyond the size of the buffer is undefined behaviour.\<close>

fun buffer_ok :: "byte list option \<Rightarrow> size_t \<Rightarrow> bool" where
  "buffer_ok None len = True"
| "buffer_ok (Some b) len = (unat len \<le> length b)"

fun call_ok :: "stream_call \<Rightarrow> bool" where
  "call_ok (CallSend near buffer len) = buffer_ok buffer len"
| "call_ok (CallReceive near buffer len) = buffer_ok buffer len"

text \<open>What the callers know of the direction from the near to the far end: the bytes that the
  returned sizes say were sent and received. A call that throws sent or received nothing.\<close>

fun exchange_call ::
  "platform \<Rightarrow> 'k os \<Rightarrow> socket \<Rightarrow> socket \<Rightarrow> stream_call \<Rightarrow> 'k \<Rightarrow> (byte list \<times> byte list) \<times> 'k" where
  "exchange_call pf os s t (CallSend near buffer len) k =
     (case stream_send pf os (if near then s else t) buffer len k of
        (Inl e, k') \<Rightarrow> (([], []), k')
      | (Inr n, k') \<Rightarrow> ((if near then take (unat n) (the buffer) else [], []), k'))"
| "exchange_call pf os s t (CallReceive near buffer len) k =
     (case stream_receive os (if near then s else t) buffer len k of
        (Inl e, k') \<Rightarrow> (([], []), k')
      | (Inr (n, b), k') \<Rightarrow> (([], if near then [] else take (unat n) b), k'))"

fun exchange ::
  "platform \<Rightarrow> 'k os \<Rightarrow> socket \<Rightarrow> socket \<Rightarrow> stream_call list \<Rightarrow> 'k \<Rightarrow> (byte list \<times> byte list) \<times> 'k" where
  "exchange pf os s t [] k = (([], []), k)"
| "exchange pf os s t (c # cs) k =
     (let ((sent, got), k') = exchange_call pf os s t c k;
          ((sent', got'), k'') = exchange pf os s t cs k'
      in ((sent @ sent', got @ got'), k''))"

subsection \<open>What the system promises\<close>

text \<open>A call that sends at \<open>a\<close> hands over a prefix of the buffer, of the length it returns, behind the
  bytes on their way to \<open>b\<close>; one that receives at \<open>b\<close> takes away and writes as many of their first
  bytes as it returns. A failing call and a call in the other direction leave them alone.\<close>

definition hands_over :: "('k \<Rightarrow> byte list) \<Rightarrow> byte list \<Rightarrow> size_t \<Rightarrow> 'k \<Rightarrow> sysret \<times> 'k \<Rightarrow> bool" where
  "hands_over on_way buf len k x \<longleftrightarrow>
     (let (r, k') = x
      in if ret r = -1 then on_way k' = on_way k
         else 0 \<le> ret r \<and> nat (ret r) \<le> unat len \<and> on_way k' = on_way k @ take (nat (ret r)) buf)"

definition takes_away :: "('k \<Rightarrow> byte list) \<Rightarrow> size_t \<Rightarrow> 'k \<Rightarrow> sysret \<times> 'k \<Rightarrow> bool" where
  "takes_away on_way len k x \<longleftrightarrow>
     (let (r, k') = x
      in if ret r = -1 then on_way k' = on_way k
         else 0 \<le> ret r \<and> nat (ret r) \<le> unat len \<and> nat (ret r) \<le> length (on_way k)
            \<and> written r = take (nat (ret r)) (on_way k) \<and> on_way k' = drop (nat (ret r)) (on_way k))"

text \<open>The calls are those that the code makes: with a buffer as long as the length says, with the flag
  \<open>MSG_NOSIGNAL\<close> for \<open>send\<close> and without flags for \<open>recv\<close>.\<close>

definition stream_laws :: "platform \<Rightarrow> 'k os \<Rightarrow> int \<Rightarrow> int \<Rightarrow> ('k \<Rightarrow> byte list) \<Rightarrow> bool" where
  "stream_laws pf os a b on_way \<longleftrightarrow>
     (\<forall>buf len k. unat len \<le> length buf \<longrightarrow>
        hands_over on_way buf len k (os (SysSend a buf len (msg_nosignal pf)) k)
      \<and> on_way (snd (os (SysSend b buf len (msg_nosignal pf)) k)) = on_way k)
     \<and> (\<forall>len k. takes_away on_way len k (os (SysRecv b len 0) k)
              \<and> on_way (snd (os (SysRecv a len 0) k)) = on_way k)"

subsection \<open>One call\<close>

text \<open>\<open>static_cast<std::size_t>\<close> of a count that the system bounds by the length asked for.\<close>

lemma unat_count:
  assumes "0 \<le> n" and "nat n \<le> unat (len :: size_t)"
  shows "unat (of_int n :: size_t) = nat n"
proof -
  have "nat n < 2 ^ 64" using assms(2) unsigned_less [of len, where ?'a = nat] by simp
  then show ?thesis using assms(1) by (simp add: unat_of_nat flip: of_nat_nat)
qed

lemma stream_send_eq:
  "stream_send pf os s buffer len k =
     (if buffer = None then (Inl (InvalidArgument ''buffer cannot be nullptr''), k)
      else if len = 0 then (Inl (InvalidArgument ''length cannot be zero''), k)
      else (let (r, k') = os (SysSend (handle_native s) (the buffer) len (msg_nosignal pf)) k
            in (if ret r = -1 then Inl (SystemError (errno r)) else Inr (of_int (ret r)), k')))"
  by (auto simp: stream_send_def socket_send_def io_bind_require not_null_def not_zero_def io_bind_checked Let_def
      split: prod.splits)

lemma stream_receive_eq:
  "stream_receive os s buffer len k =
     (if buffer = None then (Inl (InvalidArgument ''buffer cannot be nullptr''), k)
      else if len = 0 then (Inl (InvalidArgument ''length cannot be zero''), k)
      else (let (r, k') = os (SysRecv (handle_native s) len 0) k
            in (if ret r = -1 then Inl (SystemError (errno r))
                else Inr (of_int (ret r), overlay (written r) (the buffer)), k')))"
  by (auto simp: stream_receive_def socket_receive_def io_bind_require not_null_def not_zero_def io_bind_checked
      Let_def split: prod.splits)

lemma take_overlay: "length new \<le> length old \<Longrightarrow> take (length new) (overlay new old) = new"
  by (simp add: overlay_def)

lemma stream_lawsD:
  assumes "stream_laws pf os a b on_way"
  shows "unat len \<le> length buf \<Longrightarrow> hands_over on_way buf len k (os (SysSend a buf len (msg_nosignal pf)) k)"
    and "unat len \<le> length buf \<Longrightarrow> on_way (snd (os (SysSend b buf len (msg_nosignal pf)) k)) = on_way k"
    and "takes_away on_way len k (os (SysRecv b len 0) k)"
    and "on_way (snd (os (SysRecv a len 0) k)) = on_way k"
  using assms unfolding stream_laws_def by blast+

lemma send_law:
  assumes "stream_laws pf os (handle_native s) (handle_native t) on_way"
    and "buffer_ok buffer len" and "exchange_call pf os s t (CallSend near buffer len) k = ((sent, got), k')"
  shows "on_way k @ sent = got @ on_way k'"
proof (cases "buffer = None \<or> len = 0")
  case True
  with assms(3) show ?thesis by (auto simp: stream_send_eq split: if_splits)
next
  case False
  obtain r k1 where os: "os (SysSend (handle_native (if near then s else t)) (the buffer) len (msg_nosignal pf)) k = (r, k1)"
    by fastforce
  then have "if near then hands_over on_way (the buffer) len k (r, k1) else on_way k1 = on_way k"
    using stream_lawsD(1,2) [OF assms(1), of len "the buffer" k] assms(2) False by auto
  with os assms(3) False show ?thesis
    by (auto simp: stream_send_eq unat_count hands_over_def split: if_splits)
qed

lemma receive_law:
  assumes "stream_laws pf os (handle_native s) (handle_native t) on_way" and "buffer_ok buffer len"
    and "exchange_call pf os s t (CallReceive near buffer len) k = ((sent, got), k')"
  shows "on_way k @ sent = got @ on_way k'"
proof (cases "buffer = None \<or> len = 0")
  case True
  with assms(3) show ?thesis by (auto simp: stream_receive_eq split: if_splits)
next
  case False
  obtain r k1 where os: "os (SysRecv (handle_native (if near then s else t)) len 0) k = (r, k1)"
    by fastforce
  then have law: "if near then on_way k1 = on_way k else takes_away on_way len k (r, k1)"
    using stream_lawsD(3,4) [OF assms(1), of len k] by (auto split: if_splits)
  then have "take (nat (ret r)) (overlay (written r) (the buffer)) = take (nat (ret r)) (on_way k)"
    if "\<not> near" "ret r \<noteq> -1"
    using that False assms(2) take_overlay [of "written r" "the buffer"] by (auto simp: takes_away_def)
  with law os assms(3) False show ?thesis
    by (auto simp: stream_receive_eq unat_count takes_away_def split: if_splits)
qed

lemma exchange_law:
  assumes laws: "stream_laws pf os (handle_native s) (handle_native t) on_way"
    and "\<forall>c \<in> set cs. call_ok c" and "exchange pf os s t cs k = ((sent, got), k')"
  shows "on_way k @ sent = got @ on_way k'"
  using assms(2,3)
proof (induction cs arbitrary: k sent got k')
  case (Cons c cs)
  obtain sent1 got1 k1 where c: "exchange_call pf os s t c k = ((sent1, got1), k1)" by (metis surj_pair)
  obtain sent2 got2 k2 where cs: "exchange pf os s t cs k1 = ((sent2, got2), k2)" by (metis surj_pair)
  have "on_way k @ sent1 = got1 @ on_way k1"
    using c Cons.prems(1) send_law [OF laws] receive_law [OF laws] by (cases c) fastforce+
  moreover have "on_way k1 @ sent2 = got2 @ on_way k2" using Cons.IH [OF _ cs] Cons.prems(1) by simp
  ultimately have "on_way k @ sent1 @ sent2 = got1 @ got2 @ on_way k2"
    by (metis append.assoc)
  with Cons.prems(2) c cs show ?case by auto
qed simp

subsection \<open>Datagrams\<close>

datatype datagram_call =
    CallSendTo "byte list option" size_t
  | CallReceiveFrom sockaddr_un "byte list option" size_t

fun datagram_call_ok :: "datagram_call \<Rightarrow> bool" where
  "datagram_call_ok (CallSendTo buffer len) = buffer_ok buffer len"
| "datagram_call_ok (CallReceiveFrom address buffer len) = buffer_ok buffer len"

text \<open>The messages that \<open>s\<close> has sent to the address of \<open>t\<close>, and what \<open>t\<close> has received, each with
  the length that it asked for, and the address that it had in its variable before and after.\<close>

fun datagram_exchange_call ::
  "platform \<Rightarrow> 'k os \<Rightarrow> socket \<Rightarrow> sockaddr_un \<Rightarrow> socket \<Rightarrow> datagram_call \<Rightarrow> 'k \<Rightarrow>
     (byte list list \<times> (size_t \<times> sockaddr_un \<times> sockaddr_un \<times> byte list) list) \<times> 'k" where
  "datagram_exchange_call pf os s to t (CallSendTo buffer len) k =
     (case datagram_send_to pf os s to buffer len k of
        (Inl e, k') \<Rightarrow> (([], []), k')
      | (Inr n, k') \<Rightarrow> (([take (unat n) (the buffer)], []), k'))"
| "datagram_exchange_call pf os s to t (CallReceiveFrom address buffer len) k =
     (case datagram_receive_from pf os t address buffer len k of
        (Inl e, k') \<Rightarrow> (([], []), k')
      | (Inr (n, b, p), k') \<Rightarrow> (([], [(len, address, p, take (unat n) b)]), k'))"

fun datagram_exchange ::
  "platform \<Rightarrow> 'k os \<Rightarrow> socket \<Rightarrow> sockaddr_un \<Rightarrow> socket \<Rightarrow> datagram_call list \<Rightarrow> 'k \<Rightarrow>
     (byte list list \<times> (size_t \<times> sockaddr_un \<times> sockaddr_un \<times> byte list) list) \<times> 'k" where
  "datagram_exchange pf os s to t [] k = (([], []), k)"
| "datagram_exchange pf os s to t (c # cs) k =
     (let ((sent, got), k') = datagram_exchange_call pf os s to t c k;
          ((sent', got'), k'') = datagram_exchange pf os s to t cs k'
      in ((sent @ sent', got @ got'), k''))"

text \<open>What is documented of local datagram sockets: \<open>sendto\<close> sends the whole message or fails;
  \<open>recvfrom\<close> takes the first message waiting, writes as much of it as fits, drops the rest, and
  tells the address of the sender, \<open>source\<close>, if that is bound to one.\<close>

definition posts :: "('k \<Rightarrow> byte list list) \<Rightarrow> byte list \<Rightarrow> size_t \<Rightarrow> 'k \<Rightarrow> sysret \<times> 'k \<Rightarrow> bool" where
  "posts mailbox buf len k x \<longleftrightarrow>
     (let (r, k') = x
      in if ret r = -1 then mailbox k' = mailbox k
         else ret r = int (unat len) \<and> mailbox k' = mailbox k @ [take (unat len) buf])"

definition fetches :: "('k \<Rightarrow> byte list list) \<Rightarrow> sockaddr_un option \<Rightarrow> size_t \<Rightarrow> 'k \<Rightarrow> sysret \<times> 'k \<Rightarrow> bool" where
  "fetches mailbox source len k x \<longleftrightarrow>
     (let (r, k') = x
      in if ret r = -1 then mailbox k' = mailbox k
         else (\<exists>m. mailbox k = m # mailbox k' \<and> ret r = int (min (unat len) (length m))
             \<and> written r = take (unat len) m \<and> peer r = source))"

definition datagram_laws ::
  "platform \<Rightarrow> 'k os \<Rightarrow> int \<Rightarrow> sockaddr_un option \<Rightarrow> sockaddr_un \<Rightarrow> int \<Rightarrow> ('k \<Rightarrow> byte list list) \<Rightarrow> bool" where
  "datagram_laws pf os a source to b mailbox \<longleftrightarrow>
     (\<forall>buf len k. posts mailbox buf len k (os (SysSendTo a buf len 0 to (ucast (sizeof_sockaddr_un pf))) k))
     \<and> (\<forall>len k. fetches mailbox source len k (os (SysRecvFrom b len 0 (ucast (sizeof_sockaddr_un pf))) k))"

text \<open>A message as it is received: cut to the length asked for, and with the address of its sender written
  over the receiver's variable. A terminated path that fits there is then read from it, and a full
  \<open>sockaddr_un\<close> is copied as it is.\<close>

definition received_as ::
  "sockaddr_un option \<Rightarrow> size_t \<times> sockaddr_un \<times> sockaddr_un \<times> byte list \<Rightarrow> byte list \<Rightarrow> bool" where
  "received_as source x m \<longleftrightarrow>
     (case x of (len, before, after, m') \<Rightarrow>
        m' = take (unat len) m \<and> after = write_address source before
        \<and> (case source of
             None \<Rightarrow> after = before
           | Some a \<Rightarrow>
               (NUL \<in> set (sun_path a) \<and> length (sun_path a) \<le> length (sun_path before) \<longrightarrow>
                  sun_family after = sun_family a \<and> c_string (sun_path after) = c_string (sun_path a))
               \<and> (length (sun_path a) = length (sun_path before) \<longrightarrow> after = a)))"

lemma received_as_written: "received_as source (len, before, write_address source before, take (unat len) m) m"
proof (cases source)
  case (Some a)
  have "takeWhile (\<lambda>c. c \<noteq> NUL) (overlay (sun_path a) (sun_path before)) = takeWhile (\<lambda>c. c \<noteq> NUL) (sun_path a)"
    "NUL \<in> set (overlay (sun_path a) (sun_path before))"
    if "NUL \<in> set (sun_path a)" "length (sun_path a) \<le> length (sun_path before)"
    using that by (simp_all add: overlay_def takeWhile_append1)
  moreover have "overlay (sun_path a) (sun_path before) = sun_path a" if "length (sun_path a) = length (sun_path before)"
    using that by (simp add: overlay_def)
  ultimately show ?thesis using Some by (simp add: received_as_def write_address_def c_string_def)
qed (simp add: received_as_def write_address_def)

lemma datagram_send_to_eq:
  assumes "address_length to = Some (Suc n)"
  shows "datagram_send_to pf os s to buffer len k =
     (if buffer = None then (Inl (InvalidArgument ''buffer cannot be nullptr''), k)
      else if len = 0 then (Inl (InvalidArgument ''length cannot be zero''), k)
      else (let (r, k') = os (SysSendTo (handle_native s) (the buffer) len 0 to (ucast (sizeof_sockaddr_un pf))) k
            in (if ret r = -1 then Inl (SystemError (errno r)) else Inr (of_int (ret r)), k')))"
  using assms
  by (auto simp: datagram_send_to_def socket_send_to_def send_to_sized_def io_bind_def [of "length_of _"]
      length_of_def io_bind_require not_null_def not_zero_def io_bind_checked Let_def split: prod.splits)

lemma datagram_receive_from_eq:
  "datagram_receive_from pf os s address buffer len k =
     (if buffer = None then (Inl (InvalidArgument ''buffer cannot be nullptr''), k)
      else if len = 0 then (Inl (InvalidArgument ''length cannot be zero''), k)
      else (let (r, k') = os (SysRecvFrom (handle_native s) len 0 (ucast (sizeof_sockaddr_un pf))) k
            in (if ret r = -1 then Inl (SystemError (errno r))
                else Inr (of_int (ret r), overlay (written r) (the buffer), write_address (peer r) address), k')))"
  by (auto simp: datagram_receive_from_def socket_receive_from_def receive_from_sized_def io_bind_require
      not_null_def not_zero_def io_bind_checked Let_def split: prod.splits)

lemma unat_of_int_unat: "unat (of_int (int (unat (n :: size_t))) :: size_t) = unat n"
  using unat_count [of "int (unat n)" n] by simp

lemma send_to_law:
  assumes "datagram_laws pf os (handle_native s) source to (handle_native t) mailbox"
    and "address_length to = Some (Suc n)"
    and "datagram_exchange_call pf os s to t (CallSendTo buffer len) k = ((sent, got), k')"
  shows "mailbox k @ sent = mailbox k' \<and> got = []"
proof (cases "buffer = None \<or> len = 0")
  case True
  with assms(3) show ?thesis by (auto simp: datagram_send_to_eq [OF assms(2)] split: if_splits)
next
  case False
  obtain r k1 where
    os: "os (SysSendTo (handle_native s) (the buffer) len 0 to (ucast (sizeof_sockaddr_un pf))) k = (r, k1)"
    by fastforce
  then have "posts mailbox (the buffer) len k (r, k1)"
    using assms(1) unfolding datagram_laws_def by metis
  with os assms(3) False unat_of_int_unat [of len] show ?thesis
    by (auto simp: datagram_send_to_eq [OF assms(2)] posts_def split: if_splits)
qed

lemma receive_from_law:
  assumes "datagram_laws pf os (handle_native s) source to (handle_native t) mailbox"
    and "buffer_ok buffer len"
    and "datagram_exchange_call pf os s to t (CallReceiveFrom address buffer len) k = ((sent, got), k')"
  shows "sent = [] \<and> (\<exists>ms. mailbox k = ms @ mailbox k' \<and> list_all2 (received_as source) got ms)"
proof (cases "buffer = None \<or> len = 0")
  case True
  with assms(3) show ?thesis by (auto simp: datagram_receive_from_eq split: if_splits)
next
  case False
  obtain r k1 where os: "os (SysRecvFrom (handle_native t) len 0 (ucast (sizeof_sockaddr_un pf))) k = (r, k1)"
    by fastforce
  then have law: "fetches mailbox source len k (r, k1)"
    using assms(1) unfolding datagram_laws_def by metis
  show ?thesis
  proof (cases "ret r = -1")
    case True
    with law os assms(3) False show ?thesis by (auto simp: datagram_receive_from_eq fetches_def)
  next
    case ok: False
    with law obtain m where m: "mailbox k = m # mailbox k1" "ret r = int (min (unat len) (length m))"
      "written r = take (unat len) m" "peer r = source"
      by (auto simp: fetches_def)
    have "unat (of_int (ret r) :: size_t) = min (unat len) (length m)"
      using unat_count [of "ret r" len] m(2) by (simp only: nat_int)
    moreover have "length (written r) \<le> length (the buffer)" using m(3) False assms(2) by auto
    ultimately have "take (unat (of_int (ret r) :: size_t)) (overlay (written r) (the buffer)) = take (unat len) m"
      using take_overlay [of "written r" "the buffer"] m(3) by (simp add: min.commute)
    with m ok os assms(3) False show ?thesis
      by (auto simp: datagram_receive_from_eq received_as_written)
  qed
qed

lemma datagram_exchange_law:
  assumes laws: "datagram_laws pf os (handle_native s) source to (handle_native t) mailbox"
    and to: "address_length to = Some (Suc n)"
    and "\<forall>c \<in> set cs. datagram_call_ok c" and "datagram_exchange pf os s to t cs k = ((sent, got), k')"
  shows "\<exists>ms. mailbox k @ sent = ms @ mailbox k' \<and> list_all2 (received_as source) got ms"
  using assms(3,4)
proof (induction cs arbitrary: k sent got k')
  case (Cons c cs)
  obtain sent1 got1 k1 where c: "datagram_exchange_call pf os s to t c k = ((sent1, got1), k1)" by (metis surj_pair)
  obtain sent2 got2 k2 where cs: "datagram_exchange pf os s to t cs k1 = ((sent2, got2), k2)" by (metis surj_pair)
  have "\<exists>ms. mailbox k @ sent1 = ms @ mailbox k1 \<and> list_all2 (received_as source) got1 ms"
  proof (cases c)
    case (CallSendTo buffer len)
    with c send_to_law [OF laws to] show ?thesis by auto
  next
    case (CallReceiveFrom address buffer len)
    with c Cons.prems(1) receive_from_law [OF laws, of buffer len] show ?thesis by fastforce
  qed
  then obtain ms where 1: "mailbox k @ sent1 = ms @ mailbox k1" "list_all2 (received_as source) got1 ms" by blast
  from Cons.IH [OF _ cs] Cons.prems(1) obtain ns where
    2: "mailbox k1 @ sent2 = ns @ mailbox k2" "list_all2 (received_as source) got2 ns"
    by auto
  from 1(1) 2(1) have "mailbox k @ sent1 @ sent2 = (ms @ ns) @ mailbox k2" by (metis append.assoc)
  moreover have "list_all2 (received_as source) (got1 @ got2) (ms @ ns)"
    using 1(2) 2(2) by (rule list_all2_appendI)
  ultimately show ?case using Cons.prems(2) c cs by auto
qed simp

subsection \<open>Properties\<close>

text \<open>C34: what a stream socket receives is what its peer sent. On a system that keeps the documented
  behaviour of \<open>send\<close> and \<open>recv\<close> for the flags used here, whatever calls the two ends of a fresh connection make, with
  any buffers and lengths, also null and zero, and whichever of them fail or are cut short: the
  bytes that the sizes returned by \<open>send\<close> say were sent are those that \<open>receive\<close> returned, in
  order, followed by those still on their way.\<close>

theorem stream_exchange:
  assumes "stream_laws pf os (handle_native s) (handle_native t) on_way" and "on_way k = []"
    and "\<forall>c \<in> set cs. call_ok c" and "exchange pf os s t cs k = ((sent, got), k')"
  shows "sent = got @ on_way k'"
  using exchange_law [OF assms(1,3,4)] assms(2) by simp

text \<open>A kernel of one connection from descriptor 3 to descriptor 4 that takes two bytes at a time.\<close>

definition plain_ret :: "int \<Rightarrow> byte list \<Rightarrow> sysret" where
  "plain_ret n bs = \<lparr>ret = n, errno = 0, written = bs, peer = None\<rparr>"

definition pipe_os :: "byte list os" where
  "pipe_os c k =
     (case c of
        SysSend fd buf len flags \<Rightarrow>
          if fd = 3 then (let n = min 2 (unat len) in (plain_ret (int n) [], k @ take n buf)) else (plain_ret (-1) [], k)
      | SysRecv fd len flags \<Rightarrow>
          if fd = 4 then (let n = min (length k) (unat len) in (plain_ret (int n) (take n k), drop n k))
          else (plain_ret (-1) [], k)
      | _ \<Rightarrow> (plain_ret 0 [], k))"

lemma pipe_os_laws: "stream_laws pf pipe_os 3 4 (\<lambda>k. k)"
  by (simp add: stream_laws_def hands_over_def takes_away_def pipe_os_def plain_ret_def Let_def min_def)

theorem stream_exchange_witness:
  "let calls = [CallSend True (Some [1, 2, 3]) 3, CallReceive False (Some [0]) 1, CallSend True None 1,
                CallSend True (Some [4]) 1, CallReceive False (Some [0, 0, 0, 0]) 2];
       ((sent, got), k) = exchange linux pipe_os \<lparr>m_value = 3\<rparr> \<lparr>m_value = 4\<rparr> calls []
   in sent = [1, 2, 4] \<and> sent = got @ k"
proof -
  let ?calls = "[CallSend True (Some [1, 2, 3]) 3, CallReceive False (Some [0]) 1, CallSend True None 1,
                CallSend True (Some [4]) 1, CallReceive False (Some [0, 0, 0, 0]) 2]"
  let ?x = "exchange linux pipe_os \<lparr>m_value = 3\<rparr> \<lparr>m_value = 4\<rparr> ?calls []"
  have laws: "stream_laws linux pipe_os (handle_native \<lparr>m_value = 3\<rparr>) (handle_native \<lparr>m_value = 4\<rparr>) (\<lambda>k. k)"
    using pipe_os_laws by (simp add: handle_native_def)
  have sent: "fst (fst ?x) = [1, 2, 4]"
    by (simp add: stream_send_eq stream_receive_eq pipe_os_def plain_ret_def handle_native_def overlay_def Let_def)
  have "fst (fst ?x) = snd (fst ?x) @ snd ?x"
    by (rule stream_exchange [OF laws, of _ ?calls]) (simp_all del: exchange.simps)
  with sent show ?thesis by (simp add: Let_def split_beta)
qed

text \<open>C35: datagrams keep their boundaries. On a system that keeps the documented behaviour of
  \<open>sendto\<close> and \<open>recvfrom\<close> on local sockets, whatever calls the sender and the receiver make: the
  messages received are, in order, the first ones of those sent, each cut to the length asked
  for; with each the receiver's variable names its sender: the address of that is written over what was
  there before; the others are waiting.\<close>

theorem datagram_exchange_boundaries:
  assumes "datagram_laws pf os (handle_native s) source to (handle_native t) mailbox"
    and "address_length to = Some (Suc n)" and "mailbox k = []"
    and "\<forall>c \<in> set cs. datagram_call_ok c" and "datagram_exchange pf os s to t cs k = ((sent, got), k')"
  shows "\<exists>ms. sent = ms @ mailbox k' \<and> list_all2 (received_as source) got ms"
  using datagram_exchange_law [OF assms(1,2,4,5)] assms(3) by simp

text \<open>A kernel with one mailbox, at descriptor 4 and address \<open>x\<close>; the sender is bound to \<open>y\<close>.\<close>

definition addr :: "char \<Rightarrow> sockaddr_un" where
  "addr c = \<lparr>sun_family = 1, sun_path = [c, NUL]\<rparr>"

definition mail_os :: "byte list list os" where
  "mail_os c k =
     (case c of
        SysSendTo fd buf len flags a n \<Rightarrow> (plain_ret (int (unat len)) [], k @ [take (unat len) buf])
      | SysRecvFrom fd len flags n \<Rightarrow>
          (case k of
             [] \<Rightarrow> (plain_ret (-1) [], k)
           | m # ms \<Rightarrow> ((plain_ret (int (min (unat len) (length m))) (take (unat len) m))\<lparr>peer := Some (addr CHR ''y'')\<rparr>, ms))
      | _ \<Rightarrow> (plain_ret 0 [], k))"

theorem datagram_exchange_boundaries_witness:
  "let calls = [CallSendTo (Some [1, 2, 3]) 3, CallSendTo (Some [4]) 1, CallReceiveFrom (addr CHR ''?'') (Some [0, 0]) 2];
       ((sent, got), k) = datagram_exchange linux mail_os \<lparr>m_value = 3\<rparr> (addr CHR ''x'') \<lparr>m_value = 4\<rparr> calls []
   in sent = [[1, 2, 3], [4]] \<and> (\<exists>ms. sent = ms @ k \<and> list_all2 (received_as (Some (addr CHR ''y''))) got ms)"
proof -
  let ?calls = "[CallSendTo (Some [1, 2, 3]) 3, CallSendTo (Some [4]) 1, CallReceiveFrom (addr CHR ''?'') (Some [0, 0]) 2]"
  let ?x = "datagram_exchange linux mail_os \<lparr>m_value = 3\<rparr> (addr CHR ''x'') \<lparr>m_value = 4\<rparr> ?calls []"
  have "int (unat (len :: size_t)) \<noteq> -1" for len by linarith
  then have laws: "datagram_laws linux mail_os (handle_native \<lparr>m_value = 3\<rparr>) (Some (addr CHR ''y'')) (addr CHR ''x'')
      (handle_native \<lparr>m_value = 4\<rparr>) (\<lambda>k. k)"
    by (auto simp: datagram_laws_def posts_def fetches_def mail_os_def plain_ret_def split: list.splits)
  have x: "address_length (addr CHR ''x'') = Some (Suc 0)"
    by (simp add: address_length_eq c_string_def addr_def)
  have sent: "fst (fst ?x) = [[1, 2, 3], [4]]"
    by (simp add: datagram_send_to_eq [OF x] datagram_receive_from_eq mail_os_def plain_ret_def Let_def)
  have "\<exists>ms. fst (fst ?x) = ms @ snd ?x \<and> list_all2 (received_as (Some (addr CHR ''y''))) (snd (fst ?x)) ms"
    by (rule datagram_exchange_boundaries [OF laws x, of _ ?calls]) (simp_all del: datagram_exchange.simps)
  with sent show ?thesis by (simp add: Let_def split_beta)
qed

end
