(* ===== verification/Connections.thy ===== *)
theory Connections
  imports SocketExchange
begin

section \<open>Setting up connections\<close>

text \<open>
  \<open>bind\<close>, \<open>listen\<close> and \<open>accept\<close> of a server socket and \<open>connect\<close> of stream sockets, put together. The
  operating system stays a parameter: \<open>connection_laws\<close> states what is documented of the system
  calls for local stream sockets, for the calls that the code makes, with an observation of the kernel
  state: the sockets that paths name, those that listen, the clients that wait at each, the pairs that were
  connected, and the open descriptors.
\<close>

record net =
  bound :: "string \<Rightarrow> int option"
  listening :: "int set"
  waiting :: "int \<Rightarrow> int list"
  links :: "(int \<times> int) set"
  descriptors :: "int set"

subsection \<open>What the system promises\<close>

text \<open>A call that fails changes nothing of this; one that succeeds does what it is documented to do.\<close>

definition on_success :: "('k \<Rightarrow> net) \<Rightarrow> 'k \<Rightarrow> sysret \<times> 'k \<Rightarrow> (int \<Rightarrow> net \<Rightarrow> net \<Rightarrow> bool) \<Rightarrow> bool" where
  "on_success view k x ok \<longleftrightarrow>
     (let (r, k') = x in if ret r = -1 then view k' = view k else ok (ret r) (view k) (view k'))"

text \<open>Several paths can name one file, so \<open>bind\<close> and \<open>unlink\<close> may change what other paths name.\<close>

definition changes_paths :: "net \<Rightarrow> net \<Rightarrow> bool" where
  "changes_paths v v' \<longleftrightarrow> v' = v\<lparr>bound := bound v'\<rparr>"

text \<open>The address names a path: a nonempty string that ends inside the array. Other addresses (an abstract name,
  none, one without a terminator) are outside the laws.\<close>

definition names :: "sockaddr_un \<Rightarrow> string \<Rightarrow> bool" where
  "names a p \<longleftrightarrow> c_string (sun_path a) = Some p \<and> p \<noteq> []"

definition binds :: "int \<Rightarrow> string \<Rightarrow> int \<Rightarrow> net \<Rightarrow> net \<Rightarrow> bool" where
  "binds fd p n v v' \<longleftrightarrow> bound v' p = Some fd \<and> changes_paths v v'"

definition queues_up :: "int \<Rightarrow> string \<Rightarrow> int \<Rightarrow> net \<Rightarrow> net \<Rightarrow> bool" where
  "queues_up fd p n v v' \<longleftrightarrow>
     (\<exists>l \<in> listening v. bound v p = Some l \<and> v' = v\<lparr>waiting := (waiting v)(l := waiting v l @ [fd])\<rparr>)"

text \<open>\<open>accept\<close> takes the first client waiting and opens a descriptor that was not open.\<close>

definition accepts :: "int \<Rightarrow> int \<Rightarrow> net \<Rightarrow> net \<Rightarrow> bool" where
  "accepts l n v v' \<longleftrightarrow>
     n \<notin> descriptors v
     \<and> (\<exists>c cs. waiting v l = c # cs
          \<and> v' = v\<lparr>waiting := (waiting v)(l := cs), links := insert (c, n) (links v), descriptors := insert n (descriptors v)\<rparr>)"

definition connection_laws :: "platform \<Rightarrow> 'k os \<Rightarrow> int set \<Rightarrow> ('k \<Rightarrow> net) \<Rightarrow> bool" where
  "connection_laws pf os streams view \<longleftrightarrow>
     (\<forall>p k. on_success view k (os (SysUnlink p) k) (\<lambda>_. changes_paths))
     \<and> (\<forall>fd a p k. names a p \<longrightarrow>
          on_success view k (os (SysBind fd a (ucast (sizeof_sockaddr_un pf))) k) (binds fd p))
     \<and> (\<forall>fd n k. on_success view k (os (SysListen fd n) k) (\<lambda>_ v v'. v' = v\<lparr>listening := insert fd (listening v)\<rparr>))
     \<and> (\<forall>fd a p k. fd \<in> streams \<and> names a p \<longrightarrow>
          on_success view k (os (SysConnect fd a (ucast (sizeof_sockaddr_un pf))) k) (queues_up fd p))
     \<and> (\<forall>fd k. on_success view k (os (SysAccept fd) k) (accepts fd))
     \<and> (\<forall>fd k. fd \<in> descriptors (view k) \<longrightarrow>
          on_success view k (os (SysClose fd) k) (\<lambda>_ v v'. v' = v\<lparr>descriptors := descriptors v - {fd}\<rparr>))"

subsection \<open>Calls of clients and server\<close>

text \<open>What the program has seen: the clients whose \<open>connect\<close> returned, the descriptors given to handlers, and the
  sockets that handlers moved away to keep.\<close>

record server_log =
  connected :: "socket list"
  handled :: "int list"
  kept :: "socket list"

text \<open>A handler notes the descriptor; it keeps the socket, leaves it where it is, or throws.\<close>

datatype handling = Keeps | Leaves | Raises exn

definition logging :: "'k os \<Rightarrow> ('k \<times> server_log) os" where
  "logging os c k = (let (r, k') = os c (fst k) in (r, (k', snd k)))"

definition handle_socket ::
  "handling \<Rightarrow> socket \<Rightarrow> 'k \<times> server_log \<Rightarrow> (unit result \<times> socket) \<times> 'k \<times> server_log" where
  "handle_socket h s k =
     (let log = (snd k)\<lparr>handled := handled (snd k) @ [handle_native s]\<rparr>
      in case h of
           Keeps \<Rightarrow>
             (let (new, old) = stream_socket_move s in ((Inr (), old), (fst k, log\<lparr>kept := kept log @ [new]\<rparr>)))
         | Leaves \<Rightarrow> ((Inr (), s), (fst k, log))
         | Raises e \<Rightarrow> ((Inl e, s), (fst k, log)))"

datatype serve_act = ClientConnects socket | ServerAccepts handling

text \<open>The clients are stream sockets.\<close>

fun act_ok :: "int set \<Rightarrow> serve_act \<Rightarrow> bool" where
  "act_ok streams (ClientConnects c) = (handle_native c \<in> streams)"
| "act_ok streams (ServerAccepts h) = True"

text \<open>One call; \<open>None\<close> when a failing \<open>close\<close> ends the program.\<close>

fun serve_step ::
  "platform \<Rightarrow> 'k os \<Rightarrow> socket \<Rightarrow> sockaddr_un \<Rightarrow> serve_act \<Rightarrow> 'k \<times> server_log \<Rightarrow> ('k \<times> server_log) option" where
  "serve_step pf os srv a (ClientConnects c) (k, log) =
     (case stream_connect pf os c a k of
        (Inl e, k') \<Rightarrow> Some (k', log)
      | (Inr _, k') \<Rightarrow> Some (k', log\<lparr>connected := connected log @ [c]\<rparr>))"
| "serve_step pf os srv a (ServerAccepts h) (k, log) =
     (let ((r, terminated), s) = server_accept (logging os) srv (Some (handle_socket h)) (k, log)
      in if terminated then None else Some s)"

definition log_start :: server_log where
  "log_start = \<lparr>connected = [], handled = [], kept = []\<rparr>"

subsection \<open>One call\<close>

lemma connection_lawsD:
  assumes "connection_laws pf os streams view"
  shows "on_success view k (os (SysUnlink p) k) (\<lambda>_. changes_paths)"
    and "names a p \<Longrightarrow> on_success view k (os (SysBind fd a (ucast (sizeof_sockaddr_un pf))) k) (binds fd p)"
    and "on_success view k (os (SysListen fd n) k) (\<lambda>_ v v'. v' = v\<lparr>listening := insert fd (listening v)\<rparr>)"
    and "fd \<in> streams \<Longrightarrow> names a p \<Longrightarrow>
      on_success view k (os (SysConnect fd a (ucast (sizeof_sockaddr_un pf))) k) (queues_up fd p)"
    and "on_success view k (os (SysAccept fd) k) (accepts fd)"
    and "fd \<in> descriptors (view k) \<Longrightarrow>
      on_success view k (os (SysClose fd) k) (\<lambda>_ v v'. v' = v\<lparr>descriptors := descriptors v - {fd}\<rparr>)"
  using assms by (simp_all add: connection_laws_def)

lemma on_success_cases:
  assumes "on_success view k x ok"
  obtains (failed) r k' where "x = (r, k')" "ret r = -1" "view k' = view k"
    | (succeeded) r k' where "x = (r, k')" "ret r \<noteq> -1" "ok (ret r) (view k) (view k')"
  using assms by (cases x) (auto simp: on_success_def split: if_splits)

text \<open>A successful \<open>bind\<close> makes the path name the server, whatever it named before.\<close>

lemma socket_bind_law:
  assumes laws: "connection_laws pf os streams view" and path: "names a p"
    and bind: "socket_bind pf os fd a k = (Inr (), k')"
  shows "bound (view k') p = Some fd \<and> changes_paths (view k) (view k')"
  using connection_lawsD(2) [OF laws path, of k fd]
proof (cases rule: on_success_cases)
  case (succeeded r k1)
  with bind show ?thesis by (simp add: socket_bind_def bind_sized_def io_bind_checked binds_def)
qed (use bind in \<open>simp add: socket_bind_def bind_sized_def io_bind_checked\<close>)

lemma unlink_law:
  assumes "connection_laws pf os streams view"
  shows "changes_paths (view k) (view (snd (os (SysUnlink q) k)))"
  using connection_lawsD(1) [OF assms, of k q] by (cases rule: on_success_cases) (auto simp: changes_paths_def)

lemma changes_paths_trans: "changes_paths u v \<Longrightarrow> changes_paths v w \<Longrightarrow> changes_paths u w"
  by (cases u; cases v; cases w) (simp add: changes_paths_def)

lemma server_bind_law:
  assumes laws: "connection_laws pf os streams view" and path: "c_string (sun_path a) = Some p"
    and bind: "server_bind pf stale os pr s a k = (Inr (), k')"
  shows "names a p \<and> bound (view k') p = Some (handle_native s) \<and> changes_paths (view k) (view k')"
proof -
  have "p \<noteq> []" using bind path
    by (auto simp: server_bind_def io_bind_def [of "length_of _"] length_of_def address_length_eq io_bind_require not_zero_def)
  with path have names: "names a p" by (simp add: names_def)
  obtain r k1 where un: "os (SysUnlink (stale p)) k = (r, k1)" by fastforce
  with unlink_law [OF laws, of k "stale p"] have un1: "changes_paths (view k) (view k1)" by simp
  from bind_unlinks_first [OF path \<open>p \<noteq> []\<close>, of pf stale os pr s k] bind un
  have "socket_bind pf os (handle_native s) a k1 = (Inr (), k') \<or> socket_bind pf os (handle_native s) a k = (Inr (), k')"
    by (auto split: if_splits)
  then show ?thesis using names socket_bind_law [OF laws names] changes_paths_trans [OF un1] by blast
qed

lemma server_listen_law:
  assumes laws: "connection_laws pf os streams view" and "server_listen pf os s n k = (Inr (), k')"
  shows "view k' = (view k)\<lparr>listening := insert (handle_native s) (listening (view k))\<rparr>"
  using connection_lawsD(3) [OF laws, of k "handle_native s" "to_int (min n (max_que pf))"]
proof (cases rule: on_success_cases)
  case (succeeded r k1)
  with assms(2) show ?thesis by (simp add: server_listen_def socket_listen_def io_bind_checked)
qed (use assms(2) in \<open>simp add: server_listen_def socket_listen_def io_bind_checked\<close>)

lemma stream_connect_law:
  assumes laws: "connection_laws pf os streams view" and path: "names a p" and b: "bound (view k) p = Some l"
    and c: "handle_native c \<in> streams"
  shows "case stream_connect pf os c a k of
      (Inl e, k') \<Rightarrow> view k' = view k
    | (Inr _, k') \<Rightarrow> view k' = (view k)\<lparr>waiting := (waiting (view k))(l := waiting (view k) l @ [handle_native c])\<rparr>"
  using connection_lawsD(4) [OF laws c path, of k] path
  by (cases rule: on_success_cases)
     (auto simp: stream_connect_def io_bind_def [of "length_of _"] length_of_def address_length_eq names_def
        io_bind_require not_zero_def socket_connect_def connect_sized_def io_bind_checked queues_up_def b)

text \<open>What \<open>accept\<close> does with each kind of handler: a socket that was kept is not closed, any other is.\<close>

lemma serve_accept:
  "serve_step pf os srv a (ServerAccepts h) (k, log) =
     (let (r, k1) = os (SysAccept (handle_native srv)) k;
          log' = log\<lparr>handled := handled log @ [ret r]\<rparr>
      in if ret r = -1 then Some (k1, log)
         else if h = Keeps then Some (k1, log'\<lparr>kept := kept log @ [\<lparr>m_value = ret r\<rparr>]\<rparr>)
         else (let (c, k2) = os (SysClose (ret r)) k1 in if ret c = -1 then None else Some (k2, log')))"
  by (cases h)
     (simp_all add: server_accept_def not_null_def socket_accept_def io_bind_checked logging_def handle_socket_def Let_def
       stream_socket_from_def stream_from_def basic_socket_from_def handle_from_native_def socket_move_eqs
       socket_destroy_eqs basic_socket_destroy_def handle_destroy_def handle_is_valid_def invalid_value_def
       handle_native_def socket_destroy_def is_system_error_def split: prod.splits)

subsection \<open>The invariant of a server\<close>

text \<open>The clients in the order in which they connected: first those whose connection was given to a handler, each
  linked with the descriptor that it got, then those that wait. The descriptors open beside the first ones are
  those of the sockets kept, each owned by one of them.\<close>

definition served_lists :: "int \<Rightarrow> string \<Rightarrow> net \<Rightarrow> net \<Rightarrow> int list \<Rightarrow> int list \<Rightarrow> int list \<Rightarrow> bool" where
  "served_lists l p v0 v clients given mine \<longleftrightarrow>
     bound v p = Some l \<and> length given \<le> length clients \<and> waiting v l = drop (length given) clients
     \<and> links v = links v0 \<union> set (zip clients given)
     \<and> descriptors v = descriptors v0 \<union> set mine \<and> descriptors v0 \<inter> set mine = {} \<and> distinct mine"

definition served :: "int \<Rightarrow> string \<Rightarrow> net \<Rightarrow> net \<times> server_log \<Rightarrow> bool" where
  "served l p v0 s \<longleftrightarrow>
     served_lists l p v0 (fst s) (map handle_native (connected (snd s))) (handled (snd s))
       (map handle_native (kept (snd s)))"

lemma zip_append_short: "length ys \<le> length xs \<Longrightarrow> zip (xs @ zs) ys = zip xs ys"
  by (simp add: zip_append1)

lemma zip_next:
  assumes "drop (length ys) xs = c # cs"
  shows "set (zip xs (ys @ [n])) = insert (c, n) (set (zip xs ys))" and "drop (Suc (length ys)) xs = cs"
    and "Suc (length ys) \<le> length xs"
proof -
  have xs: "xs = take (length ys) xs @ c # cs" by (metis append_take_drop_id assms)
  have "length ys \<le> length xs" using assms by (metis drop_all list.discI nat_le_linear)
  then have len: "length (take (length ys) xs) = length ys" by simp
  have "zip xs (ys @ [n]) = zip (take (length ys) xs) ys @ [(c, n)]" using len by (subst xs) simp
  moreover have "zip xs ys = zip (take (length ys) xs) ys" by (subst xs) (rule zip_append_short, simp only: len)
  ultimately show "set (zip xs (ys @ [n])) = insert (c, n) (set (zip xs ys))" by simp
  show "drop (Suc (length ys)) xs = cs" using assms by (metis drop_Suc drop_tl list.sel(3) tl_drop)
  show "Suc (length ys) \<le> length xs" using assms by (metis Suc_leI drop_eq_Nil2 list.discI not_le)
qed

lemma served_lists_connect:
  "served_lists l p v0 v clients given mine \<Longrightarrow>
     served_lists l p v0 (v\<lparr>waiting := (waiting v)(l := waiting v l @ [c])\<rparr>) (clients @ [c]) given mine"
  by (simp add: served_lists_def zip_append_short)

lemma served_lists_accept:
  assumes "served_lists l p v0 v clients given mine" and "accepts l n v v'"
  shows "served_lists l p v0 v' clients (given @ [n]) (mine @ [n])"
    and "served_lists l p v0 (v'\<lparr>descriptors := descriptors v' - {n}\<rparr>) clients (given @ [n]) mine"
proof -
  from assms(2) obtain c cs where fresh: "n \<notin> descriptors v" and w: "waiting v l = c # cs"
    and v': "v' = v\<lparr>waiting := (waiting v)(l := cs), links := insert (c, n) (links v),
      descriptors := insert n (descriptors v)\<rparr>"
    by (auto simp: accepts_def)
  from assms(1) w have d: "drop (length given) clients = c # cs" by (simp add: served_lists_def)
  note next' = zip_next(1) [OF d, of n] zip_next(2,3) [OF d]
  show "served_lists l p v0 v' clients (given @ [n]) (mine @ [n])"
    using assms(1) fresh next' by (simp add: served_lists_def v')
  show "served_lists l p v0 (v'\<lparr>descriptors := descriptors v' - {n}\<rparr>) clients (given @ [n]) mine"
    using assms(1) fresh next' by (simp add: served_lists_def v')
qed

lemma served_connect:
  assumes laws: "connection_laws pf os streams view" and path: "names a p" and c: "handle_native c \<in> streams"
    and inv: "served l p v0 (view k, log)" and step: "serve_step pf os srv a (ClientConnects c) (k, log) = Some (k', log')"
  shows "served l p v0 (view k', log')"
proof -
  have b: "bound (view k) p = Some l" using inv by (simp add: served_def served_lists_def)
  from stream_connect_law [OF laws path b c] step inv served_lists_connect show ?thesis
    by (auto simp: served_def split: prod.splits sum.splits)
qed

lemma served_accept:
  assumes laws: "connection_laws pf os streams view" and inv: "served (handle_native srv) p v0 (view k, log)"
    and step: "serve_step pf os srv a (ServerAccepts h) (k, log) = Some (k', log')"
  shows "served (handle_native srv) p v0 (view k', log')"
  using connection_lawsD(5) [OF laws, of k "handle_native srv"]
proof (cases rule: on_success_cases)
  case (failed r k1)
  with step inv show ?thesis unfolding serve_accept by simp
next
  case (succeeded r k1)
  let ?n = "ret r"
  note lists = served_lists_accept [OF inv [unfolded served_def fst_conv snd_conv] succeeded(3)]
  show ?thesis
  proof (cases "h = Keeps")
    case True
    with step succeeded(1,2) have "k' = k1"
      "log' = log\<lparr>handled := handled log @ [?n], kept := kept log @ [\<lparr>m_value = ?n\<rparr>]\<rparr>"
      unfolding serve_accept by simp_all
    with lists(1) show ?thesis by (simp add: served_def handle_native_def)
  next
    case False
    obtain x k2 where close: "os (SysClose ?n) k1 = (x, k2)" by fastforce
    with step succeeded(1,2) False have ok: "ret x \<noteq> -1" "k' = k2" "log' = log\<lparr>handled := handled log @ [?n]\<rparr>"
      unfolding serve_accept by (simp_all split: if_splits)
    have "?n \<in> descriptors (view k1)" using succeeded(3) by (auto simp: accepts_def)
    from connection_lawsD(6) [OF laws this] close ok(1)
    have "view k2 = (view k1)\<lparr>descriptors := descriptors (view k1) - {?n}\<rparr>"
      by (cases rule: on_success_cases) auto
    with lists(2) ok(2,3) show ?thesis by (simp add: served_def)
  qed
qed

lemma served_step:
  assumes "connection_laws pf os streams view" and "names a p" and "act_ok streams c"
    and "served (handle_native srv) p v0 (view k, log)" and "serve_step pf os srv a c (k, log) = Some (k', log')"
  shows "served (handle_native srv) p v0 (view k', log')"
proof (cases c)
  case (ClientConnects s)
  with assms(3) have "handle_native s \<in> streams" by simp
  from served_connect [OF assms(1,2) this assms(4)] assms(5) show ?thesis unfolding ClientConnects by blast
next
  case (ServerAccepts h)
  from served_accept [OF assms(1,4)] assms(5) show ?thesis unfolding ServerAccepts by blast
qed

lemma served_run:
  assumes laws: "connection_laws pf os streams view" and path: "names a p" and "\<forall>c \<in> set cs. act_ok streams c"
    and start: "served (handle_native srv) p v0 (view k, log)"
    and run: "run (serve_step pf os srv a) cs (k, log) = Some (k', log')"
  shows "served (handle_native srv) p v0 (view k', log')"
proof -
  let ?P = "\<lambda>s. served (handle_native srv) p v0 (view (fst s), snd s)"
  have "?P (k', log')"
  proof (rule run_preserves [where P = ?P, OF run])
    fix c t t'
    assume "c \<in> set cs" and inv: "?P t" and step: "serve_step pf os srv a c t = Some t'"
    with assms(3) have "act_ok streams c" by simp
    from served_step [OF laws path this, of srv v0 "fst t" "snd t" "fst t'" "snd t'"] inv step show "?P t'" by simp
  qed (simp add: start)
  then show ?thesis by simp
qed

subsection \<open>Properties\<close>


text \<open>A kernel that keeps these laws: paths, listeners and their queues; descriptors are counted up from 10.\<close>

definition net_os :: "(net \<times> nat) os" where
  "net_os c k =
     (let v = fst k; ok = (\<lambda>v'. (plain_ret 0 [], (v', snd k))); no = (plain_ret (-1) [], k)
      in case c of
           SysUnlink p \<Rightarrow> ok (v\<lparr>bound := (bound v)(p := None)\<rparr>)
         | SysBind fd a len \<Rightarrow>
             (case c_string (sun_path a) of
                None \<Rightarrow> no
              | Some p \<Rightarrow> if bound v p = None then ok (v\<lparr>bound := (bound v)(p \<mapsto> fd)\<rparr>) else no)
         | SysListen fd n \<Rightarrow> ok (v\<lparr>listening := insert fd (listening v)\<rparr>)
         | SysConnect fd a len \<Rightarrow>
             (case Option.bind (c_string (sun_path a)) (bound v) of
                None \<Rightarrow> no
              | Some l \<Rightarrow>
                  if l \<in> listening v then ok (v\<lparr>waiting := (waiting v)(l := waiting v l @ [fd])\<rparr>) else no)
         | SysAccept l \<Rightarrow>
             (let n = 10 + int (snd k)
              in case waiting v l of
                   [] \<Rightarrow> no
                 | x # xs \<Rightarrow>
                     if n \<in> descriptors v then no
                     else (plain_ret n [],
                       (v\<lparr>waiting := (waiting v)(l := xs), links := insert (x, n) (links v),
                          descriptors := insert n (descriptors v)\<rparr>, Suc (snd k))))
         | SysClose fd \<Rightarrow> if fd \<in> descriptors v then ok (v\<lparr>descriptors := descriptors v - {fd}\<rparr>) else no
         | _ \<Rightarrow> no)"

lemma net_os_laws: "connection_laws pf net_os UNIV fst"
  by (auto simp: connection_laws_def on_success_def net_os_def plain_ret_def binds_def queues_up_def accepts_def
      changes_paths_def names_def Let_def split: option.splits list.splits prod.splits)

definition net_start :: "net \<times> nat" where
  "net_start = (\<lparr>bound = (\<lambda>_. None), listening = {}, waiting = (\<lambda>_. []), links = {}, descriptors = {3, 4, 5, 6}\<rparr>, 0)"


end
