(* ===== verification/Application.thy ===== *)
theory Application
  imports Prelude
begin

section \<open>The service executable (\<open>application.hpp\<close>, \<open>application.cpp\<close>, \<open>main.cpp\<close>)\<close>

text \<open>
  \<open>app::application\<close> counts its runs in a signed 32-bit integer and waits for a thread that does
  nothing. Overflow of the counter is undefined behaviour (\<open>None\<close>). Whether \<open>std::async\<close> can
  start its thread is an argument; if it cannot it throws \<open>system_error\<close> with the given \<open>errno\<close>.
\<close>

record application =
  m_unused :: "32 word"

definition application_new :: application where
  "application_new = \<lparr>m_unused = 0\<rparr>"

definition call :: "int option \<Rightarrow> int result" where
  "call async_error = (case async_error of None \<Rightarrow> Inr 0 | Some e \<Rightarrow> Inl (SystemError e))"

definition application_run :: "int option \<Rightarrow> application \<Rightarrow> (int result \<times> application) option" where
  "application_run async_error app =
     (if sint (m_unused app) = 2 ^ 31 - 1 then None
      else Some (call async_error, app\<lparr>m_unused := m_unused app + 1\<rparr>))"

definition main :: "int option \<Rightarrow> int result option" where
  "main async_error =
     (case application_run async_error application_new of
        None \<Rightarrow> None
      | Some (Inl e, _) \<Rightarrow> Some (Inl e)
      | Some (Inr _, _) \<Rightarrow> Some (Inr 0))"

text \<open>\<open>run\<close> called again and again, as the benchmark does.\<close>

fun run_n :: "nat \<Rightarrow> application \<Rightarrow> (int result list \<times> application) option" where
  "run_n 0 app = Some ([], app)"
| "run_n (Suc n) app =
     (case application_run None app of
        None \<Rightarrow> None
      | Some (r, app') \<Rightarrow> map_option (\<lambda>(rs, app''). (r # rs, app'')) (run_n n app'))"

lemma application_run_counts:
  assumes "sint (m_unused app) < 2 ^ 31 - 1"
  shows "\<exists>app'. application_run None app = Some (Inr 0, app') \<and> sint (m_unused app') = sint (m_unused app) + 1"
proof -
  have "- (2 ^ 31) \<le> sint (m_unused app)" using sint_greater_eq [of "m_unused app"] by simp
  then have "sint (m_unused app + 1) = sint (m_unused app) + 1"
    using assms by (simp add: sint_word_ariths signed_take_bit_int_eq_self)
  then show ?thesis using assms by (auto simp: application_run_def call_def)
qed

lemma run_n_returns:
  assumes "sint (m_unused app) + int n < 2 ^ 31"
  shows "\<exists>app'. run_n n app = Some (replicate n (Inr 0), app') \<and> sint (m_unused app') = sint (m_unused app) + int n"
  using assms
proof (induction n arbitrary: app)
  case (Suc n)
  then obtain app' where "application_run None app = Some (Inr 0, app')"
      "sint (m_unused app') = sint (m_unused app) + 1"
    using application_run_counts [of app] by auto
  with Suc.IH [of app'] Suc.prems show ?case by auto
qed simp

subsection \<open>The benchmark (\<open>bench_app.cpp\<close>)\<close>

text \<open>\<open>run_application\<close> runs one application as long as \<open>KeepRunning\<close> of the benchmark library says so;
  that function, on the state \<open>'s\<close> of the library, is a parameter. \<open>None\<close> is a loop that does not end;
  \<open>Inl None\<close> is an overflow of the counter and \<open>Inl (Some e)\<close> an exception out of \<open>run\<close>.\<close>

partial_function (option) bench_loop ::
  "('s \<Rightarrow> bool \<times> 's) \<Rightarrow> int option \<Rightarrow> application \<Rightarrow> 's \<Rightarrow> (exn option + application \<times> 's) option"
where
  "bench_loop keep_running async_error app s =
     (let (go, s') = keep_running s
      in if go then
           (case application_run async_error app of
              None \<Rightarrow> Some (Inl None)
            | Some (Inl e, app') \<Rightarrow> Some (Inl (Some e))
            | Some (Inr _, app') \<Rightarrow> bench_loop keep_running async_error app' s')
         else Some (Inr (app, s')))"

definition run_application ::
  "('s \<Rightarrow> bool \<times> 's) \<Rightarrow> int option \<Rightarrow> 's \<Rightarrow> (exn option + application \<times> 's) option" where
  "run_application keep_running async_error s = bench_loop keep_running async_error application_new s"

text \<open>A benchmark of \<open>n\<close> iterations, fewer than \<open>2^31\<close>, ends after \<open>n\<close> runs.\<close>

lemma bench_loop_ends:
  assumes "sint (m_unused app) + int n < 2 ^ 31"
  shows "\<exists>app'. bench_loop (\<lambda>k. (0 < k, k - 1)) None app n = Some (Inr (app', 0))
    \<and> sint (m_unused app') = sint (m_unused app) + int n"
  using assms
proof (induction n arbitrary: app)
  case 0
  then show ?case by (simp add: bench_loop.simps)
next
  case (Suc n)
  then obtain app' where app': "application_run None app = Some (Inr 0, app')"
      "sint (m_unused app') = sint (m_unused app) + 1"
    using application_run_counts [of app] by auto
  with Suc.IH [of app'] Suc.prems obtain app'' where
    "bench_loop (\<lambda>k. (0 < k, k - 1)) None app' n = Some (Inr (app'', 0))"
    "sint (m_unused app'') = sint (m_unused app') + int n" by auto
  with app' show ?case by (subst bench_loop.simps) simp
qed

lemma run_application_ends:
  "n < 2 ^ 31 \<Longrightarrow> \<exists>app. run_application (\<lambda>k. (0 < k, k - 1)) None n = Some (Inr (app, 0))
     \<and> sint (m_unused app) = int n"
  using bench_loop_ends [of application_new n] by (simp add: run_application_def application_new_def)

end
