(* ===== verification/Spec2Isabelle.thy ===== *)
theory Spec2Isabelle
  imports PoolFutures QueueSpec SchedulerSpec LatchSpec FutureProgress ReceiverThreads PipelineSoundness
    PoolProgress ServiceSpec SpecialMembers Connections Application
begin

text \<open>
  \<^bold>\<open>A verification library for the cmake-template repository.\<close>

  The repository has four C++ packages: \<open>lib_header\<close> (contract checks, enumerations, owning
  handles), \<open>lib_shared\<close> (concurrency: queue, scheduler, thread pool, latch, futures, senders and
  receivers), \<open>lib_static\<close> (local sockets over POSIX) and \<open>exe_service\<close> (a small executable). Every
  component is modelled as written, from the sources under \<open>src/\<close>, by definitions that compute;
  the theorems are about these definitions.

  \<^bold>\<open>How the parts interact.\<close> Clients build a pipeline \<open>schedule | then f | then g\<close> and \<open>wait\<close> on it.
  That connects a chain of receiver adapters to a value receiver, which holds a promise, and
  submits one task to a scheduler. The round-robin scheduler puts the task into one of its
  blocking queues; a worker of the thread pool takes it out and runs it; the task completes the
  receiver, which settles the promise, and the client's future returns. The socket classes own
  their descriptors through the handle class and check their arguments with the contracts.

  \<^bold>\<open>Theories, in the order of imports.\<close>

  \<^item> \<open>Prelude\<close>: machine integers (\<open>unsigned\<close> is \<open>32 word\<close>, \<open>size_t\<close> is \<open>64 word\<close>), exceptions as
    values, \<open>compare_exchange_strong\<close>, the loop with a 32-bit counter and a 64-bit limit, runs and
    reachable states and traces of interleaving models, the locales \<open>invariant_relation\<close> and
    \<open>invariant_system\<close>, which every concurrent component interprets, and \<open>relational_simulation\<close> and
    \<open>simulation\<close>, the contract of a refinement, whose abstract actions have to match the labels of the
    detailed ones.
  \<^item> \<open>Contract\<close> (\<open>core/contract.hpp\<close>): the checks that throw.
  \<^item> \<open>Queue\<close> (\<open>concurrency/queue.hpp\<close>): record \<open>queue\<close> and one definition per member function;
    \<open>queue_step\<close> interleaves any number of threads with mutex, \<open>try_lock\<close>, condition variable and
    spurious wake-ups. C3, C5 and C6: order and conservation of items, no lost wake-up, mutual
    exclusion; \<open>queue_clear_releases\<close>: cancellation; \<open>queue_try_pop_race\<close> is the race of \<open>try_pop\<close>.
    The locale \<open>work_queue\<close> is the interface the scheduler uses.
  \<^item> \<open>QueueSpec\<close>: the queue's contract as an atomic object. C4: the interleaving model refines it,
    so the queue is linearizable.
  \<^item> \<open>RRScheduler\<close> (\<open>concurrency/rr_scheduler.hpp\<close>, \<open>.cpp\<close>): \<open>schedule\<close>, \<open>scheduled\<close> and \<open>clear\<close> with
    wrapping indices; the outcome of each \<open>try_lock\<close> is an argument. C7 to C9 and C11: placing,
    taking, work conservation, round robin; \<open>rr_scheduled_wrap_misses\<close> is its failure at the
    wrap-around.
  \<^item> \<open>SchedulerSpec\<close>: C10: the probing loops are equivalent to a reference without loops.
  \<^item> \<open>ThreadPool\<close> (\<open>concurrency/thread_pool.hpp\<close>): the relation \<open>pool_step\<close> interleaves clients, the
    workers' loop \<open>run\<close> and the destructor's \<open>join\<close>; a step is one access to one queue. C14, C16 and
    C17: conservation of tasks, completeness and termination of the shutdown; \<open>pool_constructor\<close>.
  \<^item> \<open>PoolProgress\<close>: the pool in use. C15: every task submitted is executed, because the workers draw
    different indices and every queue has a worker that ends up waiting at it;
    \<open>idle_worker_not_woken\<close> is what this does not exclude.
  \<^item> \<open>Latch\<close> (\<open>concurrency/latch.hpp\<close>, \<open>.cpp\<close>): C19, C20: barrier, progress; \<open>latch_lost_wakeup\<close>.
  \<^item> \<open>LatchSpec\<close>: C18: the latch refines an atomic gate.
  \<^item> \<open>Future\<close> (\<open>concurrency/future.hpp\<close>): shared state, promise and future, and the interleaving of
    settling and getting threads. C21, C22 and C24: the first settlement wins, what \<open>get\<close> returns
    under interleaving, the lives of a promise and a future; \<open>future_get_races\<close>,
    \<open>promise_assign_abandons\<close> are what goes wrong. The locale \<open>one_shot\<close> is the contract shared
    with the callback receiver.
  \<^item> \<open>FutureProgress\<close>: C23: the threads at a shared state take boundedly many steps, and where they end;
    \<open>notify_wakes_one\<close> is about several futures of one promise.
  \<^item> \<open>Receivers\<close> (\<open>details/callback_receiver.hpp\<close>, \<open>details/value_receiver.hpp\<close>):
    \<open>value_receiver_settles\<close>: the future gets what the first signal says; \<open>callback_exactly_once\<close>: one
    handler runs.
  \<^item> \<open>ReceiverThreads\<close>: the callback receiver called by any number of threads. C25: it is linearizable.
  \<^item> \<open>Owners\<close>: the objects that hold a value receiver, and by it own the promise, on the way from \<open>wait\<close> or
    \<open>start\<close> into the queue; \<open>wait_owners_run\<close> and \<open>start_owners_run\<close>: the queued task is the only one that is left.
  \<^item> \<open>Senders\<close> (\<open>schedule.hpp\<close>, \<open>then.hpp\<close>, \<open>start.hpp\<close>, \<open>wait.hpp\<close>, \<open>details/sender_adapter.hpp\<close>): starting an
    operation yields the tasks it submits. The locale \<open>noexcept_receiver\<close> is what a pipeline needs
    of its receiver, interpreted for both receivers. C26 to C28: a pipeline computes the
    composition of its functions, cancellation, and what happens to the future of a dropped task, with the owners
    of its promise; \<open>callback_pipeline_never_runs\<close>.
  \<^item> \<open>TypeTraits\<close> (\<open>concurrency/type_traits.hpp\<close>, \<open>core/type_traits.hpp\<close>): C++ types as a datatype, calls
    and initialisation, and on them the traits of callables and the detection of members.
  \<^item> \<open>PipelineTypes\<close>: the compile-time side of senders, receivers, scheduler and pool. C30:
    which pipelines compile and with which types; \<open>pipeline_arities\<close>, \<open>pool_scheduler_types\<close>.
  \<^item> \<open>PipelineSoundness\<close>: both sides of a pipeline together. C31: what compiles computes values of the
    types it was compiled with.
  \<^item> \<open>SpecialMembers\<close>: what each class declares for copying and moving; \<open>ownership_types\<close>: what can be
    duplicated.
  \<^item> \<open>PoolFutures\<close>: thread pool and senders together; between the functions of a pipeline other threads
    may run (C29: without them the steps of a call are the task that was submitted). C12 and C13, at the end of this theory, are about
    it: from \<open>wait\<close> through the pool, its shutdown and its destruction to the future, and that tasks
    never throw into the workers.
  \<^item> \<open>ServiceSpec\<close>: what the concurrency library promises as a whole, an executor with one status per
    call. C1: the service of \<open>PoolFutures\<close> refines it, label by label: each pipeline runs at most once, its functions
    one after the other, a call is cancelled by a client only, and the futures give what the statuses say. C2: while the pool is in use every call is
    run once and gets the result of its pipeline. Both stand at the end of this theory.
  \<^item> \<open>BasicHandle\<close> (\<open>system/basic_handle.hpp\<close>): C32: no leak and no double close;
    \<open>handle_move_assign_leaks\<close> is about the move assignment.
  \<^item> \<open>SocketEnums\<close> (\<open>com/socket_family\<close>, \<open>socket_type\<close>, \<open>socket_protocol\<close>, \<open>shutdown_mode\<close>,
    \<open>core/enum.hpp\<close>): \<open>enums_print_roundtrip\<close>: printing.
  \<^item> \<open>IpcAddress\<close> (\<open>posix/ipc_address.hpp\<close>, \<open>basic_address.hpp\<close>, \<open>basic_ipc_address.hpp\<close>): C33: round
    trip of paths, and the view that dangles; \<open>ipc_address_equality\<close>.
  \<^item> \<open>PosixSocket\<close> (\<open>posix/socket.hpp\<close>, \<open>.cpp\<close>) and \<open>Sockets\<close> (\<open>basic_socket.hpp\<close>, \<open>basic_stream_socket.hpp\<close>,
    \<open>stream_socket.hpp\<close>, \<open>stream_server_socket.hpp\<close>, \<open>datagram_socket.hpp\<close>, \<open>basic_protocol.hpp\<close>, \<open>ipc.hpp\<close>):
    the operating system is a parameter. C36, C37, C39, C40: blocking mode, argument checks, listen,
    accept; \<open>bind_unlinks_first\<close>, \<open>long_timeouts_rejected\<close>.
  \<^item> \<open>SocketExchange\<close>: the calls at both ends of a connection. C34, C35: a stream delivers the bytes that
    were sent, datagrams keep their boundaries.
  \<^item> \<open>Connections\<close>: \<open>bind\<close>, \<open>listen\<close>, \<open>connect\<close> and \<open>accept\<close> together. C38: connections are handled in
    the order in which the clients connected, and every descriptor that no handler kept is closed.
  \<^item> \<open>Application\<close> (\<open>exe_service\<close>): \<open>run\<close>, \<open>main\<close> and the loop of the benchmark.

  \<^bold>\<open>Bounds.\<close> \<open>try_loop\<close> is a partial function, \<open>None\<close> for a loop that runs forever; theorems about it
  show that it returns; so is the loop of the benchmark. \<open>schedule\<close> tries four times the number of queues with a 32-bit counter, so
  it needs fewer than \<open>2^30\<close> queues; the theorems on the pool carry that bound on the number of
  threads. Runs of the pool without submissions are bounded by \<open>pool_measure\<close>, runs at a shared state
  by the work of \<open>future_work\<close>. Nothing uses fuel.

  \<^bold>\<open>Assumptions on what is not in the repository.\<close> Each is about the calls that
  the code makes, with their flags, lengths and kinds of address. \<open>fcntl_laws\<close> (\<open>F_SETFL\<close> changes the flags
  that can be set, \<open>F_GETFL\<close> reads all) and \<open>rejects_long_usec\<close> (an invalid \<open>timeval\<close> is refused) are hypotheses of C36 and of
  \<open>long_timeouts_rejected\<close>; \<open>stream_laws\<close> and \<open>datagram_laws\<close> (what \<open>send\<close>, \<open>recv\<close>, \<open>sendto\<close> and
  \<open>recvfrom\<close> do to the bytes and messages on their way) are those of C34 and C35; \<open>connection_laws\<close> (what
  \<open>bind\<close>, \<open>unlink\<close>, \<open>listen\<close>, \<open>connect\<close>, \<open>accept\<close> and \<open>close\<close> do to paths, listeners, the clients that wait at
  them and the open descriptors, as far as no other program interferes) are those of C38. Witnesses give systems
  that satisfy them. Platform constants are the record \<open>platform\<close>.

  \<^bold>\<open>Not modelled.\<close> Weak memory (every atomic access is taken as sequentially consistent),
  allocation failure, the reference counts of \<open>shared_ptr\<close> to a shared state (those of a promise are the sets of
  owners in \<open>Owners\<close>), the empty class \<open>connection\<close>, tests. Of the
  language, \<open>TypeTraits\<close> leaves out volatile and ref-qualified types and takes classes to be movable;
  overload resolution among several call operators is a parameter.
  In \<open>PoolFutures\<close> the call of one function of a pipeline is a step, and so is the settlement of its
  promise; that the latter's accesses to the shared state interleave with getting threads is the
  subject of \<open>Future\<close> and \<open>FutureProgress\<close>. What is not covered of the sources
  is declarations, comments and the forwarding of types.
\<close>

lemma service_start_new:
  "thread_pool_new spawn requested = Inr p0 \<Longrightarrow> unat requested < 2 ^ 30
     \<Longrightarrow> service_start (service_new p0 u)"
  by (auto simp: service_start_def pool_start_def)

lemma service_reachable_inv:
  assumes "thread_pool_new spawn requested = Inr p0" and "unat requested < 2 ^ 30"
    and "reaches (service_step body) (service_new p0 u) s"
  shows "service_inv s"
  using assms(3) service_start_new [OF assms(1,2)] by (rule service.inv_reaches)

text \<open>C12: from \<open>wait\<close> through the pool to the future. Clients call \<open>wait\<close> on pipelines scheduled on the
  pool and cancel futures, workers run tasks, the destructor shuts the pool down, in any
  interleaving. A future blocks only while its task is queued or running; while it is, the
  shared state is unsettled unless a client cancelled this very future; when the shutdown has
  finished every future has a result unless its task was submitted during the shutdown and is
  still in a queue; and when then the members of the pool are destroyed, every future without
  exception has a result.\<close>

theorem wait_resolved_by_pool:
  assumes "thread_pool_new spawn requested = Inr p0" and "unat requested < 2 ^ 30"
    and "trace (service_step body) (service_new p0 u) as s"
    and "a < length (the_store s)" and "f = get_future (promise_at a)"
  shows "(future_get moved f (the_store s) = Blocked \<longrightarrow> a \<in># outstanding (the_pool s))
    \<and> (a \<in># outstanding (the_pool s) \<longrightarrow>
         shared_state.m_state (the_store s ! a) = Init
         \<or> shared_state.m_state (the_store s ! a) = Canceled \<and> ClientCancel a \<in> set as)
    \<and> (joiner (the_pool s) = Joined \<and> a \<notin># pending_tasks (pool.m_scheduler (the_pool s)) \<longrightarrow>
         (\<exists>r h. future_get moved f (the_store s) = Result r h))
    \<and> (joiner (the_pool s) = Joined \<longrightarrow> (\<exists>r h. future_get moved f (destroy_members s) = Result r h))"
proof -
  note spec = service_executor [OF assms(3) service_start_new [OF assms(1,2)]]
  have inv: "service_inv s" using spec(1) by (simp add: executor_inv_def)
  have "joiner (the_pool s) = Joined \<Longrightarrow> running_tasks (the_pool s) = {#}"
    using joined_pool [of "the_pool s"] inv by (simp add: service_inv_def)
  moreover have "is_ready (the_store s ! a) \<Longrightarrow> \<exists>r h. future_get moved f (the_store s) = Result r h"
    unfolding assms(5) by (rule future_get_ready [OF assms(4)])
  moreover have "joiner (the_pool s) = Joined \<Longrightarrow> \<exists>r h. future_get moved f (destroy_members s) = Result r h"
    unfolding assms(5) using destroyed_ready [OF inv _ assms(4)] future_get_ready by blast
  ultimately show ?thesis
    using outstanding_or_ready [OF inv assms(4)] outstanding_state [OF spec(1,3)] by (auto simp: outstanding_def)
qed

theorem wait_resolved_by_pool_witness:
  "\<exists>p0 (s :: (nat, nat) service).
     thread_pool_new (\<lambda>_. True) 1 = Inr p0
     \<and> trace (service_step (\<lambda>a. (\<lambda>_ u. (Inr a, u), []))) (service_new p0 0) [ClientWait] s
     \<and> future_get (\<lambda>v. v) (get_future (promise_at 0)) (the_store s) = Blocked
     \<and> 0 \<in># outstanding (the_pool s)"
proof -
  let ?body = "\<lambda>a. (\<lambda>_ u. (Inr a, u), []) :: (unit, nat, nat) invocable \<times> (nat, nat, nat) invocable list"
  let ?start = "one_pool queue_new 0 Started NotJoining :: nat pool"
  let ?t = "service_new ?start 0 :: (nat, nat) service"
  obtain s' where s': "RRScheduler.schedule (\<lambda>_. True) 0 (pool.m_scheduler ?start) = Some s'"
    using schedule_effect [of "pool.m_scheduler ?start" "\<lambda>_. True" 0] by (auto simp: rr_ok_def)
  let ?p = "?start\<lparr>pool.m_scheduler := s', submitted := add_mset 0 (submitted ?start)\<rparr>"
  let ?s = "?t\<lparr>the_pool := ?p, the_store := [shared_state_new]\<rparr>"
  have "pool_step (Submit 0) ?start ?p" by (rule submit [OF s'])
  then have st: "service_step ?body ClientWait ?t ?s"
    using client_wait [of ?body ?t] by (simp add: wait_sender_eq Let_def)
  have r: "trace (service_step ?body) ?t [ClientWait] ?s"
    using trace_step [where rel = "service_step ?body", OF trace_start st] by simp
  have blocked: "future_get (\<lambda>v. v) (get_future (promise_at 0)) (the_store ?s) = Blocked"
    by (simp add: future_get_def get_future_eq promise_at_def get_def is_ready_def shared_state_new_def)
  from wait_resolved_by_pool [OF one_pool_new _ r _ refl, of 0 "\<lambda>v. v"] blocked
  have "0 \<in># outstanding (the_pool ?s)" by simp
  with one_pool_new r blocked show ?thesis by blast
qed

text \<open>C13: the \<open>noexcept\<close> loop of the workers holds. In whatever state of the service a worker is in the
  call of a task, and whatever the functions of the pipeline throw: a task that has not begun would
  return normally if it ran alone; and however other threads come in between, the worker can always
  go on, with the next function or, when the call ends, which it does normally, to its loop.\<close>

theorem pool_run_noexcept:
  assumes "thread_pool_new spawn requested = Inr p0" and "unat requested < 2 ^ 30"
    and "reaches (service_step body) (service_new p0 u) s"
    and "worker_is (the_pool s) i (Running idx a)"
  shows "(\<exists>h1 u1. run_call body a (the_store s, the_rest s) = (Normal, (h1, u1)))
    \<and> (\<exists>s' outcome w. service_step body (Worker i) s s'
         \<and> call_step body a (the_calls s a) (the_store s, the_rest s) = (outcome, w)
         \<and> (case outcome of
              Continues st \<Rightarrow> worker_is (the_pool s') i (Running idx a) \<and> the_calls s' a = Some st
            | Ends c \<Rightarrow> c = Normal \<and> worker_is (the_pool s') i (Scanning idx 0) \<and> the_calls s' a = None))"
proof -
  have a: "a < length (the_store s)" by (rule running_bound [OF service_reachable_inv [OF assms(1,2,3)] assms(4)])
  then obtain c u1 where call: "run_call body a (the_store s, the_rest s) = (Normal, ((the_store s)[a := c], u1))"
    using run_call_effect [of a "the_store s" body "the_rest s"] by blast
  obtain outcome h1 u2 where st: "call_step body a (the_calls s a) (the_store s, the_rest s) = (outcome, (h1, u2))"
    by (metis surj_pair)
  show ?thesis
  proof (cases outcome)
    case (Continues c')
    from worker_calls [OF assms(4) st [unfolded Continues]] call st Continues assms(4) show ?thesis
      by (intro conjI exI) auto
  next
    case (Ends c')
    from call_step_ends [OF a st [unfolded Ends]] obtain cell where c': "c' = Normal" "h1 = (the_store s)[a := cell]" by blast
    then have drop: "drop_task (promise_at a) h1 = Some ((the_store s)[a := broken cell])"
      using a by (simp add: drop_task_eq)
    from worker_ends [OF assms(4) run_task [OF assms(4)] _ drop] st Ends c'(1) have
      "service_step body (Worker i) s (s\<lparr>the_pool := set_worker i (Scanning idx 0)
          ((the_pool s)\<lparr>executed := add_mset a (executed (the_pool s))\<rparr>),
        the_store := (the_store s)[a := broken cell], the_rest := u2, the_calls := (the_calls s)(a := None)\<rparr>)"
      by blast
    with call st Ends c' assms(4) show ?thesis by (intro conjI exI) auto
  qed
qed

text \<open>A pool of one worker that has taken the first task.\<close>

lemma one_worker_takes:
  fixes body :: "(nat, nat) body"
  defines "p w i q \<equiv> (one_pool q i w NotJoining)\<lparr>pool.m_scheduler := \<lparr>m_task_queue = [q], m_push_index = 1,
      m_pop_index = i\<rparr>, submitted := {#0#}\<rparr>"
  shows "trace (service_step body) (service_new (one_pool queue_new 0 Started NotJoining) u) [ClientWait, Worker 0, Worker 0]
    \<lparr>the_pool = p (Running 0 0) 1 queue_new, the_store = [shared_state_new], the_rest = u, the_calls = (\<lambda>_. None)\<rparr>"
proof -
  let ?at = "\<lambda>p. \<lparr>the_pool = p, the_store = [shared_state_new], the_rest = u, the_calls = (\<lambda>_. None)\<rparr> :: (nat, nat) service"
  let ?start = "service_new (one_pool queue_new 0 Started NotJoining) u :: (nat, nat) service"
  have "pool_step (Submit 0) (one_pool queue_new 0 Started NotJoining) (p Started 0 (push 0 queue_new))"
    using submit [of "\<lambda>_. True" 0 "one_pool queue_new 0 Started NotJoining"]
    by (simp add: p_def schedule_uncontended rr_ok_def Let_def set_queue_def)
  then have 1: "service_step body ClientWait ?start (?at (p Started 0 (push 0 queue_new)))"
    using client_wait [of body ?start] by (simp add: wait_sender_eq Let_def)
  have "pool_step (Work 0) (p Started 0 (push 0 queue_new)) (p (Scanning 0 0) 1 (push 0 queue_new))"
    using first_call [where p = "p Started 0 (push 0 queue_new)" and i = 0] by (simp add: p_def thread_index_of_def)
  then have 2: "service_step body (Worker 0) (?at (p Started 0 (push 0 queue_new))) (?at (p (Scanning 0 0) 1 (push 0 queue_new)))"
    using worker_other [where s = "?at (p Started 0 (push 0 queue_new))" and i = 0] by (simp add: p_def)
  have "pool_step (Work 0) (p (Scanning 0 0) 1 (push 0 queue_new)) (p (Running 0 0) 1 queue_new)"
    using scan_hit [where p = "p (Scanning 0 0) 1 (push 0 queue_new)" and i = 0 and idx = 0 and n = 0 and locked = "\<lambda>_. True"]
    by (simp add: p_def pool_eval push_def)
  then have 3: "service_step body (Worker 0) (?at (p (Scanning 0 0) 1 (push 0 queue_new))) (?at (p (Running 0 0) 1 queue_new))"
    using worker_other [where s = "?at (p (Scanning 0 0) 1 (push 0 queue_new))" and i = 0] by (simp add: p_def)
  show ?thesis
    using trace_step [where rel = "service_step body", OF trace_step [where rel = "service_step body",
        OF trace_step [where rel = "service_step body", OF trace_start 1] 2] 3] by simp
qed

theorem pool_run_noexcept_witness:
  "\<exists>h1. run_call (\<lambda>a. (\<lambda>_ u. (Inl (RuntimeError ''no''), Suc u), []) :: (unit, nat, nat) invocable \<times> (nat, nat, nat) invocable list)
     0 ([shared_state_new], 3) = (Normal, (h1, 4))"
  (is "\<exists>h1. run_call ?body 0 _ = _")
proof -
  from pool_run_noexcept [OF one_pool_new _ trace_reaches [OF one_worker_takes [of ?body 3]], of 0 0 0]
  obtain h1 u1 where call: "run_call ?body 0 ([shared_state_new], 3) = (Normal, (h1, u1))" by auto
  moreover from call have "u1 = 4"
    by (simp add: run_call_def noexcept_def task_of_eq value_rcv.pipeline_task beside_def value_is_canceled_eq
        promise_at_def shared_state_new_def value_fail_eq)
  ultimately show ?thesis by blast
qed

text \<open>C1: the service is an executor. Take the pool, its scheduler and queues, the pipelines, their
  receivers and the shared states together, with clients, workers and shutdown interleaved, also
  between the functions of one pipeline. Every run of it is, step by step, a run of an executor that
  keeps nothing but a status per call and how far the calls in execution have come. The executor
  invokes, cancels and loses calls only where a client calls \<open>wait\<close> or cancels that future, or the
  pool is shut down; for a step of a worker it calls the next function of one pipeline, or ends one
  call with the result of its last function, or does nothing. And each future gives what the
  status of its call says: it blocks while there is none, and otherwise returns or throws what the
  status holds.\<close>

theorem service_refines_executor:
  assumes "thread_pool_new spawn requested = Inr p0" and "unat requested < 2 ^ 30"
    and "trace (service_step body) (service_new p0 u) as s"
  shows "(\<exists>xss. list_all2 done_for as xss \<and> run (executor_step body) (concat xss) (executor_new u) = Some (executor_of s))
    \<and> (\<forall>a < length (the_store s).
         case x_status (executor_of s) ! a of
           None \<Rightarrow> future_get moved (get_future (promise_at a)) (the_store s) = Blocked
         | Some c \<Rightarrow> \<exists>h. future_get moved (get_future (promise_at a)) (the_store s) = Result (settled_get c) h)"
  using service_executor(1,2) [OF assms(3) service_start_new [OF assms(1,2)]] executor_get [of s _ moved] by simp

text \<open>The pool of one worker again, after the worker has run the task of a pipeline that returns 5.\<close>

abbreviation five_body :: "(nat, nat) body" where
  "five_body \<equiv> \<lambda>a. (\<lambda>_ u. (Inr 5, Suc u), [])"

abbreviation five_done :: "nat worker \<Rightarrow> (nat, nat) service" where
  "five_done w \<equiv>
     \<lparr>the_pool = (one_pool queue_new 1 w NotJoining)\<lparr>pool.m_scheduler := \<lparr>m_task_queue = [queue_new],
        m_push_index = 1, m_pop_index = 1\<rparr>, submitted := {#0#}, executed := {#0#}\<rparr>,
      the_store = [settle (SetValue (result_of_value 5)) shared_state_new], the_rest = 4, the_calls = (\<lambda>_. None)\<rparr>"

lemma five_runs:
  "trace (service_step five_body) (service_new (one_pool queue_new 0 Started NotJoining) 3)
     [ClientWait, Worker 0, Worker 0, Worker 0, Worker 0] (five_done (Scanning 0 0))"
proof -
  let ?p = "(one_pool queue_new 1 (Running 0 0) NotJoining)\<lparr>pool.m_scheduler := \<lparr>m_task_queue = [queue_new],
        m_push_index = 1, m_pop_index = 1\<rparr>, submitted := {#0#}\<rparr>"
  let ?s = "\<lparr>the_pool = ?p, the_store = [shared_state_new], the_rest = 3, the_calls = (\<lambda>_. None)\<rparr> :: (nat, nat) service"
  let ?t = "\<lparr>the_pool = ?p, the_store = [shared_state_new], the_rest = 4, the_calls = (\<lambda>_. None)(0 \<mapsto> (Inr 5, []))\<rparr>
    :: (nat, nat) service"
  let ?h = "[settle (SetValue (result_of_value 5)) shared_state_new] :: nat store"
  have "call_step five_body 0 None ([shared_state_new], 3) = (Continues (Inr 5, []), ([shared_state_new], 4))"
    by (simp add: call_step_effect shared_state_new_def del: call_step.simps)
  then have 1: "service_step five_body (Worker 0) ?s ?t"
    using worker_calls [where s = ?s and i = 0 and idx = 0 and a = 0 and body = five_body] by simp
  have "call_step five_body 0 (Some (Inr 5, [])) ([shared_state_new], 4) = (Ends Normal, (?h, 4))"
    by (simp add: call_step_effect del: call_step.simps settle.simps)
  moreover have "drop_task (promise_at 0) ?h = Some ?h"
    by (simp add: drop_task_eq broken_ready settle_ready del: settle.simps)
  moreover have "pool_step (Work 0) ?p (the_pool (five_done (Scanning 0 0)))"
    using run_task [where p = ?p and i = 0 and idx = 0 and t = 0] by simp
  ultimately have 2: "service_step five_body (Worker 0) ?t (five_done (Scanning 0 0))"
    using worker_ends [where s = ?t and i = 0 and idx = 0 and a = 0 and body = five_body and ?h1.0 = ?h and ?u1.0 = 4
        and p' = "the_pool (five_done (Scanning 0 0))" and ?h2.0 = ?h]
    by (simp del: call_step.simps settle.simps)
  show ?thesis
    using trace_step [where rel = "service_step five_body", OF trace_step [where rel = "service_step five_body",
        OF one_worker_takes [of five_body 3] 1] 2] by simp
qed

theorem service_refines_executor_witness:
  "(\<exists>xss. list_all2 done_for [ClientWait, Worker 0, Worker 0, Worker 0, Worker 0] xss
      \<and> run (executor_step five_body) (concat xss) (executor_new 3) = Some (executor_of (five_done (Scanning 0 0))))
   \<and> (\<exists>h. future_get (\<lambda>v. v) (get_future (promise_at 0)) (the_store (five_done (Scanning 0 0)))
         = Result (Inr (result_of_value 5)) h)"
  using service_refines_executor [OF one_pool_new _ five_runs, of "\<lambda>v. v"]
  by (simp add: executor_of_def del: settle.simps)

text \<open>C2: using the pool, everybody gets the result of his pipeline. Before the pool is shut down,
  whatever clients and workers have done: every step of a worker makes a measure smaller, of the
  work of the pool or, while a task is called, of the functions left; and unless every call has been
  run, once, and every future returns what its own pipeline came to, each function called with
  the result of the one before, or, only if a client cancelled this future, the empty result, there
  is a worker that can take a step. No task is lost, stuck or run twice and no promise is broken.\<close>

theorem wait_returns_results:
  assumes "thread_pool_new spawn requested = Inr p0" and "unat requested < 2 ^ 30"
    and "trace (service_step body) (service_new p0 u) as s"
    and "joiner (the_pool s) = NotJoining"
  shows "(\<forall>i s'. service_step body (Worker i) s s' \<longrightarrow>
        pool_measure (the_pool s') < pool_measure (the_pool s)
        \<or> the_pool s' = the_pool s \<and> calls_left body s' < calls_left body s)
    \<and> ((\<exists>i s'. service_step body (Worker i) s s')
       \<or> (\<forall>a < length (the_store s). count (executed (the_pool s)) a = 1
            \<and> (\<exists>c h. future_get moved (get_future (promise_at a)) (the_store s) = Result (settled_get c) h
                 \<and> (c = Cancel \<and> ClientCancel a \<in> set as \<or> run_settlement body a c))))"
proof -
  note start = service_start_new [OF assms(1,2), of u]
  note spec = service_executor [OF assms(3) start]
  have inv: "service_inv s" using spec(1) by (simp add: executor_inv_def)
  have "pool_start p0" using start by (simp add: service_start_def)
  with in_use.inv_reaches [OF service_reaches_pool [OF trace_reaches [OF assms(3)]]]
  have pool: "pool_inv (the_pool s)" "in_use_inv (the_pool s)" by simp_all
  have "count (executed (the_pool s)) a = 1
      \<and> (\<exists>c h. future_get moved (get_future (promise_at a)) (the_store s) = Result (settled_get c) h
           \<and> (c = Cancel \<and> ClientCancel a \<in> set as \<or> run_settlement body a c))"
    if stuck: "\<nexists>i s'. service_step body (Worker i) s s'" and a: "a < length (the_store s)" for a
  proof -
    have "pool_idle (the_pool s)" using stuck service_worker_moves [OF inv] unfolding pool_idle_def by blast
    note idle = idle_pool [OF this pool assms(4)]
    then have open_none: "x_open (executor_of s) = {#}" and lost: "x_lost (executor_of s) = {#}"
      using conservation [OF pool(1)] pool(2) assms(4)
      by (auto simp: executor_of_def finished_def in_use_inv_def simp del: mset_upt mset_concat)
    from executor_all_run [OF spec(3) open_none lost, of a] a executor_get [OF spec(1) a, of moved]
    show ?thesis by (auto simp: executor_of_def simp del: settled_get.simps)
  qed
  with service_work_measure [OF pool(1)] show ?thesis by blast
qed

text \<open>The worker goes through the empty queue and then waits.\<close>

lemma five_waits:
  "trace (service_step five_body) (service_new (one_pool queue_new 0 Started NotJoining) 3)
     (ClientWait # replicate 6 (Worker 0)) (five_done (Popping 0))"
proof -
  have "pool_step (Work 0) (the_pool (five_done (Scanning 0 0))) (the_pool (five_done (Scanning 0 1)))"
    using scan_miss [where p = "the_pool (five_done (Scanning 0 0))" and i = 0 and idx = 0 and n = 0 and locked = "\<lambda>_. True"]
    by (simp add: pool_eval)
  then have 1: "service_step five_body (Worker 0) (five_done (Scanning 0 0)) (five_done (Scanning 0 1))"
    using worker_other [where s = "five_done (Scanning 0 0)" and i = 0] by simp
  have "pool_step (Work 0) (the_pool (five_done (Scanning 0 1))) (the_pool (five_done (Popping 0)))"
    using scan_end [where p = "the_pool (five_done (Scanning 0 1))" and i = 0 and idx = 0 and n = 1]
    by (simp add: pool_eval)
  then have 2: "service_step five_body (Worker 0) (five_done (Scanning 0 1)) (five_done (Popping 0))"
    using worker_other [where s = "five_done (Scanning 0 1)" and i = 0] by simp
  show ?thesis
    using trace_step [where rel = "service_step five_body", OF trace_step [where rel = "service_step five_body",
        OF five_runs 1] 2] by (simp add: eval_nat_numeral)
qed

lemma five_stuck: "\<not> service_step five_body (Worker i) (five_done (Popping 0)) s'"
proof
  assume "service_step five_body (Worker i) (five_done (Popping 0)) s'"
  then obtain p' where "pool_step (Work i) (the_pool (five_done (Popping 0))) p'"
    by (cases rule: service_step.cases) auto
  then show False by (auto simp: pool_eval elim!: work_stepE)
qed

lemma five_value: "call_value five_body 0 st \<Longrightarrow> st = (Inr 5, [])"
  by (induction rule: call_value.induct) auto

lemma five_settlement: "run_settlement five_body 0 c \<Longrightarrow> c = SetValue (result_of_value 5)"
  by (auto simp: run_settlement_def dest: five_value)

theorem wait_returns_results_witness:
  "\<exists>h. future_get (\<lambda>v. v) (get_future (promise_at 0)) (the_store (five_done (Popping 0)))
      = Result (Inr (result_of_value 5)) h"
proof -
  from wait_returns_results [OF one_pool_new _ five_waits, of "\<lambda>v. v"] five_stuck
  obtain c h where get: "future_get (\<lambda>v. v) (get_future (promise_at 0)) (the_store (five_done (Popping 0)))
      = Result (settled_get c) h" and "c = Cancel \<and> ClientCancel 0 \<in> set (ClientWait # replicate 6 (Worker 0))
        \<or> run_settlement five_body 0 c"
    by auto
  then have "c = SetValue (result_of_value 5)" by (auto dest: five_settlement)
  with get show ?thesis by auto
qed

end
